(* ===== verification/Prelude.thy ===== *)
theory Prelude
  imports Main "HOL-Library.Word"
begin

text \<open>
  Shared material of the development: the machine integers of the C code, the ways a C
  function can fail, the loop lemmas for \<open>fold\<close> over an index range, and the three
  contracts (locales) that every concurrent component is proved against: an invariant of
  the reachable states, progress towards a final state, and simulation of an abstract
  machine by a detailed one.
\<close>

section \<open>Machine integers\<close>

type_synonym u8 = "8 word"
type_synonym u16 = "16 word"
type_synonym u32 = "32 word"
type_synonym u64 = "64 word"

lemma unat_of_nat32: "n < 2 ^ 32 \<Longrightarrow> unat (of_nat n :: u32) = n"
  by (simp add: unat_of_nat)

lemma unat_of_nat64: "n < 2 ^ 64 \<Longrightarrow> unat (of_nat n :: u64) = n"
  by (simp add: unat_of_nat)

lemma of_nat_le32: "m < 2 ^ 32 \<Longrightarrow> n < 2 ^ 32 \<Longrightarrow> (of_nat m :: u32) \<le> of_nat n \<longleftrightarrow> m \<le> n"
  by (simp add: word_le_nat_alt unat_of_nat32)

lemma unat_Suc32:
  assumes "c < (d :: u32)"
  shows "unat (c + 1) = Suc (unat c)"
proof -
  have "unat c < unat d" using assms by (simp add: word_less_nat_alt)
  moreover have "unat d < 2 ^ 32" using unsigned_less [of d] by simp
  ultimately show ?thesis by (simp add: unat_word_ariths)
qed

section \<open>Failure of a C function\<close>

text \<open>
  A call that does not return normally: a failed \<open>assert\<close>, \<open>exit (EXIT_FAILURE)\<close>,
  \<open>exit (EXIT_SUCCESS)\<close>, or behaviour the C standard leaves undefined (a read of an
  uninitialised or foreign object, a division by zero).
\<close>

datatype failure = AssertFailed | ExitFailure | ExitSuccess | Undefined

type_synonym 'a outcome = "failure + 'a"

fun and_then :: "'e + 'a \<Rightarrow> ('a \<Rightarrow> 'e + 'b) \<Rightarrow> 'e + 'b" where
  "and_then (Inl e) f = Inl e"
| "and_then (Inr a) f = f a"

lemma and_then_Inr_iff: "and_then m f = Inr b \<longleftrightarrow> (\<exists>a. m = Inr a \<and> f a = Inr b)"
  by (cases m) auto

lemma and_then_assoc: "and_then (and_then m f) g = and_then m (\<lambda>a. and_then (f a) g)"
  by (cases m) auto

lemma and_then_Inr [simp]: "and_then m Inr = m"
  by (cases m) auto

text \<open>A loop over a list whose body may fail: it stops at the first failure.\<close>

fun fold_res :: "('a \<Rightarrow> 's \<Rightarrow> 'e + 's) \<Rightarrow> 'a list \<Rightarrow> 's \<Rightarrow> 'e + 's" where
  "fold_res f [] s = Inr s"
| "fold_res f (x # xs) s = and_then (f x s) (fold_res f xs)"

lemma fold_res_append:
  "fold_res f (xs @ ys) s = and_then (fold_res f xs s) (fold_res f ys)"
proof (induction xs arbitrary: s)
  case (Cons x xs)
  then have "fold_res f (xs @ ys) = (\<lambda>s. and_then (fold_res f xs s) (fold_res f ys))" by blast
  then show ?case by (simp add: and_then_assoc)
qed simp

lemma fold_res_Nil: "fold_res f [] = Inr"
  by (rule ext) simp

lemma fold_res_single [simp]: "fold_res f [x] = f x"
  by (rule ext) (simp add: fold_res_Nil)

lemma fold_res_upt_Suc:
  "fold_res f [0..<Suc n] s = and_then (fold_res f [0..<n] s) (f n)"
  by (simp add: fold_res_append)

lemma fold_res_cong:
  "(\<And>x s. x \<in> set xs \<Longrightarrow> f x s = g x s) \<Longrightarrow> fold_res f xs s = fold_res g xs s"
proof (induction xs arbitrary: s)
  case (Cons x xs)
  then have "fold_res f xs = fold_res g xs" by (intro ext) simp
  with Cons show ?case by simp
qed simp

text \<open>An invariant of the body is one of the loop, if the loop comes to its end.\<close>

lemma fold_res_inv:
  assumes "fold_res f xs s = Inr t" and "P s" and "\<And>x s t. x \<in> set xs \<Longrightarrow> P s \<Longrightarrow> f x s = Inr t \<Longrightarrow> P t"
  shows "P t"
  using assms
proof (induction xs arbitrary: s)
  case (Cons x xs)
  then obtain u where "f x s = Inr u" "fold_res f xs u = Inr t" by (auto simp: and_then_Inr_iff)
  with Cons show ?case by (metis list.set_intros(1) list.set_intros(2))
qed simp

text \<open>
  The rule for a counted loop: an invariant indexed by the number of iterations done, kept
  by every iteration, which therefore never fails.
\<close>

lemma fold_res_upt_inv:
  assumes "P 0 s"
    and "\<And>i s. i < n \<Longrightarrow> P i s \<Longrightarrow> \<exists>t. f i s = Inr t \<and> P (Suc i) t"
  shows "\<exists>t. fold_res f [0..<n] s = Inr t \<and> P n t"
  using assms(2)
proof (induction n)
  case 0
  with assms(1) show ?case by simp
next
  case (Suc n)
  then obtain t where "fold_res f [0..<n] s = Inr t" and "P n t" by auto
  moreover from \<open>P n t\<close> Suc.prems obtain u where "f n t = Inr u" and "P (Suc n) u"
    by blast
  ultimately show ?case
    unfolding fold_res_upt_Suc by simp
qed

lemma fold_upt_inv:
  assumes "P 0 s"
    and "\<And>i s. i < n \<Longrightarrow> P i s \<Longrightarrow> P (Suc i) (f i s)"
  shows "P n (fold f [0..<n] s)"
  using assms(2)
  by (induction n) (simp_all add: assms(1))

section \<open>Lemma collections\<close>

named_theorems step_simps \<open>definitions unfolded when one step of a machine is examined\<close>

section \<open>Runs of a transition relation\<close>

inductive reach :: "('s \<Rightarrow> bool) \<Rightarrow> ('s \<Rightarrow> 's \<Rightarrow> bool) \<Rightarrow> 's \<Rightarrow> bool" for init step where
  reach_init: "init s \<Longrightarrow> reach init step s"
| reach_step: "reach init step s \<Longrightarrow> step s t \<Longrightarrow> reach init step t"

lemma reach_mono: "reach init step s \<Longrightarrow> (\<And>s. init s \<Longrightarrow> init1 s) \<Longrightarrow> reach init1 step s"
  by (induction rule: reach.induct) (blast intro: reach_init reach_step)+

lemma reach_steps: "step\<^sup>*\<^sup>* s t \<Longrightarrow> reach init step s \<Longrightarrow> reach init step t"
  by (induction rule: rtranclp_induct) (blast intro: reach_step)+

lemma reach_from: "reach init step s \<Longrightarrow> \<exists>s0. init s0 \<and> reach (\<lambda>s. s = s0) step s"
  by (induction rule: reach.induct) (blast intro: reach.intros)+

text \<open>An invariant: established by the initial states and kept by every step.\<close>

locale invariant_system =
  fixes init :: "'s \<Rightarrow> bool"
    and step :: "'s \<Rightarrow> 's \<Rightarrow> bool"
    and inv :: "'s \<Rightarrow> bool"
  assumes init_inv: "init s \<Longrightarrow> inv s"
    and step_inv: "inv s \<Longrightarrow> step s t \<Longrightarrow> inv t"
begin

lemma reach_inv: "reach init step s \<Longrightarrow> inv s"
  by (induction rule: reach.induct) (blast intro: init_inv step_inv)+

lemma steps_inv: "step\<^sup>*\<^sup>* s t \<Longrightarrow> inv s \<Longrightarrow> inv t"
  by (induction rule: rtranclp_induct) (blast intro: step_inv)+

end

text \<open>
  Progress: among the steps, the \<open>work\<close> steps (those that do not depend on the
  kindness of the environment) lower a measure, and a state that is not final has one.
  Then no run of work steps is infinite, and every reachable state can be, and if it is
  run on must be, driven to a final one.
\<close>

locale progress_system = invariant_system init step inv
  for init :: "'s \<Rightarrow> bool" and step :: "'s \<Rightarrow> 's \<Rightarrow> bool" and inv :: "'s \<Rightarrow> bool" +
  fixes work :: "'s \<Rightarrow> 's \<Rightarrow> bool"
    and final :: "'s \<Rightarrow> bool"
    and fuel :: "'s \<Rightarrow> nat"
  assumes work_step: "work s t \<Longrightarrow> step s t"
    and work_fuel: "inv s \<Longrightarrow> work s t \<Longrightarrow> fuel t < fuel s"
    and progress: "inv s \<Longrightarrow> \<not> final s \<Longrightarrow> \<exists>t. work s t"
begin

lemma works_inv: "work\<^sup>*\<^sup>* s t \<Longrightarrow> inv s \<Longrightarrow> inv t"
  by (induction rule: rtranclp_induct) (blast intro: step_inv work_step)+

lemma reaches_final: "inv s \<Longrightarrow> \<exists>t. work\<^sup>*\<^sup>* s t \<and> final t"
proof (induction "fuel s" arbitrary: s rule: less_induct)
  case less
  show ?case
  proof (cases "final s")
    case False
    with less.prems obtain u where u: "work s u" using progress by blast
    then have "inv u" using less.prems by (blast intro: step_inv work_step)
    with u less.prems less.hyps obtain t where "work\<^sup>*\<^sup>* u t" and "final t"
      using work_fuel by blast
    with u show ?thesis by (meson converse_rtranclp_into_rtranclp)
  qed blast
qed

lemma reach_final: "reach init step s \<Longrightarrow> \<exists>t. work\<^sup>*\<^sup>* s t \<and> final t"
  by (blast intro: reaches_final reach_inv)

lemma stuck_final: "reach init step s \<Longrightarrow> (\<nexists>t. work s t) \<Longrightarrow> final s"
  by (blast dest: reach_inv progress)

lemma no_infinite_run:
  assumes "inv (f 0)" and "\<And>i. work (f i) (f (Suc i))"
  shows False
proof -
  have inv: "inv (f i)" for i
    by (induction i) (use assms in \<open>blast intro: step_inv work_step\<close>)+
  have "fuel (f i) + i \<le> fuel (f 0)" for i
  proof (induction i)
    case (Suc i)
    have "fuel (f (Suc i)) < fuel (f i)" by (rule work_fuel [OF inv assms(2)])
    with Suc show ?case by simp
  qed simp
  from this [of "Suc (fuel (f 0))"] show False by simp
qed

end

text \<open>
  Forward simulation: every step of the detailed machine, from a state satisfying its
  invariant, is a step of the abstract machine or leaves the abstract state alone.
\<close>

locale simulation = invariant_system init step inv
  for init :: "'s \<Rightarrow> bool" and step :: "'s \<Rightarrow> 's \<Rightarrow> bool" and inv :: "'s \<Rightarrow> bool" +
  fixes abs_of :: "'s \<Rightarrow> 'a"
    and ainit :: "'a \<Rightarrow> bool"
    and astep :: "'a \<Rightarrow> 'a \<Rightarrow> bool"
  assumes sim_init: "init s \<Longrightarrow> ainit (abs_of s)"
    and sim_step: "inv s \<Longrightarrow> step s t \<Longrightarrow> abs_of t = abs_of s \<or> astep (abs_of s) (abs_of t)"
begin

lemma reach_simulated: "reach init step s \<Longrightarrow> reach ainit astep (abs_of s)"
proof (induction rule: reach.induct)
  case (reach_init s)
  then show ?case by (blast intro: reach.reach_init sim_init)
next
  case (reach_step s t)
  then have "inv s" by (blast intro: reach_inv)
  with reach_step sim_step [of s t] show ?case
    by (metis reach.reach_step)
qed

end

end
