(* ===== verification/Mailbox.thy ===== *)
theory Mailbox
  imports Prelude
begin

text \<open>
  The hand-over of one work item between the main thread and a worker thread
  (\<open>include/worker.h\<close>, \<open>src/worker.c\<close>). Every \<open>struct arg\<close> carries a one-slot
  mailbox: the pointer \<open>work\<close>, the state \<open>s\<close>, a mutex \<open>lock\<close> and a condition variable
  \<open>cv\<close> which both threads use. The first part holds the four critical sections as
  functions on the mailbox. The second part runs them from the two threads at the
  granularity of the single pthread calls, with the POSIX semantics: a mutex has at most one
  owner, \<open>pthread_cond_wait\<close> gives the mutex up and blocks in one step and takes it again
  before it returns, \<open>pthread_cond_signal\<close> unblocks at least one thread if any is
  blocked, and a blocked thread may also wake spuriously.
\<close>

section \<open>The mailbox and its critical sections\<close>

datatype state = IDLE | QUEUED | WORKING | DONE

text \<open>
  The fields of \<open>struct arg\<close> that the hand-over uses. The record is extended in the
  theory of the worker with the others, and every operation here works on the extension.
\<close>

record 'w mailbox =
  mb_work :: "'w option"  \<comment> \<open>\<open>work\<close>; \<open>None\<close> is \<open>NULL\<close>\<close>
  mb_s :: state           \<comment> \<open>\<open>s\<close>\<close>

definition queue_work :: "'w \<Rightarrow> ('w, 'z) mailbox_scheme \<Rightarrow> ('w, 'z) mailbox_scheme outcome" where
  "queue_work w a =
     (if mb_work a \<noteq> None then Inl AssertFailed
      else if mb_s a \<noteq> IDLE then Inl AssertFailed
      else Inr (a\<lparr>mb_work := Some w, mb_s := QUEUED\<rparr>))"

text \<open>
  The two waiting operations are written as what happens with the mutex held: the result
  \<open>None\<close> says that the loop condition holds, so that the caller blocks on \<open>cv\<close>.
\<close>

definition wait_until_done ::
  "('w, 'z) mailbox_scheme \<Rightarrow> ('w option \<times> ('w, 'z) mailbox_scheme) option" where
  "wait_until_done a =
     (if mb_s a \<noteq> DONE then None
      else Some (mb_work a, a\<lparr>mb_work := None, mb_s := IDLE\<rparr>))"

definition wait_for_work_enter :: "('w, 'z) mailbox_scheme \<Rightarrow> unit outcome" where
  "wait_for_work_enter a = (if mb_s a = WORKING then Inl AssertFailed else Inr ())"

definition wait_for_work ::
  "('w, 'z) mailbox_scheme \<Rightarrow> ('w option \<times> ('w, 'z) mailbox_scheme) option" where
  "wait_for_work a =
     (if mb_s a \<noteq> QUEUED then None
      else Some (mb_work a, a\<lparr>mb_work := None, mb_s := WORKING\<rparr>))"

definition return_finished_work ::
  "'w option \<Rightarrow> ('w, 'z) mailbox_scheme \<Rightarrow> ('w, 'z) mailbox_scheme outcome" where
  "return_finished_work w a =
     (if mb_work a \<noteq> None then Inl AssertFailed
      else if mb_s a \<noteq> WORKING then Inl AssertFailed
      else Inr (a\<lparr>mb_work := w, mb_s := DONE\<rparr>))"

lemmas mailbox_defs =
  queue_work_def wait_until_done_def wait_for_work_enter_def wait_for_work_def
  return_finished_work_def

text \<open>
  Well-formedness: the slot is empty in the states \<open>IDLE\<close> and \<open>WORKING\<close> and holds
  an item in \<open>QUEUED\<close> and \<open>DONE\<close>.
\<close>

definition mb_wf :: "('w, 'z) mailbox_scheme \<Rightarrow> bool" where
  "mb_wf a \<longleftrightarrow> (mb_work a = None \<longleftrightarrow> mb_s a = IDLE \<or> mb_s a = WORKING)"

lemma queue_work_wf: "queue_work w a = Inr b \<Longrightarrow> mb_wf b"
  by (auto simp: queue_work_def mb_wf_def split: if_splits)

lemma wait_until_done_wf: "wait_until_done a = Some (w, b) \<Longrightarrow> mb_wf b"
  by (auto simp: wait_until_done_def mb_wf_def split: if_splits)

lemma wait_for_work_wf: "wait_for_work a = Some (w, b) \<Longrightarrow> mb_wf b"
  by (auto simp: wait_for_work_def mb_wf_def split: if_splits)

lemma return_finished_work_wf: "return_finished_work (Some w) a = Inr b \<Longrightarrow> mb_wf b"
  by (auto simp: return_finished_work_def mb_wf_def split: if_splits)

lemma queue_work_ok_iff:
  "mb_wf a \<Longrightarrow> (\<exists>b. queue_work w a = Inr b) \<longleftrightarrow> mb_s a = IDLE"
  by (auto simp: queue_work_def mb_wf_def)

lemma return_finished_work_ok_iff:
  "mb_wf a \<Longrightarrow> (\<exists>b. return_finished_work w a = Inr b) \<longleftrightarrow> mb_s a = WORKING"
  by (auto simp: return_finished_work_def mb_wf_def)

section \<open>Two threads and one mailbox, pthread call by pthread call\<close>

datatype role = Main | Worker

text \<open>
  Where the main thread is: about to lock in \<open>queue_work\<close>, at its body, at the signal, at
  the unlock; about to lock in \<open>wait_until_done\<close>, at the test of the loop, inside
  \<open>pthread_cond_wait\<close>, at the unlock; done with all its items.
\<close>

datatype main_pc = QLock | QBody | QSignal | QUnlock | WLock | WTest | WSleep | WUnlock | MEnd

text \<open>
  Where the worker thread is: in \<open>wait_for_work\<close> about to lock, at the assertion, at the
  test of the loop, inside \<open>pthread_cond_wait\<close>, at the unlock; executing
  the item; in \<open>return_finished_work\<close> about to lock, at its body, at the signal, at the
  unlock; out of its run loop.
\<close>

datatype worker_pc = TLock | TAssert | TTest | TSleep | TUnlock | Exec
  | RLock | RBody | RSignal | RUnlock | WEnd

record 'w handover =
  h_mb :: "'w mailbox"
  h_lock :: "role option"   \<comment> \<open>owner of \<open>lock\<close>\<close>
  h_cv :: "role set"        \<comment> \<open>threads blocked on \<open>cv\<close>\<close>
  h_run :: bool             \<comment> \<open>\<open>run\<close>\<close>
  h_main :: main_pc
  h_wrk :: worker_pc
  h_todo :: "'w list"       \<comment> \<open>items the main thread has still to queue\<close>
  h_got :: "'w option list" \<comment> \<open>results of its calls of \<open>wait_until_done\<close>\<close>
  h_item :: "'w option"     \<comment> \<open>the worker's local variable \<open>work\<close>\<close>
  h_failed :: bool          \<comment> \<open>an assertion has failed\<close>

definition handover_start :: "'w list \<Rightarrow> 'w handover \<Rightarrow> bool" where
  "handover_start ws h \<longleftrightarrow>
     h = \<lparr>h_mb = \<lparr>mb_work = None, mb_s = IDLE\<rparr>, h_lock = None, h_cv = {}, h_run = True,
          h_main = (if ws = [] then MEnd else QLock), h_wrk = TLock, h_todo = ws, h_got = [],
          h_item = None, h_failed = False\<rparr>"

text \<open>
  The steps of the program. The parameter \<open>stops\<close> tells the items whose \<open>call\<close> is
  \<open>stop_thread\<close>, which sets \<open>run\<close> to 0. The main thread runs
  \<open>queue_work; wait_until_done\<close> for each of its items, as every policy in \<open>main.cc\<close>
  does with the mailbox of one worker.
\<close>

inductive prog_step :: "('w \<Rightarrow> bool) \<Rightarrow> 'w handover \<Rightarrow> 'w handover \<Rightarrow> bool" for stops where
  q_lock: "h_main h = QLock \<Longrightarrow> h_lock h = None \<Longrightarrow>
    prog_step stops h (h\<lparr>h_lock := Some Main, h_main := QBody\<rparr>)"
| q_body: "h_main h = QBody \<Longrightarrow> h_todo h = w # ws \<Longrightarrow> queue_work w (h_mb h) = Inr mb \<Longrightarrow>
    prog_step stops h (h\<lparr>h_mb := mb, h_todo := ws, h_main := QSignal\<rparr>)"
| q_fail: "h_main h = QBody \<Longrightarrow> h_todo h = w # ws \<Longrightarrow> queue_work w (h_mb h) = Inl e \<Longrightarrow>
    prog_step stops h (h\<lparr>h_failed := True, h_main := MEnd\<rparr>)"
| q_signal: "h_main h = QSignal \<Longrightarrow> X \<subseteq> h_cv h \<Longrightarrow> (X = {} \<Longrightarrow> h_cv h = {}) \<Longrightarrow>
    prog_step stops h (h\<lparr>h_cv := h_cv h - X, h_main := QUnlock\<rparr>)"
| q_unlock: "h_main h = QUnlock \<Longrightarrow>
    prog_step stops h (h\<lparr>h_lock := None, h_main := WLock\<rparr>)"
| w_lock: "h_main h = WLock \<Longrightarrow> h_lock h = None \<Longrightarrow>
    prog_step stops h (h\<lparr>h_lock := Some Main, h_main := WTest\<rparr>)"
| w_sleep: "h_main h = WTest \<Longrightarrow> wait_until_done (h_mb h) = None \<Longrightarrow>
    prog_step stops h (h\<lparr>h_lock := None, h_cv := insert Main (h_cv h), h_main := WSleep\<rparr>)"
| w_wake: "h_main h = WSleep \<Longrightarrow> Main \<notin> h_cv h \<Longrightarrow> h_lock h = None \<Longrightarrow>
    prog_step stops h (h\<lparr>h_lock := Some Main, h_main := WTest\<rparr>)"
| w_take: "h_main h = WTest \<Longrightarrow> wait_until_done (h_mb h) = Some (w, mb) \<Longrightarrow>
    prog_step stops h (h\<lparr>h_mb := mb, h_got := h_got h @ [w], h_main := WUnlock\<rparr>)"
| w_unlock: "h_main h = WUnlock \<Longrightarrow>
    prog_step stops h (h\<lparr>h_lock := None, h_main := (if h_todo h = [] then MEnd else QLock)\<rparr>)"
| t_lock: "h_wrk h = TLock \<Longrightarrow> h_lock h = None \<Longrightarrow>
    prog_step stops h (h\<lparr>h_lock := Some Worker, h_wrk := TAssert\<rparr>)"
| t_assert: "h_wrk h = TAssert \<Longrightarrow> wait_for_work_enter (h_mb h) = Inr u \<Longrightarrow>
    prog_step stops h (h\<lparr>h_wrk := TTest\<rparr>)"
| t_fail: "h_wrk h = TAssert \<Longrightarrow> wait_for_work_enter (h_mb h) = Inl e \<Longrightarrow>
    prog_step stops h (h\<lparr>h_failed := True, h_wrk := WEnd\<rparr>)"
| t_sleep: "h_wrk h = TTest \<Longrightarrow> wait_for_work (h_mb h) = None \<Longrightarrow>
    prog_step stops h (h\<lparr>h_lock := None, h_cv := insert Worker (h_cv h), h_wrk := TSleep\<rparr>)"
| t_wake: "h_wrk h = TSleep \<Longrightarrow> Worker \<notin> h_cv h \<Longrightarrow> h_lock h = None \<Longrightarrow>
    prog_step stops h (h\<lparr>h_lock := Some Worker, h_wrk := TTest\<rparr>)"
| t_take: "h_wrk h = TTest \<Longrightarrow> wait_for_work (h_mb h) = Some (w, mb) \<Longrightarrow>
    prog_step stops h (h\<lparr>h_mb := mb, h_item := w, h_wrk := TUnlock\<rparr>)"
| t_unlock: "h_wrk h = TUnlock \<Longrightarrow>
    prog_step stops h (h\<lparr>h_lock := None, h_wrk := Exec\<rparr>)"
| exec: "h_wrk h = Exec \<Longrightarrow> h_item h = Some w \<Longrightarrow>
    prog_step stops h (h\<lparr>h_run := (h_run h \<and> \<not> stops w), h_wrk := RLock\<rparr>)"
| r_lock: "h_wrk h = RLock \<Longrightarrow> h_lock h = None \<Longrightarrow>
    prog_step stops h (h\<lparr>h_lock := Some Worker, h_wrk := RBody\<rparr>)"
| r_body: "h_wrk h = RBody \<Longrightarrow> return_finished_work (h_item h) (h_mb h) = Inr mb \<Longrightarrow>
    prog_step stops h (h\<lparr>h_mb := mb, h_wrk := RSignal\<rparr>)"
| r_fail: "h_wrk h = RBody \<Longrightarrow> return_finished_work (h_item h) (h_mb h) = Inl e \<Longrightarrow>
    prog_step stops h (h\<lparr>h_failed := True, h_wrk := WEnd\<rparr>)"
| r_signal: "h_wrk h = RSignal \<Longrightarrow> X \<subseteq> h_cv h \<Longrightarrow> (X = {} \<Longrightarrow> h_cv h = {}) \<Longrightarrow>
    prog_step stops h (h\<lparr>h_cv := h_cv h - X, h_wrk := RUnlock\<rparr>)"
| r_unlock: "h_wrk h = RUnlock \<Longrightarrow>
    prog_step stops h (h\<lparr>h_lock := None, h_wrk := (if h_run h then TLock else WEnd)\<rparr>)"

text \<open>All steps: those of the program, and spurious wake-ups.\<close>

inductive handover_step :: "('w \<Rightarrow> bool) \<Rightarrow> 'w handover \<Rightarrow> 'w handover \<Rightarrow> bool" for stops where
  prog: "prog_step stops h h' \<Longrightarrow> handover_step stops h h'"
| spurious: "r \<in> h_cv h \<Longrightarrow> handover_step stops h (h\<lparr>h_cv := h_cv h - {r}\<rparr>)"

section \<open>The invariant\<close>

text \<open>The mutex is held exactly between lock and unlock, so by one thread at a time.\<close>

definition mutex_ok :: "'w handover \<Rightarrow> bool" where
  "mutex_ok h \<longleftrightarrow>
     (h_lock h = Some Main \<longleftrightarrow> h_main h \<in> {QBody, QSignal, QUnlock, WTest, WUnlock}) \<and>
     (h_lock h = Some Worker \<longleftrightarrow> h_wrk h \<in> {TAssert, TTest, TUnlock, RBody, RSignal, RUnlock})"

text \<open>
  A thread is blocked on \<open>cv\<close> only inside \<open>pthread_cond_wait\<close>, and once the condition
  it waits for has come true it stays blocked no longer than until the other thread's signal:
  no wake-up is lost.
\<close>

definition cv_ok :: "'w handover \<Rightarrow> bool" where
  "cv_ok h \<longleftrightarrow>
     (Main \<in> h_cv h \<longrightarrow> h_main h = WSleep) \<and>
     (Worker \<in> h_cv h \<longrightarrow> h_wrk h = TSleep) \<and>
     (Worker \<in> h_cv h \<longrightarrow> mb_s (h_mb h) = QUEUED \<longrightarrow> h_main h = QSignal) \<and>
     (Main \<in> h_cv h \<longrightarrow> mb_s (h_mb h) = DONE \<longrightarrow> h_wrk h = RSignal)"

text \<open>The mailbox state fixes where the two threads can be.\<close>

definition phase_ok :: "'w handover \<Rightarrow> bool" where
  "phase_ok h \<longleftrightarrow> \<not> h_failed h \<and>
     (case mb_s (h_mb h) of
        IDLE \<Rightarrow> mb_work (h_mb h) = None \<and> h_main h \<in> {QLock, QBody, WUnlock, MEnd} \<and>
          h_wrk h \<in> {TLock, TAssert, TTest, TSleep, WEnd}
      | QUEUED \<Rightarrow> mb_work (h_mb h) \<noteq> None \<and> h_main h \<in> {QSignal, QUnlock, WLock, WTest, WSleep} \<and>
          h_wrk h \<in> {TLock, TAssert, TTest, TSleep}
      | WORKING \<Rightarrow> mb_work (h_mb h) = None \<and> h_main h \<in> {WLock, WTest, WSleep} \<and>
          h_wrk h \<in> {TUnlock, Exec, RLock, RBody} \<and> h_item h \<noteq> None
      | DONE \<Rightarrow> mb_work (h_mb h) \<noteq> None \<and> h_main h \<in> {WLock, WTest, WSleep} \<and>
          h_wrk h \<in> {RSignal, RUnlock, TLock, TAssert, TTest, TSleep, WEnd})"

text \<open>The item that is on its way: in the mailbox or in the worker's hands.\<close>

definition in_flight :: "'w handover \<Rightarrow> 'w option list" where
  "in_flight h =
     (case mb_s (h_mb h) of IDLE \<Rightarrow> [] | WORKING \<Rightarrow> [h_item h] | _ \<Rightarrow> [mb_work (h_mb h)])"

definition order_ok :: "'w list \<Rightarrow> 'w handover \<Rightarrow> bool" where
  "order_ok ws h \<longleftrightarrow> h_got h @ in_flight h @ map Some (h_todo h) = map Some ws \<and>
     (h_main h \<in> {QLock, QBody} \<longrightarrow> h_todo h \<noteq> []) \<and> (h_main h = MEnd \<longrightarrow> h_todo h = [])"

text \<open>The flag \<open>run\<close> is 0 exactly when an item that stops the worker has been executed.\<close>

definition executed :: "'w handover \<Rightarrow> 'w option list" where
  "executed h = h_got h @
     (if mb_s (h_mb h) = DONE then [mb_work (h_mb h)]
      else if mb_s (h_mb h) = WORKING \<and> h_wrk h \<in> {RLock, RBody} then [h_item h] else [])"

definition run_iff :: "('w \<Rightarrow> bool) \<Rightarrow> 'w handover \<Rightarrow> bool" where
  "run_iff stops h \<longleftrightarrow> (h_run h \<longleftrightarrow> (\<forall>w. Some w \<in> set (executed h) \<longrightarrow> \<not> stops w))"

definition stopped_ok :: "'w handover \<Rightarrow> bool" where
  "stopped_ok h \<longleftrightarrow> (h_wrk h = WEnd \<longrightarrow> \<not> h_run h) \<and>
     (\<not> h_run h \<longrightarrow> h_wrk h \<in> {RLock, RBody, RSignal, RUnlock, WEnd} \<and> h_todo h = [])"

definition stop_last :: "('w \<Rightarrow> bool) \<Rightarrow> 'w list \<Rightarrow> bool" where
  "stop_last stops ws \<longleftrightarrow> (\<forall>w\<in>set (butlast ws). \<not> stops w)"

definition handover_inv :: "('w \<Rightarrow> bool) \<Rightarrow> 'w list \<Rightarrow> 'w handover \<Rightarrow> bool" where
  "handover_inv stops ws h \<longleftrightarrow> stop_last stops ws \<and>
     mutex_ok h \<and> cv_ok h \<and> phase_ok h \<and> order_ok ws h \<and>
     run_iff stops h \<and> stopped_ok h"

lemma handover_start_inv: "handover_start ws h \<Longrightarrow> stop_last stops ws \<Longrightarrow> handover_inv stops ws h"
  by (auto simp: handover_start_def handover_inv_def mutex_ok_def cv_ok_def phase_ok_def
      order_ok_def in_flight_def run_iff_def stopped_ok_def executed_def)

lemma prog_step_mutex: "prog_step stops h h' \<Longrightarrow> phase_ok h \<Longrightarrow> mutex_ok h \<Longrightarrow> mutex_ok h'"
  by (induction rule: prog_step.induct)
    (auto simp: mutex_ok_def phase_ok_def mailbox_defs split: if_splits state.splits)

text \<open>Only one of the two threads is ever blocked when a signal is sent, so it is the one woken.\<close>

lemma signal_wakes:
  assumes "X \<subseteq> C" and "X = {} \<Longrightarrow> C = {}"
  shows "Main \<notin> C \<Longrightarrow> Worker \<notin> C - X" and "Worker \<notin> C \<Longrightarrow> Main \<notin> C - X"
proof -
  have "q = Main \<or> q = Worker" for q by (cases q) simp_all
  with assms show "Main \<notin> C \<Longrightarrow> Worker \<notin> C - X" and "Worker \<notin> C \<Longrightarrow> Main \<notin> C - X"
    by (metis DiffD1 DiffD2 all_not_in_conv subsetD)+
qed

lemma prog_step_cv:
  assumes "prog_step stops h h'" and "phase_ok h" and "mutex_ok h" and "cv_ok h"
  shows "cv_ok h'"
  using assms
proof (induction rule: prog_step.induct)
  case (q_signal h X)
  then have "Main \<notin> h_cv h" by (auto simp: cv_ok_def)
  with signal_wakes(1) [OF q_signal(2,3)] have "Worker \<notin> h_cv h - X" by blast
  with q_signal \<open>Main \<notin> h_cv h\<close> show ?case by (auto simp: cv_ok_def)
next
  case (r_signal h X)
  then have "Worker \<notin> h_cv h" by (auto simp: cv_ok_def)
  with signal_wakes(2) [OF r_signal(2,3)] have "Main \<notin> h_cv h - X" by blast
  with r_signal \<open>Worker \<notin> h_cv h\<close> show ?case by (auto simp: cv_ok_def)
qed (auto simp: mutex_ok_def cv_ok_def phase_ok_def mailbox_defs split: if_splits state.splits)

lemma prog_step_phase:
  "prog_step stops h h' \<Longrightarrow> phase_ok h \<Longrightarrow> mutex_ok h \<Longrightarrow> stopped_ok h \<Longrightarrow> phase_ok h'"
  by (induction rule: prog_step.induct)
    (auto simp: mutex_ok_def phase_ok_def stopped_ok_def mailbox_defs split: if_splits state.splits)

lemma prog_step_order:
  "prog_step stops h h' \<Longrightarrow> phase_ok h \<Longrightarrow> order_ok ws h \<Longrightarrow> order_ok ws h'"
  by (induction rule: prog_step.induct)
    (auto simp: order_ok_def in_flight_def phase_ok_def mailbox_defs split: if_splits state.splits)

text \<open>An item that stops the worker is the last one, so nothing is left when it is executed.\<close>

lemma stop_last_tail:
  assumes "stop_last stops ws" and "gs @ [Some w] @ map Some ts = map Some ws" and "stops w"
  shows "ts = []"
proof (rule ccontr)
  assume "ts \<noteq> []"
  obtain xs where ws: "ws = xs @ w # ts"
  proof -
    from assms(2) obtain xs ys where "ws = xs @ ys" "map Some xs = gs" "map Some ys = [Some w] @ map Some ts"
      by (metis map_eq_append_conv)
    moreover from this(3) have "ys = w # ts" by (cases ys) (auto simp: inj_map_eq_map)
    ultimately show thesis using that by blast
  qed
  with \<open>ts \<noteq> []\<close> have "w \<in> set (butlast ws)" by (simp add: butlast_append)
  with assms(1,3) show False by (auto simp: stop_last_def)
qed

lemma prog_step_executed:
  "prog_step stops h h' \<Longrightarrow> phase_ok h \<Longrightarrow> h_wrk h = Exec \<longrightarrow> h_wrk h' = Exec \<Longrightarrow>
     executed h' = executed h \<and> h_run h' = h_run h"
  by (induction rule: prog_step.induct)
    (auto simp: executed_def phase_ok_def mailbox_defs split: if_splits state.splits)

lemma prog_step_stopped:
  assumes "prog_step stops h h'" and "phase_ok h" and "stopped_ok h"
    and "h_wrk h = Exec \<longrightarrow> h_wrk h' = Exec"
  shows "stopped_ok h'"
  using assms
  by (induction rule: prog_step.induct)
    (auto simp: phase_ok_def stopped_ok_def mailbox_defs split: if_splits state.splits)

lemma exec_run_ok:
  assumes "handover_inv stops ws h" and "h_wrk h = Exec" and "h_item h = Some w"
    and h': "h' = h\<lparr>h_run := (h_run h \<and> \<not> stops w), h_wrk := RLock\<rparr>"
  shows "run_iff stops h'" and "stopped_ok h'"
proof -
  from assms(1) have "stop_last stops ws" and r: "run_iff stops h" and s: "stopped_ok h"
    and "order_ok ws h" and "phase_ok h"
    by (simp_all add: handover_inv_def)
  from \<open>phase_ok h\<close> assms(2) have W: "mb_s (h_mb h) = WORKING"
    by (auto simp: phase_ok_def split: state.splits)
  with \<open>order_ok ws h\<close> assms(3) have "h_got h @ [Some w] @ map Some (h_todo h) = map Some ws"
    by (simp add: order_ok_def in_flight_def)
  note tail = stop_last_tail [OF \<open>stop_last stops ws\<close> this]
  show "stopped_ok h'" using s assms(2) tail by (auto simp: h' stopped_ok_def)
  have "executed h' = executed h @ [Some w]"
    using W assms(2,3) by (simp add: h' executed_def)
  with r show "run_iff stops h'" by (auto simp: h' run_iff_def)
qed

lemma prog_step_run:
  assumes "prog_step stops h h'" and "handover_inv stops ws h"
  shows "run_iff stops h' \<and> stopped_ok h'"
proof (cases "h_wrk h = Exec \<longrightarrow> h_wrk h' = Exec")
  case True
  with assms show ?thesis
    using prog_step_executed [OF assms(1) _ True] prog_step_stopped [OF assms(1) _ _ True]
    by (simp add: handover_inv_def run_iff_def)
next
  case False
  with assms(1) obtain w where "h_item h = Some w"
    and "h' = h\<lparr>h_run := (h_run h \<and> \<not> stops w), h_wrk := RLock\<rparr>"
    by (cases rule: prog_step.cases) auto
  with False assms(2) show ?thesis by (simp add: exec_run_ok)
qed

lemma prog_step_inv:
  assumes "handover_inv stops ws h" and "prog_step stops h h'"
  shows "handover_inv stops ws h'"
proof -
  from assms(1) have "mutex_ok h" "cv_ok h" "phase_ok h" "order_ok ws h" "stopped_ok h" "stop_last stops ws"
    by (simp_all add: handover_inv_def)
  with assms(2) show ?thesis
    using prog_step_run [OF assms(2,1)] prog_step_mutex [OF assms(2)] prog_step_cv [OF assms(2)]
      prog_step_phase [OF assms(2)] prog_step_order [OF assms(2)]
    by (simp add: handover_inv_def)
qed

lemma executed_cv [simp]: "executed (h\<lparr>h_cv := C\<rparr>) = executed h"
  by (simp add: executed_def)

lemma in_flight_cv [simp]: "in_flight (h\<lparr>h_cv := C\<rparr>) = in_flight h"
  by (simp add: in_flight_def cong: state.case_cong)

lemma spurious_inv: "handover_inv stops ws h \<Longrightarrow> handover_inv stops ws (h\<lparr>h_cv := h_cv h - {r}\<rparr>)"
  unfolding handover_inv_def
  by (intro conjI; elim conjE)
    (simp_all add: mutex_ok_def cv_ok_def phase_ok_def order_ok_def run_iff_def stopped_ok_def
      cong: state.case_cong)

lemma handover_step_inv:
  "handover_inv stops ws h \<Longrightarrow> handover_step stops h h' \<Longrightarrow> handover_inv stops ws h'"
  by (auto elim!: handover_step.cases intro: prog_step_inv spurious_inv)

section \<open>Progress\<close>

text \<open>
  The run is over when the main thread has its items back and the worker has left its run
  loop or sleeps until the next item.
\<close>

definition handover_final :: "'w handover \<Rightarrow> bool" where
  "handover_final h \<longleftrightarrow> h_main h = MEnd \<and>
     (h_wrk h = WEnd \<or> h_wrk h = TSleep \<and> Worker \<in> h_cv h)"

text \<open>
  The measure: an item still to be queued weighs 1000 and one in the mailbox 300; the rest
  counts the calls a thread has ahead of it before it sleeps or ends. A thread that a signal
  has just woken has a few more, which the thread that signals pays for.
\<close>

fun main_rank :: "main_pc \<Rightarrow> nat" where
  "main_rank QSignal = 80" | "main_rank QUnlock = 50" | "main_rank WLock = 40"
| "main_rank WTest = 30" | "main_rank WSleep = 20" | "main_rank WUnlock = 15"
| "main_rank QLock = 10" | "main_rank QBody = 5" | "main_rank MEnd = 0"

fun worker_rank :: "worker_pc \<Rightarrow> nat" where
  "worker_rank TUnlock = 200" | "worker_rank Exec = 190" | "worker_rank RLock = 180"
| "worker_rank RBody = 170" | "worker_rank RSignal = 160" | "worker_rank RUnlock = 60"
| "worker_rank TLock = 40" | "worker_rank TAssert = 30" | "worker_rank TTest = 25"
| "worker_rank TSleep = 5" | "worker_rank WEnd = 0"

definition handover_fuel :: "'w handover \<Rightarrow> nat" where
  "handover_fuel h = 1000 * length (h_todo h) + (if mb_s (h_mb h) = QUEUED then 300 else 0) +
     main_rank (h_main h) + worker_rank (h_wrk h) +
     (if h_main h = WSleep \<and> Main \<notin> h_cv h then 15 else 0) +
     (if h_wrk h = TSleep \<and> Worker \<notin> h_cv h then 22 else 0)"

lemma prog_step_fuel:
  assumes "prog_step stops h h'" and "phase_ok h" and "mutex_ok h"
  shows "handover_fuel h' < handover_fuel h"
  using assms
  by (induction rule: prog_step.induct)
    (auto simp: handover_fuel_def phase_ok_def mailbox_defs split: if_splits state.splits)

lemma handover_fuel:
  "handover_inv stops ws h \<Longrightarrow> prog_step stops h h' \<Longrightarrow> handover_fuel h' < handover_fuel h"
  by (simp add: handover_inv_def prog_step_fuel)

lemma main_enabled:
  assumes "h_main h \<in> {QBody, QSignal, QUnlock, WTest, WUnlock}"
    and "h_main h = QBody \<Longrightarrow> h_todo h \<noteq> []"
  shows "\<exists>h'. prog_step stops h h'"
proof (cases "h_main h")
  case QBody
  with assms(2) obtain w ts where "h_todo h = w # ts" by (cases "h_todo h") auto
  with QBody show ?thesis
    by (cases "queue_work w (h_mb h)") (blast intro: q_body q_fail)+
next
  case QSignal
  then show ?thesis by (blast intro: q_signal [where X = "h_cv h"])
next
  case WTest
  then show ?thesis
    by (cases "wait_until_done (h_mb h)") (auto intro: w_sleep w_take)
qed (use assms(1) in \<open>auto intro: q_unlock w_unlock\<close>)

lemma worker_enabled:
  assumes "h_wrk h \<in> {TAssert, TTest, TUnlock, RBody, RSignal, RUnlock}"
  shows "\<exists>h'. prog_step stops h h'"
proof (cases "h_wrk h")
  case TAssert
  then show ?thesis
    by (cases "wait_for_work_enter (h_mb h)") (blast intro: t_assert t_fail)+
next
  case TTest
  then show ?thesis
    by (cases "wait_for_work (h_mb h)") (auto intro: t_sleep t_take)
next
  case RBody
  then show ?thesis
    by (cases "return_finished_work (h_item h) (h_mb h)") (blast intro: r_body r_fail)+
next
  case RSignal
  then show ?thesis by (blast intro: r_signal [where X = "h_cv h"])
qed (use assms in \<open>auto intro: t_unlock r_unlock\<close>)

lemma prog_step_exists:
  assumes "handover_inv stops ws h" and "\<not> handover_final h"
  shows "\<exists>h'. prog_step stops h h'"
proof -
  from assms(1) have m: "mutex_ok h" and c: "cv_ok h" and p: "phase_ok h" and o: "order_ok ws h"
    by (simp_all add: handover_inv_def)
  consider "h_lock h = Some Main" | "h_lock h = Some Worker" | "h_lock h = None"
    by (cases "h_lock h"; cases "the (h_lock h)") auto
  then show ?thesis
  proof cases
    case 1
    with m o show ?thesis
      by (intro main_enabled) (simp_all add: mutex_ok_def order_ok_def)
  next
    case 2
    with m show ?thesis
      by (intro worker_enabled) (simp add: mutex_ok_def)
  next
    case 3
    have item: "h_wrk h = Exec \<Longrightarrow> \<exists>w. h_item h = Some w"
      using p by (auto simp: phase_ok_def split: state.splits)
    consider "h_main h \<in> {QLock, WLock}" | "h_main h = WSleep" "Main \<notin> h_cv h"
      | "h_wrk h \<in> {TLock, RLock, Exec}" | "h_wrk h = TSleep" "Worker \<notin> h_cv h"
      using 3 m c p assms(2)
      by (auto simp: mutex_ok_def cv_ok_def phase_ok_def handover_final_def split: state.splits)
    then show ?thesis
      using 3 item by cases (blast intro: prog_step.intros)+
  qed
qed

interpretation handover: progress_system
  "\<lambda>h. handover_start ws h \<and> stop_last stops ws" "handover_step stops" "handover_inv stops ws"
  "prog_step stops" handover_final handover_fuel for stops ws
  by unfold_locales
    (blast intro: handover_start_inv handover_step_inv handover_step.prog handover_fuel
      prog_step_exists)+

section \<open>The exchange that the mailbox implements\<close>

text \<open>
  Seen from outside, the protocol exchanges items one at a time: the main thread submits an
  item when none is on its way, the worker executes it, and the main thread collects it.
\<close>

record 'w exchange =
  x_todo :: "'w list"
  x_flight :: "('w \<times> bool) option"  \<comment> \<open>the item on its way, and whether it has been executed\<close>
  x_got :: "'w list"

inductive exchange_step :: "'w exchange \<Rightarrow> 'w exchange \<Rightarrow> bool" where
  submit: "x_todo x = w # ws \<Longrightarrow> x_flight x = None \<Longrightarrow>
    exchange_step x (x\<lparr>x_todo := ws, x_flight := Some (w, False)\<rparr>)"
| execute: "x_flight x = Some (w, False) \<Longrightarrow>
    exchange_step x (x\<lparr>x_flight := Some (w, True)\<rparr>)"
| collect: "x_flight x = Some (w, True) \<Longrightarrow>
    exchange_step x (x\<lparr>x_flight := None, x_got := x_got x @ [w]\<rparr>)"

definition exchange_start :: "'w list \<Rightarrow> 'w exchange \<Rightarrow> bool" where
  "exchange_start ws x \<longleftrightarrow> x = \<lparr>x_todo = ws, x_flight = None, x_got = []\<rparr>"

definition exchange_of :: "'w handover \<Rightarrow> 'w exchange" where
  "exchange_of h = \<lparr>x_todo = h_todo h,
     x_flight =
       (case mb_s (h_mb h) of
          IDLE \<Rightarrow> None
        | QUEUED \<Rightarrow> Some (the (mb_work (h_mb h)), False)
        | WORKING \<Rightarrow> Some (the (h_item h), h_wrk h \<in> {RLock, RBody})
        | DONE \<Rightarrow> Some (the (mb_work (h_mb h)), True)),
     x_got = map the (h_got h)\<rparr>"

lemma exchange_step_iff:
  "exchange_step x y \<longleftrightarrow>
     (\<exists>w ws. x_todo x = w # ws \<and> x_flight x = None \<and>
        y = x\<lparr>x_todo := ws, x_flight := Some (w, False)\<rparr>) \<or>
     (\<exists>w. x_flight x = Some (w, False) \<and> y = x\<lparr>x_flight := Some (w, True)\<rparr>) \<or>
     (\<exists>w. x_flight x = Some (w, True) \<and> y = x\<lparr>x_flight := None, x_got := x_got x @ [w]\<rparr>)"
  by (auto elim: exchange_step.cases intro: exchange_step.intros)

lemma prog_step_exchange:
  assumes "prog_step stops h h'" and "phase_ok h"
  shows "exchange_of h' = exchange_of h \<or> exchange_step (exchange_of h) (exchange_of h')"
  using assms
  by (induction rule: prog_step.induct)
    (auto simp: exchange_of_def exchange_step_iff phase_ok_def mailbox_defs
      split: if_splits state.splits)

lemma exchange_of_cv: "exchange_of (h\<lparr>h_cv := C\<rparr>) = exchange_of h"
  by (simp add: exchange_of_def cong: state.case_cong)

interpretation handover_sim: simulation
  "\<lambda>h. handover_start ws h \<and> stop_last stops ws" "handover_step stops" "handover_inv stops ws"
  exchange_of "exchange_start ws" exchange_step for stops ws
proof unfold_locales
  fix h h' :: "'a handover"
  show "exchange_start ws (exchange_of h)" if "handover_start ws h \<and> stop_last stops ws"
    using that by (simp add: exchange_start_def exchange_of_def handover_start_def)
  show "exchange_of h' = exchange_of h \<or> exchange_step (exchange_of h) (exchange_of h')"
    if "handover_inv stops ws h" and "handover_step stops h h'"
    using that(2,1) by cases (auto simp: handover_inv_def exchange_of_cv dest: prog_step_exchange)
qed

section \<open>What the protocol guarantees\<close>

lemma handover_reach:
  "stop_last stops ws \<Longrightarrow> reach (handover_start ws) (handover_step stops) h \<Longrightarrow>
     reach (\<lambda>h. handover_start ws h \<and> stop_last stops ws) (handover_step stops) h"
  by simp

lemma handover_reach_inv:
  "stop_last stops ws \<Longrightarrow> reach (handover_start ws) (handover_step stops) h \<Longrightarrow>
     handover_inv stops ws h"
  using handover.reach_inv handover_reach by blast

lemma handover_final_result:
  assumes "handover_inv stops ws h" and "handover_final h"
  shows "h_got h = map Some ws" and "ws \<noteq> [] \<Longrightarrow> stops (last ws) \<Longrightarrow> h_wrk h = WEnd"
proof -
  from assms have m: "h_main h = MEnd" and o: "order_ok ws h" and p: "phase_ok h"
    and r: "run_iff stops h" and s: "stopped_ok h"
    by (simp_all add: handover_inv_def handover_final_def)
  from p m have i: "mb_s (h_mb h) = IDLE" by (auto simp: phase_ok_def split: state.splits)
  with o m show g: "h_got h = map Some ws" by (auto simp: order_ok_def in_flight_def)
  assume "ws \<noteq> []" and "stops (last ws)"
  with r i g have "\<not> h_run h" by (auto simp: run_iff_def executed_def)
  with s assms(2) show "h_wrk h = WEnd" by (auto simp: stopped_ok_def handover_final_def)
qed

text \<open>C29. no assertion of the hand-over ever fails and the mutex excludes: in every reachable
  state of the two threads, for every schedule, every choice of the thread a signal wakes and
  every spurious wake-up, \<open>queue_work\<close>, \<open>wait_for_work\<close> and
  \<open>return_finished_work\<close> find the mailbox in the state they assert, and the two threads are
  never both between lock and unlock.\<close>

theorem mailbox_safe:
  assumes "stop_last stops ws" and "reach (handover_start ws) (handover_step stops) h"
  shows "\<not> h_failed h \<and>
    \<not> (h_main h \<in> {QBody, QSignal, QUnlock, WTest, WUnlock} \<and>
       h_wrk h \<in> {TAssert, TTest, TUnlock, RBody, RSignal, RUnlock})"
proof -
  from handover_reach_inv [OF assms] have "mutex_ok h" and "phase_ok h"
    by (simp_all add: handover_inv_def)
  then show ?thesis
    unfolding mutex_ok_def phase_ok_def by (metis option.inject role.distinct(1))
qed

text \<open>C30. items come back in the order they were queued, each once: what
  \<open>wait_until_done\<close> has returned so far is at every moment a prefix of the items given to
  \<open>queue_work\<close>, and all of them once the main thread is through.\<close>

theorem mailbox_in_order:
  assumes "stop_last stops ws" and "reach (handover_start ws) (handover_step stops) h"
  shows "(\<exists>rest. map Some ws = h_got h @ rest) \<and>
    (h_main h = MEnd \<longrightarrow> h_got h = map Some ws)"
proof -
  from handover_reach_inv [OF assms] have o: "order_ok ws h" and p: "phase_ok h"
    by (simp_all add: handover_inv_def)
  then have "h_main h = MEnd \<Longrightarrow> h_got h = map Some ws"
    by (auto simp: order_ok_def in_flight_def phase_ok_def split: state.splits)
  with o show ?thesis by (metis order_ok_def)
qed

text \<open>C31. no wake-up is lost and nothing deadlocks: from every reachable state, without the
  help of any spurious wake-up, the program can run on to a state in which the main thread has
  got back all its items; a worker whose last item was the stop item has left its run loop, so
  that \<open>pthread_join\<close> returns. And no run is infinite: whatever the schedule, the program's
  own steps lead there.\<close>

theorem mailbox_completes:
  assumes "stop_last stops ws" and "reach (handover_start ws) (handover_step stops) h"
  shows "(\<exists>h'. (prog_step stops)\<^sup>*\<^sup>* h h' \<and> h_main h' = MEnd \<and> h_got h' = map Some ws \<and>
      (ws \<noteq> [] \<and> stops (last ws) \<longrightarrow> h_wrk h' = WEnd)) \<and>
    \<not> (\<exists>f. f 0 = h \<and> (\<forall>i. prog_step stops (f i) (f (Suc i))))"
proof -
  have inv: "handover_inv stops ws h" by (rule handover_reach_inv [OF assms])
  obtain h' where h': "(prog_step stops)\<^sup>*\<^sup>* h h'" "handover_final h'"
    using handover.reaches_final [OF inv] by blast
  with inv have "handover_inv stops ws h'" by (blast intro: handover.works_inv)
  from handover_final_result [OF this h'(2)] h'
  have "\<exists>h'. (prog_step stops)\<^sup>*\<^sup>* h h' \<and> h_main h' = MEnd \<and> h_got h' = map Some ws \<and>
      (ws \<noteq> [] \<and> stops (last ws) \<longrightarrow> h_wrk h' = WEnd)"
    by (intro exI [of _ h']) (simp add: handover_final_def)
  moreover have "\<not> (\<exists>f. f 0 = h \<and> (\<forall>i. prog_step stops (f i) (f (Suc i))))"
    using handover.no_infinite_run inv by metis
  ultimately show ?thesis ..
qed

text \<open>C32. the mailbox implements the one-place exchange: every reachable state of the two
  threads, read as an exchange, is reached by submitting one item at a time, executing it once,
  and collecting it after it has been executed.\<close>

theorem mailbox_refines_exchange:
  assumes "stop_last stops ws" and "reach (handover_start ws) (handover_step stops) h"
  shows "reach (exchange_start ws) exchange_step (exchange_of h)"
  using handover_sim.reach_simulated [OF handover_reach [OF assms]] .

section \<open>Witnesses\<close>

text \<open>Two benchmark items and the item that stops the worker.\<close>

definition demo_items :: "nat list" where
  "demo_items = [1, 2, 0]"

lemma demo_items_ok: "stop_last (\<lambda>w. w = 0) demo_items"
  by (simp add: stop_last_def demo_items_def)

lemma demo_start:
  "\<exists>h. reach (handover_start demo_items) (handover_step (\<lambda>w. w = 0)) h \<and> h_main h = QBody"
  by (intro exI conjI, rule reach_step [OF reach_init [where init = "handover_start demo_items"]],
      rule iffD2 [OF handover_start_def refl], rule handover_step.prog, rule q_lock)
    (simp_all add: demo_items_def)

lemma demo_end:
  "\<exists>h. reach (handover_start demo_items) (handover_step (\<lambda>w. w = 0)) h \<and> handover_final h"
proof -
  obtain h where h: "reach (handover_start demo_items) (handover_step (\<lambda>w. w = 0)) h"
    using demo_start by blast
  then obtain h' where s: "(prog_step (\<lambda>w. w = 0))\<^sup>*\<^sup>* h h'" and "handover_final h'"
    using handover.reaches_final handover_reach_inv demo_items_ok by blast
  moreover from s h have "reach (handover_start demo_items) (handover_step (\<lambda>w. w = 0)) h'"
    by (induction rule: rtranclp_induct) (blast intro: reach_step handover_step.prog)+
  ultimately show ?thesis by blast
qed

theorem mailbox_safe_witness:
  "\<exists>h. reach (handover_start demo_items) (handover_step (\<lambda>w. w = 0)) h \<and> h_main h = QBody \<and>
     \<not> h_failed h \<and> h_wrk h \<noteq> TTest"
  using demo_start mailbox_safe [OF demo_items_ok] by force

theorem mailbox_in_order_witness:
  "\<exists>h. reach (handover_start demo_items) (handover_step (\<lambda>w. w = 0)) h \<and> h_main h = MEnd \<and>
     h_got h = [Some 1, Some 2, Some 0]"
  using demo_end mailbox_in_order [OF demo_items_ok]
  by (force simp: handover_final_def demo_items_def)

theorem mailbox_completes_witness:
  "\<exists>h :: nat handover. h_got h = [Some 1, Some 2, Some 0] \<and> h_wrk h = WEnd"
proof -
  obtain h where "reach (handover_start demo_items) (handover_step (\<lambda>w. w = 0)) h"
    using demo_start by blast
  from mailbox_completes [OF demo_items_ok this] show ?thesis
    by (auto simp: demo_items_def)
qed

theorem mailbox_refines_exchange_witness:
  "\<exists>h. h_main h = QBody \<and> reach (exchange_start demo_items) exchange_step (exchange_of h)"
  using demo_start mailbox_refines_exchange [OF demo_items_ok] by blast

end
