(* ===== verification/Barrier.thy ===== *)
theory Barrier
  imports Prelude
begin

text \<open>
  The barrier of \<open>src/barrier.c\<close>, which stands in for \<open>pthread_barrier_t\<close> on platforms
  without one: the initialisation with its error paths, the critical section of
  \<open>pthread_barrier_wait\<close>, and any number of threads that wait at the barrier again and
  again, at the granularity of the pthread calls (mutex and condition variable as in POSIX, with
  spurious wake-ups).
\<close>

section \<open>The barrier object\<close>

record pbarrier =
  limit :: u32
  count :: u32
  phase :: u64

definition EINVAL :: int where "EINVAL = 22"

text \<open>
  \<open>mrc\<close> and \<open>crc\<close> are the results of \<open>pthread_mutex_init\<close> and
  \<open>pthread_cond_init\<close>. The result is the return value, the new \<open>errno\<close> if it is set, and
  the object if it was initialised.
\<close>

definition pthread_barrier_init :: "u32 \<Rightarrow> int \<Rightarrow> int \<Rightarrow> int \<times> int option \<times> pbarrier option" where
  "pthread_barrier_init cnt mrc crc =
     (if cnt = 0 then (-1, Some EINVAL, None)
      else if mrc < 0 then (-1, None, None)
      else if crc < 0 then (-1, None, None)
      else (0, None, Some \<lparr>limit = cnt, count = 0, phase = 0\<rparr>))"

definition PTHREAD_BARRIER_SERIAL_THREAD :: int where
  "PTHREAD_BARRIER_SERIAL_THREAD = 1"

text \<open>
  What \<open>pthread_barrier_wait\<close> does between its lock and its first other pthread call; the
  flag says whether the caller was the last to arrive.
\<close>

definition barrier_arrive :: "pbarrier \<Rightarrow> bool \<times> pbarrier" where
  "barrier_arrive b =
     (let b1 = b\<lparr>count := count b + 1\<rparr> in
      if limit b1 \<le> count b1 then (True, b1\<lparr>phase := phase b1 + 1, count := 0\<rparr>)
      else (False, b1))"

section \<open>Threads at the barrier\<close>

text \<open>
  Where a thread is: outside; at the critical section; at the broadcast and at the unlock of the
  last to arrive; at the call of \<open>pthread_cond_wait\<close>, inside it, and at the loop test, each
  with the local variable \<open>phase\<close>; at the unlock of a thread let through.
\<close>

datatype bpc = BOut | BIn | BCast | BUnlock | BWait u64 | BSleep u64 | BTest u64 | BLeave

record bsys =
  b_obj :: pbarrier
  b_lock :: "nat option"
  b_cv :: "nat set"
  b_pc :: "nat \<Rightarrow> bpc"
  b_arrived :: "nat \<Rightarrow> nat"       \<comment> \<open>arrivals counted for the thread so far\<close>
  b_left :: "nat \<Rightarrow> int list"     \<comment> \<open>results of its calls, in order\<close>
  b_phases :: nat                   \<comment> \<open>phases completed so far\<close>

definition barrier_start :: "nat \<Rightarrow> bsys \<Rightarrow> bool" where
  "barrier_start n s \<longleftrightarrow>
     (\<exists>b. pthread_barrier_init (of_nat n) 0 0 = (0, None, Some b) \<and>
       s = \<lparr>b_obj = b, b_lock = None, b_cv = {}, b_pc = (\<lambda>_. BOut), b_arrived = (\<lambda>_. 0),
            b_left = (\<lambda>_. []), b_phases = 0\<rparr>)"

text \<open>The \<open>n\<close> threads each call \<open>pthread_barrier_wait\<close> \<open>k\<close> times.\<close>

inductive barrier_prog :: "nat \<Rightarrow> nat \<Rightarrow> bsys \<Rightarrow> bsys \<Rightarrow> bool" for n k where
  b_lock: "t < n \<Longrightarrow> b_pc s t = BOut \<Longrightarrow> length (b_left s t) < k \<Longrightarrow> b_lock s = None \<Longrightarrow>
    barrier_prog n k s (s\<lparr>b_lock := Some t, b_pc := (b_pc s)(t := BIn)\<rparr>)"
| b_last: "t < n \<Longrightarrow> b_pc s t = BIn \<Longrightarrow> barrier_arrive (b_obj s) = (True, b) \<Longrightarrow>
    barrier_prog n k s (s\<lparr>b_obj := b, b_pc := (b_pc s)(t := BCast),
      b_arrived := (b_arrived s)(t := Suc (b_arrived s t)), b_phases := Suc (b_phases s)\<rparr>)"
| b_early: "t < n \<Longrightarrow> b_pc s t = BIn \<Longrightarrow> barrier_arrive (b_obj s) = (False, b) \<Longrightarrow>
    barrier_prog n k s (s\<lparr>b_obj := b, b_pc := (b_pc s)(t := BWait (phase b)),
      b_arrived := (b_arrived s)(t := Suc (b_arrived s t))\<rparr>)"
| b_broadcast: "t < n \<Longrightarrow> b_pc s t = BCast \<Longrightarrow>
    barrier_prog n k s (s\<lparr>b_cv := {}, b_pc := (b_pc s)(t := BUnlock)\<rparr>)"
| b_unlock: "t < n \<Longrightarrow> b_pc s t = BUnlock \<Longrightarrow>
    barrier_prog n k s (s\<lparr>b_lock := None, b_pc := (b_pc s)(t := BOut),
      b_left := (b_left s)(t := b_left s t @ [PTHREAD_BARRIER_SERIAL_THREAD])\<rparr>)"
| b_wait: "t < n \<Longrightarrow> b_pc s t = BWait p \<Longrightarrow>
    barrier_prog n k s (s\<lparr>b_lock := None, b_cv := insert t (b_cv s), b_pc := (b_pc s)(t := BSleep p)\<rparr>)"
| b_wake: "t < n \<Longrightarrow> b_pc s t = BSleep p \<Longrightarrow> t \<notin> b_cv s \<Longrightarrow> b_lock s = None \<Longrightarrow>
    barrier_prog n k s (s\<lparr>b_lock := Some t, b_pc := (b_pc s)(t := BTest p)\<rparr>)"
| b_again: "t < n \<Longrightarrow> b_pc s t = BTest p \<Longrightarrow> p = phase (b_obj s) \<Longrightarrow>
    barrier_prog n k s (s\<lparr>b_pc := (b_pc s)(t := BWait p)\<rparr>)"
| b_through: "t < n \<Longrightarrow> b_pc s t = BTest p \<Longrightarrow> p \<noteq> phase (b_obj s) \<Longrightarrow>
    barrier_prog n k s (s\<lparr>b_pc := (b_pc s)(t := BLeave)\<rparr>)"
| b_leave: "t < n \<Longrightarrow> b_pc s t = BLeave \<Longrightarrow>
    barrier_prog n k s (s\<lparr>b_lock := None, b_pc := (b_pc s)(t := BOut),
      b_left := (b_left s)(t := b_left s t @ [0])\<rparr>)"

inductive barrier_step :: "nat \<Rightarrow> nat \<Rightarrow> bsys \<Rightarrow> bsys \<Rightarrow> bool" for n k where
  bprog: "barrier_prog n k s s' \<Longrightarrow> barrier_step n k s s'"
| bspurious: "t \<in> b_cv s \<Longrightarrow> barrier_step n k s (s\<lparr>b_cv := b_cv s - {t}\<rparr>)"

section \<open>The invariant\<close>

definition inside :: "bpc \<Rightarrow> bool" where
  "inside p \<longleftrightarrow> p \<noteq> BOut \<and> p \<noteq> BIn"

definition holding :: "bpc \<Rightarrow> bool" where
  "holding p \<longleftrightarrow> p \<in> {BIn, BCast, BUnlock, BLeave} \<or> (\<exists>x. p = BWait x \<or> p = BTest x)"

definition waiting :: "u64 \<Rightarrow> bpc \<Rightarrow> bool" where
  "waiting x p \<longleftrightarrow> p = BWait x \<or> p = BSleep x \<or> p = BTest x"

text \<open>
  A thread has arrived either as often as phases were completed, or once more; in the second case
  it waits for the current phase, in the first it is outside or on its way out of the last phase.
\<close>

definition place_ok :: "nat \<Rightarrow> nat \<Rightarrow> bpc \<Rightarrow> bool" where
  "place_ok ph ar p \<longleftrightarrow>
     ar = Suc ph \<and> waiting (of_nat ph) p \<or>
     ar = ph \<and> (p \<in> {BOut, BIn, BCast, BUnlock, BLeave} \<or>
        0 < ph \<and> (p = BSleep (of_nat (ph - 1)) \<or> p = BTest (of_nat (ph - 1))))"

definition thread_ok :: "nat \<Rightarrow> bsys \<Rightarrow> nat \<Rightarrow> bool" where
  "thread_ok k s t \<longleftrightarrow>
     place_ok (b_phases s) (b_arrived s t) (b_pc s t) \<and>
     b_arrived s t = length (b_left s t) + (if inside (b_pc s t) then 1 else 0) \<and>
     (b_pc s t \<noteq> BOut \<longrightarrow> length (b_left s t) < k) \<and> length (b_left s t) \<le> k"

definition ahead :: "nat \<Rightarrow> bsys \<Rightarrow> nat set" where
  "ahead n s = {t. t < n \<and> b_arrived s t = Suc (b_phases s)}"

definition lock_ok :: "nat \<Rightarrow> bsys \<Rightarrow> bool" where
  "lock_ok n s \<longleftrightarrow> (\<forall>t. b_lock s = Some t \<longleftrightarrow> t < n \<and> holding (b_pc s t))"

definition bcv_ok :: "nat \<Rightarrow> bsys \<Rightarrow> bool" where
  "bcv_ok n s \<longleftrightarrow> (\<forall>t\<in>b_cv s. t < n \<and> (\<exists>x. b_pc s t = BSleep x) \<and>
     (b_arrived s t = b_phases s \<longrightarrow> (\<exists>u<n. b_pc s u = BCast)))"

definition obj_ok :: "nat \<Rightarrow> bsys \<Rightarrow> bool" where
  "obj_ok n s \<longleftrightarrow> limit (b_obj s) = of_nat n \<and> phase (b_obj s) = of_nat (b_phases s) \<and>
     count (b_obj s) = of_nat (card (ahead n s)) \<and> card (ahead n s) < n"

definition barrier_inv :: "nat \<Rightarrow> nat \<Rightarrow> bsys \<Rightarrow> bool" where
  "barrier_inv n k s \<longleftrightarrow> n < 2 ^ 32 \<and> (\<forall>t<n. thread_ok k s t) \<and> lock_ok n s \<and> bcv_ok n s \<and> obj_ok n s"

lemma barrier_start_inv:
  assumes "barrier_start n s" and "0 < n" and "n < 2 ^ 32"
  shows "barrier_inv n k s"
proof -
  from assms have "(of_nat n :: u32) \<noteq> 0"
    by (metis unsigned_0 unat_of_nat32 neq0_conv)
  with assms show ?thesis
    by (auto simp: barrier_start_def pthread_barrier_init_def barrier_inv_def thread_ok_def
        place_ok_def lock_ok_def bcv_ok_def obj_ok_def ahead_def inside_def holding_def)
qed

lemma word_of_nat_neq_pred: "0 < p \<Longrightarrow> (of_nat (p - 1) :: u64) \<noteq> of_nat p"
proof
  assume "0 < p" and "(of_nat (p - 1) :: u64) = of_nat p"
  moreover from \<open>0 < p\<close> obtain q where "p = Suc q" by (cases p) auto
  ultimately show False by simp
qed

text \<open>The last to arrive is the one that finds all the others ahead.\<close>

lemma barrier_arrive_cases:
  assumes "obj_ok n s" and "n < 2 ^ 32"
  shows "barrier_arrive (b_obj s) =
    (if Suc (card (ahead n s)) = n
     then (True, (b_obj s)\<lparr>phase := of_nat (Suc (b_phases s)), count := 0\<rparr>)
     else (False, (b_obj s)\<lparr>count := of_nat (Suc (card (ahead n s)))\<rparr>))"
proof -
  let ?c = "card (ahead n s)"
  from assms have "?c < n" by (simp add: obj_ok_def)
  then have "(of_nat n :: u32) \<le> of_nat (Suc ?c) \<longleftrightarrow> n \<le> Suc ?c"
    using assms(2) by (intro of_nat_le32) simp_all
  with \<open>?c < n\<close> have "(of_nat n :: u32) \<le> of_nat (Suc ?c) \<longleftrightarrow> Suc ?c = n" by auto
  with assms(1) show ?thesis
    by (simp add: barrier_arrive_def obj_ok_def add.commute)
qed

text \<open>A step of thread \<open>t\<close> that does not arrive leaves the barrier object alone.\<close>

lemma frame_inv:
  assumes "barrier_inv n k s"
    and "b_obj s' = b_obj s" and "b_phases s' = b_phases s" and "b_arrived s' = b_arrived s"
    and "\<And>u. u \<noteq> t \<Longrightarrow> b_pc s' u = b_pc s u \<and> b_left s' u = b_left s u"
    and "thread_ok k s' t" and "lock_ok n s'" and "bcv_ok n s'"
  shows "barrier_inv n k s'"
proof -
  have "thread_ok k s' u" if "u < n" for u
    using assms(1,3-6) that by (cases "u = t") (auto simp: barrier_inv_def thread_ok_def)
  with assms show ?thesis
    by (simp add: barrier_inv_def obj_ok_def ahead_def)
qed

lemma lock_okD: "lock_ok n s \<Longrightarrow> b_lock s = Some t \<longleftrightarrow> t < n \<and> holding (b_pc s t)"
  by (simp add: lock_ok_def)

lemma lock_ok_update:
  assumes "lock_ok n s" and "t < n"
    and "b_lock s = None \<or> b_lock s = Some t" and "b_pc s' = (b_pc s)(t := p)"
    and "b_lock s' = (if holding p then Some t else None)"
  shows "lock_ok n s'"
  unfolding lock_ok_def
proof
  fix u
  have "b_lock s \<noteq> Some u" if "u \<noteq> t" using assms(3) that by auto
  then show "b_lock s' = Some u \<longleftrightarrow> u < n \<and> holding (b_pc s' u)"
    using lock_okD [OF assms(1), of u] assms(2,4,5) by (cases "u = t") auto
qed

text \<open>Leaving the blocked threads and the arrivals alone keeps the condition variable in order.\<close>

lemma bcv_ok_keep:
  assumes "bcv_ok n s" and "b_pc s t \<noteq> BCast" and "\<And>x. t \<in> b_cv s \<Longrightarrow> b_pc s t \<noteq> BSleep x"
    and "b_cv s' = b_cv s" and "\<And>u. u \<noteq> t \<Longrightarrow> b_arrived s' u = b_arrived s u"
    and "b_phases s' = b_phases s" and "b_pc s' = (b_pc s)(t := p)"
  shows "bcv_ok n s'"
proof -
  have "t \<notin> b_cv s" using assms(1,3) by (auto simp: bcv_ok_def)
  moreover have "\<exists>u<n. b_pc s' u = BCast" if "\<exists>u<n. b_pc s u = BCast"
    using that assms(2,7) by (metis fun_upd_other)
  moreover have "b_arrived s' u = b_arrived s u" if "u \<in> b_cv s" for u
    using that assms(5) \<open>t \<notin> b_cv s\<close> by metis
  ultimately show ?thesis
    using assms(1,4,6,7) by (auto simp: bcv_ok_def)
qed

lemma inv_parts:
  assumes "barrier_inv n k s"
  shows "n < 2 ^ 32" and "\<And>t. t < n \<Longrightarrow> thread_ok k s t" and "lock_ok n s" and "bcv_ok n s" and "obj_ok n s"
  using assms by (auto simp: barrier_inv_def)

lemmas thread_defs = thread_ok_def place_ok_def waiting_def inside_def holding_def

lemma holding_simps [simp]:
  "holding BIn" "holding BCast" "holding BUnlock" "holding BLeave" "holding (BWait x)"
  "holding (BTest x)" "\<not> holding BOut" "\<not> holding (BSleep x)"
  by (simp_all add: holding_def)

lemma inside_simps [simp]:
  "inside BCast" "inside BUnlock" "inside BLeave" "inside (BWait x)"
  "inside (BTest x)" "inside (BSleep x)" "\<not> inside BOut" "\<not> inside BIn"
  by (simp_all add: inside_def)

text \<open>
  The two arriving steps. When the last thread arrives, every other one is ahead, so all of them
  have arrived for the phase that now ends.
\<close>

lemma arrive_last_inv:
  assumes inv: "barrier_inv n k s" and t: "t < n" "b_pc s t = BIn"
    and arr: "barrier_arrive (b_obj s) = (True, b)"
  shows "barrier_inv n k (s\<lparr>b_obj := b, b_pc := (b_pc s)(t := BCast),
      b_arrived := (b_arrived s)(t := Suc (b_arrived s t)), b_phases := Suc (b_phases s)\<rparr>)"
    (is "barrier_inv n k ?s")
proof -
  note inv_parts [OF inv]
  note arr_eq = barrier_arrive_cases [OF \<open>obj_ok n s\<close> \<open>n < 2 ^ 32\<close>]
  from arr have all: "Suc (card (ahead n s)) = n" and b: "b = (b_obj s)\<lparr>phase := of_nat (Suc (b_phases s)), count := 0\<rparr>"
    unfolding arr_eq by (auto split: if_splits simp del: of_nat_Suc)
  from \<open>\<And>t. t < n \<Longrightarrow> thread_ok k s t\<close> [OF t(1)] t(2)
  have tp: "b_arrived s t = b_phases s" "length (b_left s t) < k" "b_phases s = length (b_left s t)"
    by (auto simp: thread_defs)
  have "ahead n s = {..<n} - {t}"
  proof (rule card_subset_eq)
    show "ahead n s \<subseteq> {..<n} - {t}" using tp by (auto simp: ahead_def)
  qed (use all t in auto)
  then have others: "b_arrived s u = Suc (b_phases s)" if "u < n" "u \<noteq> t" for u
    using that by (auto simp: ahead_def)
  have L: "lock_ok n ?s"
    by (rule lock_ok_update [OF \<open>lock_ok n s\<close> t(1), where p = BCast])
      (simp_all add: lock_okD [OF \<open>lock_ok n s\<close>] t)
  have "thread_ok k ?s u" if "u < n" for u
  proof (cases "u = t")
    case False
    from \<open>lock_ok n s\<close> t False have "\<not> holding (b_pc s u)" if "u < n"
      using lock_okD that by (metis holding_simps(1) option.inject)
    with others [OF that False] \<open>\<And>t. t < n \<Longrightarrow> thread_ok k s t\<close> [OF that] that False show ?thesis
      by (auto simp: thread_defs)
  qed (use tp in \<open>auto simp: thread_defs\<close>)
  moreover have "bcv_ok n ?s"
    using \<open>bcv_ok n s\<close> t by (auto simp: bcv_ok_def)
  moreover have "ahead n ?s = {}"
    using others tp by (auto simp: ahead_def)
  then have "obj_ok n ?s"
    using \<open>obj_ok n s\<close> t by (simp add: obj_ok_def b)
  ultimately show ?thesis
    using L \<open>n < 2 ^ 32\<close> by (simp add: barrier_inv_def)
qed

lemma arrive_early_inv:
  assumes inv: "barrier_inv n k s" and t: "t < n" "b_pc s t = BIn"
    and arr: "barrier_arrive (b_obj s) = (False, b)"
  shows "barrier_inv n k (s\<lparr>b_obj := b, b_pc := (b_pc s)(t := BWait (phase b)),
      b_arrived := (b_arrived s)(t := Suc (b_arrived s t))\<rparr>)"
    (is "barrier_inv n k ?s")
proof -
  note inv_parts [OF inv]
  note arr_eq = barrier_arrive_cases [OF \<open>obj_ok n s\<close> \<open>n < 2 ^ 32\<close>]
  from arr have some: "Suc (card (ahead n s)) \<noteq> n"
    and b: "b = (b_obj s)\<lparr>count := of_nat (Suc (card (ahead n s)))\<rparr>"
    unfolding arr_eq by (auto split: if_splits simp del: of_nat_Suc)
  from \<open>\<And>t. t < n \<Longrightarrow> thread_ok k s t\<close> [OF t(1)] t(2)
  have tp: "b_arrived s t = b_phases s" "length (b_left s t) < k" "b_phases s = length (b_left s t)"
    by (auto simp: thread_defs)
  have ph: "phase b = of_nat (b_phases s)" using \<open>obj_ok n s\<close> by (simp add: b obj_ok_def)
  have "lock_ok n ?s"
    by (rule lock_ok_update [OF \<open>lock_ok n s\<close> t(1), where p = "BWait (phase b)"])
      (simp_all add: lock_okD [OF \<open>lock_ok n s\<close>] t)
  moreover have "thread_ok k ?s u" if "u < n" for u
    using \<open>\<And>t. t < n \<Longrightarrow> thread_ok k s t\<close> [OF that] tp ph
    by (cases "u = t") (auto simp: thread_ok_def place_ok_def waiting_def)
  moreover have "bcv_ok n ?s"
    by (rule bcv_ok_keep [OF \<open>bcv_ok n s\<close>, where t = t]) (simp_all add: t)
  moreover have "ahead n ?s = insert t (ahead n s)" "t \<notin> ahead n s"
    using tp t by (auto simp: ahead_def)
  moreover have "finite (ahead n s)" by (simp add: ahead_def)
  ultimately show ?thesis
    using \<open>obj_ok n s\<close> \<open>n < 2 ^ 32\<close> some by (auto simp: barrier_inv_def obj_ok_def b)
qed

text \<open>The other steps of a thread: only its own place, the lock and its results change.\<close>

lemma own_step_inv:
  assumes inv: "barrier_inv n k s" and "t < n"
    and "b_obj s' = b_obj s" "b_phases s' = b_phases s" "b_arrived s' = b_arrived s"
    and "b_pc s' = (b_pc s)(t := p)" and "\<And>u. u \<noteq> t \<Longrightarrow> b_left s' u = b_left s u"
    and "b_lock s = None \<or> holding (b_pc s t)" and "b_lock s' = (if holding p then Some t else None)"
    and "b_pc s t \<noteq> BCast \<and> t \<notin> b_cv s \<and> b_cv s' = b_cv s \<or> b_cv s' = {}"
    and "thread_ok k s t \<Longrightarrow> thread_ok k s' t"
  shows "barrier_inv n k s'"
proof (rule frame_inv [OF inv])
  note parts = inv_parts [OF inv]
  show "lock_ok n s'"
    by (rule lock_ok_update [OF parts(3)])
      (use assms(2,6,8,9) lock_okD [OF parts(3)] in auto)
  show "bcv_ok n s'"
    using assms(10)
  proof
    assume "b_pc s t \<noteq> BCast \<and> t \<notin> b_cv s \<and> b_cv s' = b_cv s"
    then show ?thesis by (intro bcv_ok_keep [OF parts(4)]) (use assms in auto)
  qed (simp add: bcv_ok_def)
  show "thread_ok k s' t" using assms(2,11) parts(2) by blast
qed (use assms in auto)

lemma not_in_cv: "barrier_inv n k s \<Longrightarrow> holding (b_pc s t) \<or> b_pc s t = BOut \<Longrightarrow> t \<notin> b_cv s"
  by (auto simp: barrier_inv_def bcv_ok_def)

lemma wait_inv:
  assumes inv: "barrier_inv n k s" and t: "t < n" "b_pc s t = BWait p"
  shows "barrier_inv n k (s\<lparr>b_lock := None, b_cv := insert t (b_cv s), b_pc := (b_pc s)(t := BSleep p)\<rparr>)"
    (is "barrier_inv n k ?s")
proof (rule frame_inv [OF inv])
  note parts = inv_parts [OF inv]
  show "thread_ok k ?s t" using parts(2) [OF t(1)] t(2) by (auto simp: thread_defs)
  show "lock_ok n ?s"
    by (rule lock_ok_update [OF parts(3) t(1), where p = "BSleep p"])
      (simp_all add: lock_okD [OF parts(3)] t)
  have "b_arrived s t \<noteq> b_phases s" using parts(2) [OF t(1)] t(2) by (auto simp: thread_defs)
  moreover have "b_pc s u \<noteq> BCast" if "u < n" for u
    using lock_okD [OF parts(3), of t] lock_okD [OF parts(3), of u] t that by auto
  ultimately show "bcv_ok n ?s" using parts(4) t by (auto simp: bcv_ok_def)
qed (use t in auto)

lemma place_ok_again: "place_ok ph ar (BTest (of_nat ph)) \<Longrightarrow> ar = Suc ph"
  unfolding place_ok_def waiting_def using word_of_nat_neq_pred [of ph] by (elim disjE conjE; simp)

lemma place_ok_through: "place_ok ph ar (BTest p) \<Longrightarrow> p \<noteq> of_nat ph \<Longrightarrow> ar = ph"
  by (auto simp: place_ok_def waiting_def)

lemma thread_place: "barrier_inv n k s \<Longrightarrow> t < n \<Longrightarrow> place_ok (b_phases s) (b_arrived s t) (b_pc s t)"
  using inv_parts(2) unfolding thread_ok_def by blast

lemma inv_phase: "barrier_inv n k s \<Longrightarrow> phase (b_obj s) = of_nat (b_phases s)"
  by (simp add: barrier_inv_def obj_ok_def)

lemma barrier_prog_inv:
  assumes "barrier_prog n k s s'" and "barrier_inv n k s"
  shows "barrier_inv n k s'"
  using assms
proof (induction rule: barrier_prog.induct)
  case (b_last t s b)
  then show ?case by (blast intro: arrive_last_inv)
next
  case (b_early t s b)
  then show ?case by (blast intro: arrive_early_inv)
next
  case (b_wait t s p)
  then show ?case by (blast intro: wait_inv)
next
  case (b_lock t s)
  then show ?case
    by (intro own_step_inv [OF b_lock.prems b_lock.hyps(1)])
      (auto simp: thread_defs dest: not_in_cv)
next
  case (b_broadcast t s)
  then show ?case
    by (intro own_step_inv [OF b_broadcast.prems b_broadcast.hyps(1)])
      (auto simp: thread_defs lock_okD [OF inv_parts(3) [OF b_broadcast.prems]])
next
  case (b_unlock t s)
  then show ?case
    by (intro own_step_inv [OF b_unlock.prems b_unlock.hyps(1)])
      (auto simp: thread_defs dest: not_in_cv)
next
  case (b_wake t s p)
  then show ?case
    by (intro own_step_inv [OF b_wake.prems b_wake.hyps(1)]) (auto simp: thread_defs)
next
  case (b_again t s p)
  then have "b_arrived s t = Suc (b_phases s)"
    by (metis thread_place inv_phase place_ok_again)
  then have "thread_ok k s t \<Longrightarrow> thread_ok k (s\<lparr>b_pc := (b_pc s)(t := BWait p)\<rparr>) t"
    using b_again.hyps(2) by (auto simp: thread_defs)
  with b_again show ?case
    by (intro own_step_inv [OF b_again.prems b_again.hyps(1), where p = "BWait p"])
      (simp_all add: not_in_cv lock_okD [OF inv_parts(3) [OF b_again.prems]])
next
  case (b_through t s p)
  then have "b_arrived s t = b_phases s"
    by (metis thread_place inv_phase place_ok_through)
  then have "thread_ok k s t \<Longrightarrow> thread_ok k (s\<lparr>b_pc := (b_pc s)(t := BLeave)\<rparr>) t"
    using b_through.hyps(2) by (auto simp: thread_defs)
  with b_through show ?case
    by (intro own_step_inv [OF b_through.prems b_through.hyps(1), where p = BLeave])
      (simp_all add: not_in_cv lock_okD [OF inv_parts(3) [OF b_through.prems]])
next
  case (b_leave t s)
  then show ?case
    by (intro own_step_inv [OF b_leave.prems b_leave.hyps(1)])
      (auto simp: thread_defs dest: not_in_cv)
qed

lemma barrier_step_inv: "barrier_inv n k s \<Longrightarrow> barrier_step n k s s' \<Longrightarrow> barrier_inv n k s'"
proof (erule barrier_step.cases)
  fix t u assume "barrier_inv n k s" "s = u" "s' = u\<lparr>b_cv := b_cv u - {t}\<rparr>"
  then show "barrier_inv n k s'"
    by (auto simp: barrier_inv_def thread_ok_def lock_ok_def bcv_ok_def obj_ok_def ahead_def)
qed (blast intro: barrier_prog_inv)

section \<open>One serial thread per phase\<close>

text \<open>
  A thread is the serial one of round \<open>r\<close> when its call in that round has returned as such or, before the
  call returns, when it is at the broadcast or the unlock of the last to arrive.
\<close>

definition serial_in :: "bsys \<Rightarrow> nat \<Rightarrow> nat \<Rightarrow> bool" where
  "serial_in s t r \<longleftrightarrow> r < length (b_left s t) \<and> b_left s t ! r = PTHREAD_BARRIER_SERIAL_THREAD \<or>
     r = length (b_left s t) \<and> (b_pc s t = BCast \<or> b_pc s t = BUnlock)"

definition serials :: "nat \<Rightarrow> bsys \<Rightarrow> nat \<Rightarrow> nat set" where
  "serials n s r = {t. t < n \<and> serial_in s t r}"

definition serials_ok :: "nat \<Rightarrow> bsys \<Rightarrow> bool" where
  "serials_ok n s \<longleftrightarrow> (\<forall>r. card (serials n s r) = (if r < b_phases s then 1 else 0)) \<and>
     (\<forall>t. set (b_left s t) \<subseteq> {0, PTHREAD_BARRIER_SERIAL_THREAD})"

lemma serials_keep:
  assumes "serials_ok n s" and "\<And>u r. serial_in s' u r \<longleftrightarrow> serial_in s u r" and "b_phases s' = b_phases s"
    and "\<And>u. set (b_left s' u) \<subseteq> {0, PTHREAD_BARRIER_SERIAL_THREAD}"
  shows "serials_ok n s'"
  using assms by (simp add: serials_ok_def serials_def)

lemma serials_same:
  assumes "serials_ok n s" and "b_left s' = b_left s" and "b_phases s' = b_phases s"
    and "\<And>u. (b_pc s' u = BCast \<or> b_pc s' u = BUnlock) \<longleftrightarrow> (b_pc s u = BCast \<or> b_pc s u = BUnlock)"
  shows "serials_ok n s'"
  using assms by (simp add: serials_ok_def serials_def serial_in_def)

lemma barrier_prog_serials:
  assumes "barrier_prog n k s s'" and "barrier_inv n k s" and "serials_ok n s"
  shows "serials_ok n s'"
  using assms
proof (induction rule: barrier_prog.induct)
  case (b_last t s b)
  let ?s = "s\<lparr>b_obj := b, b_pc := (b_pc s)(t := BCast), b_arrived := (b_arrived s)(t := Suc (b_arrived s t)),
      b_phases := Suc (b_phases s)\<rparr>"
  have t: "length (b_left s t) = b_phases s"
    using inv_parts(2) [OF b_last.prems(1) b_last.hyps(1)] b_last.hyps(2) by (auto simp: thread_defs)
  have new: "serials n ?s r = serials n s r \<union> (if r = b_phases s then {t} else {})" for r
    using b_last.hyps(1,2) t by (auto simp: serials_def serial_in_def)
  have "finite (serials n s (b_phases s))" by (simp add: serials_def)
  moreover have "card (serials n s (b_phases s)) = 0" using b_last.prems(2) by (simp add: serials_ok_def)
  ultimately have "serials n s (b_phases s) = {}" by simp
  with b_last.prems(2) new show ?case by (auto simp: serials_ok_def)
next
  case (b_unlock t s)
  show ?case
    by (rule serials_keep [OF b_unlock.prems(2)])
      (use b_unlock in \<open>auto simp: serial_in_def serials_ok_def nth_append less_Suc_eq\<close>)
next
  case (b_leave t s)
  show ?case
    by (rule serials_keep [OF b_leave.prems(2)])
      (use b_leave in \<open>auto simp: serial_in_def serials_ok_def nth_append less_Suc_eq PTHREAD_BARRIER_SERIAL_THREAD_def\<close>)
qed (erule serials_same; simp)+

lemma barrier_step_serials:
  "barrier_step n k s s' \<Longrightarrow> barrier_inv n k s \<Longrightarrow> serials_ok n s \<Longrightarrow> serials_ok n s'"
proof (induction rule: barrier_step.induct)
  case (bprog s s')
  then show ?case by (blast intro: barrier_prog_serials)
qed (erule serials_same; simp)

section \<open>Progress\<close>

lemma sum_change_one:
  fixes f g :: "nat \<Rightarrow> nat"
  assumes "t < n" and "\<And>u. u \<noteq> t \<Longrightarrow> g u = f u"
  shows "(\<Sum>u<n. g u) + f t = (\<Sum>u<n. f u) + g t"
proof -
  have "(\<Sum>u<n. h u) = h t + (\<Sum>u\<in>{..<n} - {t}. h u)" for h :: "nat \<Rightarrow> nat"
    using assms(1) by (intro sum.remove) auto
  moreover have "(\<Sum>u\<in>{..<n} - {t}. g u) = (\<Sum>u\<in>{..<n} - {t}. f u)"
    using assms(2) by (intro sum.cong) auto
  ultimately show ?thesis by simp
qed

definition barrier_final :: "nat \<Rightarrow> nat \<Rightarrow> bsys \<Rightarrow> bool" where
  "barrier_final n k s \<longleftrightarrow> (\<forall>t<n. b_pc s t = BOut \<and> length (b_left s t) = k)"

text \<open>
  The measure of one thread: an arrival still to come weighs more than all that follows it; the
  broadcast weighs enough to pay for the threads it wakes.
\<close>

fun bpc_rank :: "nat \<Rightarrow> bpc \<Rightarrow> nat" where
  "bpc_rank n BOut = 2" | "bpc_rank n BIn = 1" | "bpc_rank n BCast = 20 + 4 * n"
| "bpc_rank n BUnlock = 5" | "bpc_rank n (BWait x) = 12" | "bpc_rank n (BSleep x) = 10"
| "bpc_rank n (BTest x) = 13" | "bpc_rank n BLeave = 9"

definition thread_fuel :: "nat \<Rightarrow> nat \<Rightarrow> bsys \<Rightarrow> nat \<Rightarrow> nat" where
  "thread_fuel n k s t = (40 + 4 * n) * (k - b_arrived s t) + bpc_rank n (b_pc s t) +
     (if (\<exists>x. b_pc s t = BSleep x) \<and> t \<notin> b_cv s then 4 else 0)"

definition barrier_fuel :: "nat \<Rightarrow> nat \<Rightarrow> bsys \<Rightarrow> nat" where
  "barrier_fuel n k s = (\<Sum>t<n. thread_fuel n k s t)"

lemma barrier_fuel_one:
  assumes "t < n" and "\<And>u. u \<noteq> t \<Longrightarrow> thread_fuel n k s' u = thread_fuel n k s u"
    and "thread_fuel n k s' t < thread_fuel n k s t"
  shows "barrier_fuel n k s' < barrier_fuel n k s"
  using sum_change_one [OF assms(1), of "thread_fuel n k s'" "thread_fuel n k s"] assms
  by (simp add: barrier_fuel_def)

lemma barrier_fuel_broadcast:
  assumes "t < n" and "\<And>u. u \<noteq> t \<Longrightarrow> thread_fuel n k s' u \<le> thread_fuel n k s u + 4"
    and "thread_fuel n k s' t + 4 * n < thread_fuel n k s t"
  shows "barrier_fuel n k s' < barrier_fuel n k s"
proof -
  let ?f = "thread_fuel n k s" and ?g = "thread_fuel n k s'" and ?R = "{..<n} - {t}"
  have split: "(\<Sum>u<n. h u) = h t + (\<Sum>u\<in>?R. h u)" for h :: "nat \<Rightarrow> nat"
    using assms(1) by (intro sum.remove) auto
  have "(\<Sum>u\<in>?R. ?g u) \<le> (\<Sum>u\<in>?R. ?f u + 4)"
    using assms(2) by (intro sum_mono) auto
  also have "\<dots> = (\<Sum>u\<in>?R. ?f u) + 4 * card ?R" by (simp add: sum.distrib)
  also have "card ?R \<le> n" by (metis card_lessThan card_mono Diff_subset finite_lessThan)
  finally have "(\<Sum>u\<in>?R. ?g u) \<le> (\<Sum>u\<in>?R. ?f u) + 4 * n" by linarith
  with assms(3) split [of ?f] split [of ?g] show ?thesis
    by (simp add: barrier_fuel_def)
qed

text \<open>A thread about to arrive has an arrival left to pay with.\<close>

lemma arrive_pays:
  "thread_ok k s t \<Longrightarrow> b_pc s t = BIn \<Longrightarrow>
     \<exists>m. k - b_arrived s t = Suc m \<and> k - Suc (b_arrived s t) = m"
  by (auto simp: thread_ok_def intro!: exI [of _ "k - Suc (b_arrived s t)"])

lemma barrier_prog_fuel:
  assumes "barrier_prog n k s s'" and "barrier_inv n k s"
  shows "barrier_fuel n k s' < barrier_fuel n k s"
  using assms
proof (induction rule: barrier_prog.induct)
  case (b_broadcast t s)
  then show ?case
    by (intro barrier_fuel_broadcast [where t = t]) (auto simp: thread_fuel_def)
next
  case (b_last t s b)
  with arrive_pays [of k s t] obtain m where "k - b_arrived s t = Suc m" "k - Suc (b_arrived s t) = m"
    by (auto simp: barrier_inv_def)
  with b_last show ?case
    by (intro barrier_fuel_one [where t = t]) (auto simp: thread_fuel_def algebra_simps)
next
  case (b_early t s b)
  with arrive_pays [of k s t] obtain m where "k - b_arrived s t = Suc m" "k - Suc (b_arrived s t) = m"
    by (auto simp: barrier_inv_def)
  with b_early show ?case
    by (intro barrier_fuel_one [where t = t]) (auto simp: thread_fuel_def algebra_simps)
next
  case (b_wait t s p)
  then show ?case by (intro barrier_fuel_one [where t = t]) (auto simp: thread_fuel_def)
qed (rule barrier_fuel_one, assumption, (simp_all add: thread_fuel_def)[2])+

lemma holder_enabled:
  assumes "t < n" and "holding (b_pc s t)"
  shows "\<exists>s'. barrier_prog n k s s'"
proof (cases "b_pc s t")
  case BIn
  with assms(1) show ?thesis
    by (cases "barrier_arrive (b_obj s)"; cases "fst (barrier_arrive (b_obj s))")
      (auto intro: b_last b_early)
next
  case (BTest x)
  with assms(1) show ?thesis by (cases "x = phase (b_obj s)") (blast intro: b_again b_through)+
qed (use assms in \<open>auto intro: barrier_prog.intros\<close>)

lemma barrier_enabled:
  assumes inv: "barrier_inv n k s" and "\<not> barrier_final n k s"
  shows "\<exists>s'. barrier_prog n k s s'"
proof (rule ccontr)
  assume stuck: "\<not> ?thesis"
  note parts = inv_parts [OF inv]
  have nh: "\<not> holding (b_pc s t)" if "t < n" for t
    using stuck that holder_enabled by blast
  then have "b_lock s = None" using lock_okD [OF parts(3)] by (cases "b_lock s") auto
  have place: "b_pc s t = BOut \<and> length (b_left s t) = k \<or> (\<exists>x. b_pc s t = BSleep x \<and> t \<in> b_cv s)"
    if "t < n" for t
  proof (cases "b_pc s t")
    case BOut
    with stuck b_lock [OF that BOut _ \<open>b_lock s = None\<close>] have "\<not> length (b_left s t) < k"
      by blast
    with parts(2) [OF that] BOut show ?thesis by (simp add: thread_ok_def)
  next
    case (BSleep x)
    with stuck b_wake [OF that BSleep _ \<open>b_lock s = None\<close>] show ?thesis by blast
  qed (use nh [OF that] in auto)
  have asleep: "b_arrived s t = Suc (b_phases s) \<and> b_phases s < k"
    if "t < n" "b_pc s t = BSleep x" for t x
  proof -
    from place [OF that(1)] that(2) have "t \<in> b_cv s" by auto
    moreover have "\<not> (\<exists>u<n. b_pc s u = BCast)" using nh by (metis holding_simps(2))
    ultimately have "b_arrived s t \<noteq> b_phases s" using parts(4) by (auto simp: bcv_ok_def)
    with parts(2) [OF that(1)] that(2) show ?thesis by (auto simp: thread_ok_def place_ok_def)
  qed
  from assms(2) obtain t where "t < n" "\<not> (b_pc s t = BOut \<and> length (b_left s t) = k)"
    by (auto simp: barrier_final_def)
  with place obtain x where t: "t < n" "b_pc s t = BSleep x" by blast
  have "u \<in> ahead n s" if "u < n" for u
  proof (cases "b_pc s u = BOut")
    case True
    with place [OF that] parts(2) [OF that] have "b_arrived s u = k" "b_arrived s u \<le> b_phases s"
      by (auto simp: thread_ok_def place_ok_def waiting_def)
    with asleep [OF t] show ?thesis by simp
  next
    case False
    with place [OF that] asleep [OF that] that show ?thesis by (auto simp: ahead_def)
  qed
  then have "ahead n s = {..<n}" by (auto simp: ahead_def)
  with parts(5) show False by (simp add: obj_ok_def)
qed

interpretation barrier: progress_system
  "\<lambda>s. barrier_start n s \<and> 0 < n \<and> n < 2 ^ 32" "barrier_step n k" "barrier_inv n k"
  "barrier_prog n k" "barrier_final n k" "barrier_fuel n k" for n k
  by unfold_locales
    (blast intro: barrier_start_inv barrier_step_inv bprog barrier_prog_fuel barrier_enabled)+

section \<open>The abstract barrier\<close>

text \<open>
  What a barrier promises, whatever its implementation: a thread arrives, and it leaves only when
  every thread has arrived as often as it has.
\<close>

record abarrier =
  ab_arrived :: "nat \<Rightarrow> nat"
  ab_left :: "nat \<Rightarrow> nat"

inductive abarrier_step :: "nat \<Rightarrow> abarrier \<Rightarrow> abarrier \<Rightarrow> bool" for n where
  ab_arrive: "t < n \<Longrightarrow> ab_arrived a t = ab_left a t \<Longrightarrow>
    abarrier_step n a (a\<lparr>ab_arrived := (ab_arrived a)(t := Suc (ab_arrived a t))\<rparr>)"
| ab_leave: "t < n \<Longrightarrow> ab_left a t < ab_arrived a t \<Longrightarrow> \<forall>u<n. ab_arrived a t \<le> ab_arrived a u \<Longrightarrow>
    abarrier_step n a (a\<lparr>ab_left := (ab_left a)(t := Suc (ab_left a t))\<rparr>)"

definition abarrier_start :: "abarrier \<Rightarrow> bool" where
  "abarrier_start a \<longleftrightarrow> a = \<lparr>ab_arrived = (\<lambda>_. 0), ab_left = (\<lambda>_. 0)\<rparr>"

definition abarrier_of :: "bsys \<Rightarrow> abarrier" where
  "abarrier_of s = \<lparr>ab_arrived = b_arrived s, ab_left = (\<lambda>t. length (b_left s t))\<rparr>"

lemma arrived_bounds:
  assumes "barrier_inv n k s" and "u < n"
  shows "b_phases s \<le> b_arrived s u"
  using thread_place [OF assms] by (auto simp: place_ok_def)

lemma abarrier_step_leave:
  assumes "t < n" and "ab_left a t < ab_arrived a t" and "\<And>u. u < n \<Longrightarrow> ab_arrived a t \<le> ab_arrived a u"
    and "ab_arrived b = ab_arrived a" and "ab_left b = (ab_left a)(t := Suc (ab_left a t))"
  shows "abarrier_step n a b"
proof -
  have "b = a\<lparr>ab_left := (ab_left a)(t := Suc (ab_left a t))\<rparr>" using assms(4,5) by simp
  then show ?thesis using assms(1-3) by (auto intro: ab_leave)
qed

lemma leaving_arrived:
  assumes inv: "barrier_inv n k s" and t: "t < n" and pc: "b_pc s t = BUnlock \<or> b_pc s t = BLeave"
  shows "length (b_left s t) < b_arrived s t" and "u < n \<Longrightarrow> b_arrived s t \<le> b_arrived s u"
proof -
  from thread_place [OF inv t] pc have "b_arrived s t = b_phases s"
    by (auto simp: place_ok_def waiting_def)
  then show "u < n \<Longrightarrow> b_arrived s t \<le> b_arrived s u" using arrived_bounds [OF inv] by simp
  show "length (b_left s t) < b_arrived s t"
    using inv_parts(2) [OF inv t] pc by (auto simp: thread_ok_def)
qed

lemma barrier_prog_abstract:
  assumes "barrier_prog n k s s'" and "barrier_inv n k s"
  shows "abarrier_of s' = abarrier_of s \<or> abarrier_step n (abarrier_of s) (abarrier_of s')"
  using assms
proof (induction rule: barrier_prog.induct)
  case (b_unlock t s)
  then have "abarrier_step n (abarrier_of s) (abarrier_of (s\<lparr>b_lock := None, b_pc := (b_pc s)(t := BOut),
      b_left := (b_left s)(t := b_left s t @ [PTHREAD_BARRIER_SERIAL_THREAD])\<rparr>))"
    using leaving_arrived [OF b_unlock.prems b_unlock.hyps(1)]
    by (intro abarrier_step_leave [where t = t]) (auto simp: abarrier_of_def)
  then show ?case ..
next
  case (b_leave t s)
  then have "abarrier_step n (abarrier_of s) (abarrier_of (s\<lparr>b_lock := None, b_pc := (b_pc s)(t := BOut),
      b_left := (b_left s)(t := b_left s t @ [0])\<rparr>))"
    using leaving_arrived [OF b_leave.prems b_leave.hyps(1)]
    by (intro abarrier_step_leave [where t = t]) (auto simp: abarrier_of_def)
  then show ?case ..
next
  case (b_last t s b)
  with inv_parts(2) [OF b_last.prems] have "b_arrived s t = length (b_left s t)"
    by (auto simp: thread_ok_def)
  with b_last.hyps(1) ab_arrive [of t n "abarrier_of s"] show ?case by (simp add: abarrier_of_def)
next
  case (b_early t s b)
  with inv_parts(2) [OF b_early.prems] have "b_arrived s t = length (b_left s t)"
    by (auto simp: thread_ok_def)
  with b_early.hyps(1) ab_arrive [of t n "abarrier_of s"] show ?case by (simp add: abarrier_of_def)
qed (simp_all add: abarrier_of_def)

interpretation barrier_sim: simulation
  "\<lambda>s. barrier_start n s \<and> 0 < n \<and> n < 2 ^ 32" "barrier_step n k" "barrier_inv n k"
  abarrier_of abarrier_start "abarrier_step n" for n k
proof unfold_locales
  fix s s' :: bsys
  show "abarrier_start (abarrier_of s)" if "barrier_start n s \<and> 0 < n \<and> n < 2 ^ 32"
    using that by (auto simp: barrier_start_def abarrier_of_def abarrier_start_def)
  show "abarrier_of s' = abarrier_of s \<or> abarrier_step n (abarrier_of s) (abarrier_of s')"
    if "barrier_inv n k s" and "barrier_step n k s s'"
    using that(2)
  proof cases
    case bprog
    then show ?thesis by (rule barrier_prog_abstract [OF _ that(1)])
  qed (simp add: abarrier_of_def)
qed

section \<open>What the barrier guarantees\<close>

lemma barrier_reach_inv:
  assumes "0 < n" and "n < 2 ^ 32" and "reach (barrier_start n) (barrier_step n k) s"
  shows "barrier_inv n k s"
proof -
  from assms have "reach (\<lambda>s. barrier_start n s \<and> 0 < n \<and> n < 2 ^ 32) (barrier_step n k) s" by simp
  then show ?thesis by (rule barrier.reach_inv)
qed

text \<open>C33. the barrier holds threads back: whatever the schedule and the spurious wake-ups, when
  a thread has returned from \<open>pthread_barrier_wait\<close> \<open>r\<close> times, every thread has called it
  (and been counted) at least \<open>r\<close> times, for any number of consecutive uses of the barrier.\<close>

theorem barrier_holds_back:
  assumes "0 < n" and "n < 2 ^ 32" and "reach (barrier_start n) (barrier_step n k) s"
    and "t < n" and "u < n"
  shows "length (b_left s t) \<le> b_arrived s u"
proof -
  have inv: "barrier_inv n k s" by (rule barrier_reach_inv [OF assms(1-3)])
  from thread_place [OF inv assms(4)] inv_parts(2) [OF inv assms(4)]
  have "length (b_left s t) \<le> b_phases s"
    by (auto simp: thread_ok_def place_ok_def waiting_def split: if_splits)
  also have "\<dots> \<le> b_arrived s u" by (rule arrived_bounds [OF inv assms(5)])
  finally show ?thesis .
qed

lemma reach_serials:
  assumes "0 < n" and "n < 2 ^ 32" and "reach (barrier_start n) (barrier_step n k) s"
  shows "serials_ok n s"
  using assms(3)
proof (induction rule: reach.induct)
  case (reach_init s)
  then show ?case
    by (auto simp: barrier_start_def pthread_barrier_init_def serials_ok_def serials_def serial_in_def)
next
  case (reach_step s s')
  from barrier_step_serials [OF reach_step(2) barrier_reach_inv [OF assms(1,2) reach_step(1)] reach_step(3)] show ?case .
qed

text \<open>The serial thread of a round, among the threads that have returned from it.\<close>

lemma serial_unique:
  assumes "serials_ok n s" and "t < n" "serial_in s t r" and "u < n" "serial_in s u r"
  shows "t = u"
proof -
  have "t \<in> serials n s r" "u \<in> serials n s r" using assms by (simp_all add: serials_def)
  moreover have "card (serials n s r) \<le> 1" using assms(1) by (simp add: serials_ok_def)
  moreover have "finite (serials n s r)" by (simp add: serials_def)
  ultimately show ?thesis by (metis One_nat_def card_le_Suc0_iff_eq)
qed

text \<open>C34. In every round exactly one thread is the serial one: once all the threads have returned from
  their call number \<open>r\<close>, there is one for which this call has returned
  \<open>PTHREAD_BARRIER_SERIAL_THREAD\<close>, and for all others it has returned 0. At no time, also when some
  threads are still in the round and others in the next one, have two threads been told that they are the
  serial one of the same round.\<close>

theorem barrier_one_serial:
  assumes "0 < n" and "n < 2 ^ 32" and "reach (barrier_start n) (barrier_step n k) s"
  shows "((\<forall>t<n. r < length (b_left s t)) \<longrightarrow>
      (\<exists>t<n. \<forall>u<n. b_left s u ! r = (if u = t then PTHREAD_BARRIER_SERIAL_THREAD else 0))) \<and>
    (\<forall>t<n. \<forall>u<n. r < length (b_left s t) \<and> b_left s t ! r = PTHREAD_BARRIER_SERIAL_THREAD \<and>
       r < length (b_left s u) \<and> b_left s u ! r = PTHREAD_BARRIER_SERIAL_THREAD \<longrightarrow> t = u)"
proof (intro conjI impI)
  note ok = reach_serials [OF assms] and inv = barrier_reach_inv [OF assms]
  show "\<exists>t<n. \<forall>u<n. b_left s u ! r = (if u = t then PTHREAD_BARRIER_SERIAL_THREAD else 0)"
    if r: "\<forall>t<n. r < length (b_left s t)"
  proof -
    have "r < length (b_left s 0)" using r assms(1) by blast
    moreover have "length (b_left s 0) \<le> b_phases s"
      using inv_parts(2) [OF inv assms(1)] by (auto simp: thread_defs split: if_splits)
    ultimately have "card (serials n s r) = 1" using ok by (simp add: serials_ok_def)
    then obtain t where t: "serials n s r = {t}" by (auto simp: card_1_singleton_iff)
    have "b_left s u ! r = (if u = t then PTHREAD_BARRIER_SERIAL_THREAD else 0)" if u: "u < n" for u
    proof -
      have "b_left s u ! r \<in> {0, PTHREAD_BARRIER_SERIAL_THREAD}"
        using ok r u nth_mem [of r "b_left s u"] unfolding serials_ok_def by blast
      moreover have "u \<in> serials n s r \<longleftrightarrow> b_left s u ! r = PTHREAD_BARRIER_SERIAL_THREAD"
        using r u by (auto simp: serials_def serial_in_def)
      ultimately show ?thesis using t by auto
    qed
    moreover have "t < n" using t by (auto simp: serials_def)
    ultimately show ?thesis by blast
  qed
  show "\<forall>t<n. \<forall>u<n. r < length (b_left s t) \<and> b_left s t ! r = PTHREAD_BARRIER_SERIAL_THREAD \<and>
       r < length (b_left s u) \<and> b_left s u ! r = PTHREAD_BARRIER_SERIAL_THREAD \<longrightarrow> t = u"
    using serial_unique [OF ok] by (blast intro: serial_in_def [THEN iffD2])
qed

text \<open>C35. the barrier never deadlocks: from every reachable state, without any spurious
  wake-up, the program can run on until all \<open>n\<close> threads have returned from all their
  \<open>k\<close> calls, and no run of the program's own steps is infinite.\<close>

theorem barrier_completes:
  assumes "0 < n" and "n < 2 ^ 32" and "reach (barrier_start n) (barrier_step n k) s"
  shows "(\<exists>s'. (barrier_prog n k)\<^sup>*\<^sup>* s s' \<and> (\<forall>t<n. b_pc s' t = BOut \<and> length (b_left s' t) = k)) \<and>
    \<not> (\<exists>f. f 0 = s \<and> (\<forall>i. barrier_prog n k (f i) (f (Suc i))))"
proof -
  have inv: "barrier_inv n k s" by (rule barrier_reach_inv [OF assms])
  then obtain s' where "(barrier_prog n k)\<^sup>*\<^sup>* s s'" "barrier_final n k s'"
    using barrier.reaches_final by blast
  moreover have "\<not> (\<exists>f. f 0 = s \<and> (\<forall>i. barrier_prog n k (f i) (f (Suc i))))"
    using barrier.no_infinite_run inv by metis
  ultimately show ?thesis by (auto simp: barrier_final_def)
qed

text \<open>C36. the lock-based barrier implements the abstract one.\<close>

theorem barrier_refines:
  assumes "0 < n" and "n < 2 ^ 32" and "reach (barrier_start n) (barrier_step n k) s"
  shows "reach abarrier_start (abarrier_step n) (abarrier_of s)"
  using barrier_sim.reach_simulated [of n k s] assms by simp

section \<open>Witnesses\<close>

text \<open>Two threads that meet three times.\<close>

lemma barrier_demo_start: "\<exists>s. reach (barrier_start 2) (barrier_step 2 3) s"
proof -
  have "barrier_start 2 \<lparr>b_obj = \<lparr>limit = 2, count = 0, phase = 0\<rparr>, b_lock = None, b_cv = {},
      b_pc = (\<lambda>_. BOut), b_arrived = (\<lambda>_. 0), b_left = (\<lambda>_. []), b_phases = 0\<rparr>"
    by (simp add: barrier_start_def pthread_barrier_init_def)
  then show ?thesis by (blast intro: reach_init)
qed

lemma barrier_demo_end:
  "\<exists>s. reach (barrier_start 2) (barrier_step 2 3) s \<and> barrier_final 2 3 s"
proof -
  obtain s where s: "reach (barrier_start 2) (barrier_step 2 3) s" using barrier_demo_start by blast
  then have "barrier_inv 2 3 s" by (intro barrier_reach_inv) simp_all
  then obtain s' where "(barrier_prog 2 3)\<^sup>*\<^sup>* s s'" "barrier_final 2 3 s'"
    using barrier.reaches_final by blast
  moreover from this(1) s have "reach (barrier_start 2) (barrier_step 2 3) s'"
    by (induction rule: rtranclp_induct) (blast intro: reach_step bprog)+
  ultimately show ?thesis by blast
qed

theorem barrier_holds_back_witness:
  "\<exists>s. reach (barrier_start 2) (barrier_step 2 3) s \<and> length (b_left s 0) = 3 \<and> 3 \<le> b_arrived s 1"
proof -
  obtain s where s: "reach (barrier_start 2) (barrier_step 2 3) s" and f: "barrier_final 2 3 s"
    using barrier_demo_end by blast
  then have "length (b_left s 0) = 3" by (simp add: barrier_final_def)
  with barrier_holds_back [OF _ _ s, of 0 1] s show ?thesis by auto
qed

theorem barrier_one_serial_witness:
  "\<exists>s. reach (barrier_start 2) (barrier_step 2 3) s \<and> length (b_left s 0) = 3 \<and> length (b_left s 1) = 3 \<and>
     (\<exists>t<2. b_left s t ! 1 = 1 \<and> b_left s (1 - t) ! 1 = 0)"
proof -
  obtain s where s: "reach (barrier_start 2) (barrier_step 2 3) s" and f: "barrier_final 2 3 s"
    using barrier_demo_end by blast
  have l: "length (b_left s t) = 3" if "t < 2" for t using f that by (simp add: barrier_final_def)
  have "\<exists>t<2. \<forall>u<2. b_left s u ! 1 = (if u = t then PTHREAD_BARRIER_SERIAL_THREAD else 0)"
    using barrier_one_serial [OF _ _ s, of 1] l by simp
  then obtain t where t: "t < 2" "\<forall>u<2. b_left s u ! 1 = (if u = t then 1 else 0)"
    by (auto simp: PTHREAD_BARRIER_SERIAL_THREAD_def)
  have "1 - t \<noteq> t" "1 - t < 2" using t(1) by (auto simp: less_2_cases_iff)
  with t have "b_left s t ! 1 = 1 \<and> b_left s (1 - t) ! 1 = 0" by simp
  with t(1) s l show ?thesis by auto
qed

theorem barrier_completes_witness:
  "\<exists>s :: bsys. b_pc s 0 = BOut \<and> length (b_left s 0) = 3 \<and> length (b_left s 1) = 3"
proof -
  obtain s where "reach (barrier_start 2) (barrier_step 2 3) s" using barrier_demo_start by blast
  from barrier_completes [OF _ _ this] obtain s' :: bsys
    where "\<forall>t<2. b_pc s' t = BOut \<and> length (b_left s' t) = 3" by auto
  then show ?thesis by (intro exI [of _ s']) simp
qed

theorem barrier_refines_witness:
  "\<exists>s. ab_left (abarrier_of s) 0 = 3 \<and> reach abarrier_start (abarrier_step 2) (abarrier_of s)"
proof -
  obtain s where s: "reach (barrier_start 2) (barrier_step 2 3) s" and f: "barrier_final 2 3 s"
    using barrier_demo_end by blast
  with barrier_refines [OF _ _ s] show ?thesis
    by (intro exI [of _ s]) (simp add: barrier_final_def abarrier_of_def)
qed

end
