(* ===== verification/Arrays.thy ===== *)
theory Arrays
  imports Prelude
begin

text \<open>
  C arrays as lists: accesses that check the bounds (an access outside is undefined behaviour),
  and the part of an array that a pointer into it gives to a callee.
\<close>

section \<open>Checked accesses\<close>

definition load :: "'a list \<Rightarrow> nat \<Rightarrow> 'a outcome" where
  "load xs i = (if i < length xs then Inr (xs ! i) else Inl Undefined)"

definition store :: "'a list \<Rightarrow> nat \<Rightarrow> 'a \<Rightarrow> 'a list outcome" where
  "store xs i v = (if i < length xs then Inr (xs[i := v]) else Inl Undefined)"

lemma load_in [simp]: "i < length xs \<Longrightarrow> load xs i = Inr (xs ! i)"
  by (simp add: load_def)

lemma store_in [simp]: "i < length xs \<Longrightarrow> store xs i v = Inr (xs[i := v])"
  by (simp add: store_def)

text \<open>A loop that fills an array from its start.\<close>

lemma fill_loop:
  "n \<le> length xs \<Longrightarrow> fold_res (\<lambda>i xs. store xs i (f i)) [0..<n] xs = Inr (map f [0..<n] @ drop n xs)"
proof (induction n)
  case (Suc n)
  then show ?case
    by (simp add: fold_res_upt_Suc list_update_append Cons_nth_drop_Suc [symmetric] del: upt_Suc) simp
qed simp

section \<open>Parts of an array\<close>

definition part :: "nat \<Rightarrow> nat \<Rightarrow> 'a list \<Rightarrow> 'a list" where
  "part k n d = take n (drop k d)"

definition patch :: "nat \<Rightarrow> 'a list \<Rightarrow> 'a list \<Rightarrow> 'a list" where
  "patch k xs d = take k d @ xs @ drop (k + length xs) d"

lemma length_part [simp]: "k + n \<le> length d \<Longrightarrow> length (part k n d) = n"
  by (simp add: part_def)

lemma nth_part [simp]: "k + n \<le> length d \<Longrightarrow> i < n \<Longrightarrow> part k n d ! i = d ! (k + i)"
  by (simp add: part_def)

lemma length_patch [simp]: "k + length xs \<le> length d \<Longrightarrow> length (patch k xs d) = length d"
  by (simp add: patch_def)

lemma nth_patch:
  "k + length xs \<le> length d \<Longrightarrow> j < length d \<Longrightarrow>
    patch k xs d ! j = (if k \<le> j \<and> j < k + length xs then xs ! (j - k) else d ! j)"
  by (auto simp: patch_def nth_append min_def)

lemma patch_part [simp]: "k + n \<le> length d \<Longrightarrow> patch k (part k n d) d = d"
  by (rule nth_equalityI) (auto simp: nth_patch)

lemma part_patch [simp]:
  "k + length xs \<le> length d \<Longrightarrow> n = length xs \<Longrightarrow> part k n (patch k xs d) = xs"
  by (rule nth_equalityI) (auto simp: nth_patch)

lemma part_patch_disjoint:
  "k + length xs \<le> length d \<Longrightarrow> m + n \<le> length d \<Longrightarrow> m + n \<le> k \<or> k + length xs \<le> m \<Longrightarrow>
    part m n (patch k xs d) = part m n d"
  by (rule nth_equalityI) (auto simp: nth_patch)

lemma patch_patch:
  "k + length xs \<le> length d \<Longrightarrow> length ys = length xs \<Longrightarrow> patch k ys (patch k xs d) = patch k ys d"
  by (rule nth_equalityI) (auto simp: nth_patch)

lemma patch_append:
  "k + length xs + length ys \<le> length d \<Longrightarrow>
    patch k (xs @ ys) d = patch (k + length xs) ys (patch k xs d)"
  by (rule nth_equalityI) (auto simp: nth_patch nth_append)

lemma patch_Nil [simp]: "patch k [] d = d"
  by (simp add: patch_def)

lemma patch_Cons:
  "k + length xs < length d \<Longrightarrow> patch k (x # xs) d = (patch (Suc k) xs d)[k := x]"
  by (rule nth_equalityI) (auto simp: nth_patch nth_list_update nth_Cons')

lemma part_append: "part k (m + n) d = part k m d @ part (k + m) n d"
  by (simp add: part_def take_add add.commute)

lemma part_part: "i + j \<le> n \<Longrightarrow> part i j (part k n d) = part (k + i) j d"
  by (simp add: part_def take_drop min_def add.commute)

text \<open>A row of which the head and the next places are replaced, the rest kept.\<close>

lemma row_patch:
  assumes "length c \<le> n" and "m + Suc n \<le> length d"
  shows "(patch (Suc m) c d)[m := t] = patch m (t # c @ drop (Suc (length c)) (part m (Suc n) d)) d"
  using assms
  by (intro nth_equalityI) (auto simp: nth_patch nth_list_update nth_Cons' nth_append)

section \<open>Loops over consecutive slots\<close>

text \<open>
  A loop that reads and writes \<open>data[0]\<close> to \<open>data[n - 1]\<close> behind a pointer, one after the
  other, and the same loop on those slots alone.
\<close>

definition slot_step ::
  "(nat \<Rightarrow> 'v \<Rightarrow> 'e \<Rightarrow> 'v \<times> 'e) \<Rightarrow> nat \<Rightarrow> nat \<Rightarrow> 'v list \<times> 'e \<Rightarrow> ('v list \<times> 'e) outcome"
where
  "slot_step f k i s =
     and_then (load (fst s) (k + i)) (\<lambda>x. case f i x (snd s) of
       (v, e) \<Rightarrow> and_then (store (fst s) (k + i) v) (\<lambda>d. Inr (d, e)))"

definition slot_loop ::
  "(nat \<Rightarrow> 'v \<Rightarrow> 'e \<Rightarrow> 'v \<times> 'e) \<Rightarrow> nat \<Rightarrow> nat \<Rightarrow> 'v list \<times> 'e \<Rightarrow> ('v list \<times> 'e) outcome"
where
  "slot_loop f k n = fold_res (slot_step f k) [0..<n]"

definition row_loop :: "(nat \<Rightarrow> 'v \<Rightarrow> 'e \<Rightarrow> 'v \<times> 'e) \<Rightarrow> nat \<Rightarrow> 'v list \<times> 'e \<Rightarrow> 'v list \<times> 'e" where
  "row_loop f n = fold (\<lambda>i s. case f i (fst s ! i) (snd s) of (v, e) \<Rightarrow> ((fst s)[i := v], e)) [0..<n]"

lemma row_loop_Suc:
  "row_loop f (Suc n) s =
     (case row_loop f n s of (r, e) \<Rightarrow> case f n (r ! n) e of (v, e1) \<Rightarrow> (r[n := v], e1))"
  by (simp add: row_loop_def split_def)

lemma length_row_loop [simp]: "length (fst (row_loop f n s)) = length (fst s)"
  by (induction n) (simp_all add: row_loop_Suc split_def, simp add: row_loop_def)

lemma patch_update:
  "k + length r \<le> length d \<Longrightarrow> i < length r \<Longrightarrow> patch k (r[i := v]) d = (patch k r d)[k + i := v]"
  by (rule nth_equalityI) (auto simp: nth_patch nth_list_update)

lemma slot_loop_row_loop:
  assumes "k + n \<le> length d"
  shows "slot_loop f k n (d, e) = Inr (map_prod (\<lambda>r. patch k r d) id (row_loop f n (part k n d, e)))"
proof -
  have "i \<le> n \<Longrightarrow> fold_res (slot_step f k) [0..<i] (d, e) =
      Inr (map_prod (\<lambda>r. patch k r d) id (row_loop f i (part k n d, e)))" for i
  proof (induction i)
    case (Suc i)
    obtain r e1 where r: "row_loop f i (part k n d, e) = (r, e1)" by fastforce
    have l: "length r = n" using length_row_loop [of f i "(part k n d, e)"] r assms by simp
    obtain v e2 where v: "f i (r ! i) e1 = (v, e2)" by fastforce
    show ?case
      using Suc r l v assms
      by (simp add: fold_res_upt_Suc row_loop_Suc slot_step_def nth_patch patch_update del: upt_Suc)
  qed (use assms in \<open>simp add: row_loop_def\<close>)
  then show ?thesis by (simp add: slot_loop_def)
qed

text \<open>When every slot gets a value that does not depend on what it held.\<close>

lemma row_loop_const:
  assumes "\<And>i x e. f i x e = (g i e, h i e)" and "n \<le> length r"
  shows "row_loop f n (r, e) =
    (map (\<lambda>i. g i (fold h [0..<i] e)) [0..<n] @ drop n r, fold h [0..<n] e)"
  using assms(2)
proof (induction n)
  case (Suc n)
  then show ?case
    by (simp add: row_loop_Suc assms(1) list_update_append Cons_nth_drop_Suc [symmetric])
qed (simp add: row_loop_def)

text \<open>Rows of one length laid end to end.\<close>

lemma length_concat_rows:
  "\<forall>r \<in> set rs. length r = n \<Longrightarrow> length (concat rs) = length rs * n"
  by (induction rs) auto

lemma nth_concat_rows:
  "\<forall>r \<in> set rs. length r = n \<Longrightarrow> i < length rs \<Longrightarrow> k < n \<Longrightarrow> concat rs ! (i * n + k) = rs ! i ! k"
proof (induction rs arbitrary: i)
  case (Cons r rs)
  then show ?case by (cases i) (auto simp: nth_append)
qed simp

end
