(* ===== verification/Worker.thy ===== *)
theory Worker
  imports Mailbox Arrays
begin

text \<open>
  The worker thread (\<open>src/worker.c\<close>): binding the thread, and what \<open>worker\<close> does with one
  work item. The benchmark's operations, the timestamps and the performance counters are the
  records of functions that the C code has as function pointers and as the functions of
  \<open>include/arch.h\<close>; everything they read and change (the benchmark's memory, the clock, the
  counters) is the world \<open>'e\<close> of the thread.
\<close>

section \<open>Data\<close>

text \<open>\<open>benchmark_t\<close>: \<open>'a\<close> is what a \<open>void *\<close> argument points to, \<open>None\<close> a null pointer.\<close>

record ('a, 'e) benchmark_t =
  b_name :: string
  b_init_arg :: "('a \<Rightarrow> 'e \<Rightarrow> 'a \<times> 'e) option"
  b_reset_arg :: "('a \<Rightarrow> 'e \<Rightarrow> 'e) option"
  b_free_arg :: "('a \<Rightarrow> 'e \<Rightarrow> 'e) option"
  b_call :: "'a \<Rightarrow> 'e \<Rightarrow> 'e"
  b_state :: 'a

text \<open>
  \<open>work_t\<close>: the result pointer is a position in the array of results, the barrier is the one
  of the step.
\<close>

record ('a, 'e) work_t =
  w_ops :: "('a, 'e) benchmark_t"
  w_arg :: 'a
  w_result :: "nat option"
  w_reps :: u32
  w_pmcs :: "string list"
  w_num_pmcs :: u32

text \<open>\<open>struct arg\<close>; the lock and the condition variable are part of the mailbox's theory.\<close>

record 'w arg = "'w mailbox" +
  a_cpuset :: "nat set"
  a_thread :: u32
  a_cpu :: u32
  a_run :: bool
  a_init :: bool
  a_dirigent :: bool
  a_do_binding :: bool

text \<open>The functions of \<open>arch.h\<close>; \<open>'p\<close> is what \<open>struct pmu *\<close> points to.\<close>

record ('e, 'p) arch =
  arch_pmu_init :: "string list \<Rightarrow> u32 \<Rightarrow> u32 \<Rightarrow> 'e \<Rightarrow> ('p \<times> 'e) outcome"
  arch_pmu_free :: "'p \<Rightarrow> 'e \<Rightarrow> 'e outcome"
  arch_pmu_begin :: "'p \<Rightarrow> nat \<Rightarrow> u64 list \<times> 'e \<Rightarrow> (u64 list \<times> 'e) outcome"
  arch_pmu_end :: "'p \<Rightarrow> nat \<Rightarrow> u64 list \<times> 'e \<Rightarrow> (u64 list \<times> 'e) outcome"
  arch_timestamp_begin :: "'e \<Rightarrow> u64 \<times> 'e"
  arch_timestamp_end :: "'e \<Rightarrow> u64 \<times> 'e"

section \<open>Binding\<close>

text \<open>
  What the operating system and hwloc answer in \<open>bind_thread\<close> (with \<open>sched.h\<close>): whether
  the topology is that of this system; the results of the calls; the sets that the calls leave in the
  objects they are given, for \<open>sched_getaffinity\<close> as the bits of a \<open>cpu_set_t\<close>. On an error a set
  is whatever the object holds then.
\<close>

record binding_env =
  is_thissystem :: bool
  set_cpubind :: int
  sched_setaffinity :: int
  get_cpubind :: "int \<times> nat set"
  last_cpu_location :: "int \<times> nat set"
  sched_getaffinity :: "int \<times> (nat \<Rightarrow> bool)"
  sched_getcpu :: int
  mckernel_answer :: int

datatype report = Method string | Perror string | Target | Bound

text \<open>\<open>hwloc_bitmap_first\<close>: the least index, -1 for the empty set.\<close>

definition bitmap_first :: "nat set \<Rightarrow> int" where
  "bitmap_first s = (if s = {} then -1 else int (Min s))"

definition current_cpuset_hwloc :: "binding_env \<Rightarrow> nat set \<times> report list" where
  "current_cpuset_hwloc env =
     (case get_cpubind env of (err, ret) \<Rightarrow>
        (ret, if err \<noteq> 0 then [Perror ''hwloc_get_cpubind() failed''] else []))"

definition current_cpu_hwloc :: "binding_env \<Rightarrow> u32 \<times> report list" where
  "current_cpu_hwloc env =
     (case last_cpu_location env of (err, cpuset) \<Rightarrow>
        let cpu = bitmap_first cpuset
        in (of_int cpu, (if err \<noteq> 0 then [Perror ''hwloc_get_last_cpu_location() failed''] else []) @
             (if cpu < 0 then [Perror ''hwloc_bitmap_first() failed''] else [])))"

definition CPU_SETSIZE :: nat where
  "CPU_SETSIZE = 1024"

definition current_cpuset_getaffinity :: "binding_env \<Rightarrow> nat set \<times> report list" where
  "current_cpuset_getaffinity env =
     (case sched_getaffinity env of (err, cpuset) \<Rightarrow>
        (fold (\<lambda>cpu ret. if cpuset cpu then insert cpu ret else ret) [0..<CPU_SETSIZE] {},
         if err \<noteq> 0 then [Perror ''sched_getaffinity() failed''] else []))"

definition current_cpu_getaffinity :: "binding_env \<Rightarrow> u32 \<times> report list" where
  "current_cpu_getaffinity env =
     (let cpu = sched_getcpu env in (of_int cpu, if cpu < 0 then [Perror ''sched_getcpu() failed''] else []))"

definition mck_is_mckernel :: "int \<Rightarrow> bool" where
  "mck_is_mckernel answer \<longleftrightarrow> answer = 0"

definition is_bound :: "binding_env \<Rightarrow> ('w, 'z) arg_scheme \<Rightarrow> bool" where
  "is_bound env a \<longleftrightarrow>
     a_cpuset a = fst (current_cpuset_hwloc env) \<and>
     (mck_is_mckernel (mckernel_answer env) \<or> a_cpu a = fst (current_cpu_hwloc env)) \<and>
     a_cpuset a = fst (current_cpuset_getaffinity env) \<and> a_cpu a = fst (current_cpu_getaffinity env)"

lemma is_bound_run: "is_bound env (a\<lparr>a_run := r\<rparr>) = is_bound env a"
  by (simp add: is_bound_def)

definition bind_thread :: "binding_env \<Rightarrow> ('w, 'z) arg_scheme \<Rightarrow> ('w, 'z) arg_scheme \<times> report list" where
  "bind_thread env a =
     (if a_do_binding a then
        let errors =
              (if is_thissystem env then
                 if set_cpubind env \<noteq> 0 then [Perror ''hwloc_set_cpubind() failed''] else []
               else if sched_setaffinity env \<noteq> 0 then [Perror ''sched_setaffinity() failed''] else [])
        in (a, errors @ snd (current_cpuset_hwloc env) @ snd (current_cpu_hwloc env) @
             snd (current_cpuset_getaffinity env) @ snd (current_cpu_getaffinity env) @
             [if is_bound env a then Bound else Target])
      else (case current_cpu_getaffinity env of (cpu, errors) \<Rightarrow> (a\<lparr>a_cpu := cpu\<rparr>, errors)))"

text \<open>
  The part of \<open>worker\<close> before its run loop; \<open>method\<close> is the name that the configuration of
  \<open>arch.h\<close> gives to its counters.
\<close>

definition worker_enter :: "string \<Rightarrow> binding_env \<Rightarrow> ('w, 'z) arg_scheme \<Rightarrow> ('w, 'z) arg_scheme \<times> report list" where
  "worker_enter method env a =
     (let a1 = a\<lparr>a_run := True\<rparr>;
          out = (if a_dirigent a1 \<and> \<not> a_init a1 then [Method method] else [])
      in if \<not> a_init a1 then (let (a2, out2) = bind_thread env a1 in (a2\<lparr>a_init := True\<rparr>, out @ out2))
         else (a1, out))"

section \<open>One work item\<close>

text \<open>
  The offset of a repetition's results: the product is one of \<open>unsigned\<close>, which is then widened.
\<close>

definition rep_offset :: "u32 \<Rightarrow> u32 \<Rightarrow> nat" where
  "rep_offset n rep = unat (ucast ((n + 1) * rep) :: u64)"

definition run_rep ::
  "('e, 'p) arch \<Rightarrow> ('a, 'e) work_t \<Rightarrow> 'p \<Rightarrow> 'a \<Rightarrow> u32 \<Rightarrow> u64 list \<times> 'e \<Rightarrow> (u64 list \<times> 'e) outcome"
where
  "run_rep arch w pmus a rep s =
     (let s1 = (fst s, case b_reset_arg (w_ops w) of None \<Rightarrow> snd s | Some reset \<Rightarrow> reset a (snd s));
          offset = rep_offset (w_num_pmcs w) rep
      in and_then
           (case w_result w of None \<Rightarrow> Inr s1 | Some p \<Rightarrow> arch_pmu_begin arch pmus (p + (offset + 1)) s1)
           (\<lambda>(data, e). let (start, e1) = arch_timestamp_begin arch e;
                            e2 = b_call (w_ops w) a e1;
                            (stop, e3) = arch_timestamp_end arch e2
              in case w_result w of None \<Rightarrow> Inr (data, e3)
                 | Some p \<Rightarrow> and_then (arch_pmu_end arch pmus (p + (offset + 1)) (data, e3))
                     (\<lambda>(data1, e4). and_then (store data1 (p + offset) (stop - start))
                        (\<lambda>data2. Inr (data2, e4)))))"

definition run_reps ::
  "('e, 'p) arch \<Rightarrow> ('a, 'e) work_t \<Rightarrow> 'p \<Rightarrow> 'a \<Rightarrow> u64 list \<times> 'e \<Rightarrow> (u64 list \<times> 'e) outcome"
where
  "run_reps arch w pmus a = fold_res (\<lambda>i. run_rep arch w pmus a (of_nat i)) [0..<unat (w_reps w)]"

text \<open>
  The body of the run loop between \<open>wait_for_work\<close> and \<open>return_finished_work\<close>, in the three
  parts that the barrier separates and that the end of the repetitions does. The barrier's result
  is only reported.
\<close>

definition item_prepare ::
  "('e, 'p) arch \<Rightarrow> u32 \<Rightarrow> ('a, 'e) work_t \<Rightarrow> 'e \<Rightarrow> ('a \<times> 'p \<times> 'e) outcome"
where
  "item_prepare arch cp w e =
     (let (a, e1) = (case b_init_arg (w_ops w) of None \<Rightarrow> (w_arg w, e) | Some f \<Rightarrow> f (w_arg w) e)
      in and_then (arch_pmu_init arch (w_pmcs w) (w_num_pmcs w) cp e1) (\<lambda>(p, e2). Inr (a, p, e2)))"

definition run_item ::
  "('e, 'p) arch \<Rightarrow> u32 \<Rightarrow> ('a, 'e) work_t \<Rightarrow> u64 list \<times> 'e \<Rightarrow> (u64 list \<times> 'e) outcome"
where
  "run_item arch cp w s =
     and_then (item_prepare arch cp w (snd s)) (\<lambda>(a, p, e).
       and_then (run_reps arch w p a (fst s, e)) (\<lambda>(data, e1).
         and_then (arch_pmu_free arch p e1) (\<lambda>e2. Inr (data, e2))))"

text \<open>
  A worker alone: the items one after the other, each on an array of its own, and each in the world
  that the one before left. The result is what the items leave in their arrays, and the world at the end.
\<close>

fun alone ::
  "('e, 'p) arch \<Rightarrow> u32 \<Rightarrow> (('a, 'e) work_t \<times> u64 list) list \<Rightarrow> 'e \<Rightarrow> (u64 list list \<times> 'e) outcome"
where
  "alone arch cp [] e = Inr ([], e)"
| "alone arch cp ((w, d) # items) e =
     and_then (run_item arch cp w (d, e)) (\<lambda>(d1, e1).
       and_then (alone arch cp items e1) (\<lambda>(ds, e2). Inr (d1 # ds, e2)))"

lemma alone_snoc:
  assumes "alone arch cp items e = Inr (ds, e1)" and "run_item arch cp w (d, e1) = Inr (d2, e2)"
  shows "alone arch cp (items @ [(w, d)]) e = Inr (ds @ [d2], e2)"
  using assms
proof (induction items arbitrary: e ds)
  case (Cons x items)
  obtain w1 d1 where x: "x = (w1, d1)" by (cases x)
  with Cons.prems(1) obtain d3 e3 ds1 where "run_item arch cp w1 (d1, e) = Inr (d3, e3)"
    "alone arch cp items e3 = Inr (ds1, e1)" "ds = d3 # ds1"
    by (auto simp: and_then_Inr_iff)
  with Cons.IH Cons.prems(2) x show ?case by simp
qed simp

lemma length_alone: "alone arch cp items e = Inr (ds, e1) \<Longrightarrow> length ds = length items"
proof (induction items arbitrary: e ds)
  case (Cons x items)
  then show ?case by (cases x) (auto simp: and_then_Inr_iff)
qed simp

text \<open>While the product stays below \<open>2 ^ 32\<close> it is the product of the numbers.\<close>

lemma unat_up: "unat (ucast (x :: u32) :: u64) = unat x"
  by (simp add: unsigned_ucast_eq take_bit_nat_eq_self_iff)
    (rule less_trans [OF unsigned_less], simp)

lemma rep_offset_eq:
  assumes "Suc (unat n) * Suc i < 2 ^ 32"
  shows "rep_offset n (of_nat i) = Suc (unat n) * i"
proof -
  have "Suc (unat n) \<le> Suc (unat n) * Suc i" and "Suc i \<le> Suc (unat n) * Suc i" by simp_all
  with assms have b: "Suc (unat n) < 2 ^ 32" "i < 2 ^ 32" "Suc (unat n) * i < 2 ^ 32" by simp_all
  then have "unat (n + 1) = Suc (unat n)" and "unat (of_nat i :: u32) = i"
    by (simp_all add: unat_word_ariths unat_of_nat32)
  then have "unat ((n + 1) * of_nat i) = Suc (unat n) * i"
    using b(3) by (simp only: unat_word_ariths) simp
  then show ?thesis by (simp add: rep_offset_def unat_up)
qed

lemmas worker_defs = run_rep_def run_reps_def item_prepare_def run_item_def

section \<open>What the worker needs of the performance counters\<close>

text \<open>
  The contract between \<open>worker\<close> and \<open>arch.h\<close>: \<open>arch_pmu_init\<close> sets up at most as many
  counters as were asked for, and \<open>arch_pmu_begin\<close> and \<open>arch_pmu_end\<close> read and write
  nothing of the results but one slot for each counter that was set up, behind the pointer they
  are given.
\<close>

locale pmu_contract =
  fixes arch :: "('e, 'p) arch"
    and width :: "'p \<Rightarrow> nat"
    and begin_row end_row :: "'p \<Rightarrow> u64 list \<times> 'e \<Rightarrow> u64 list \<times> 'e"
  assumes pmu_init: "arch_pmu_init arch names n cp e = Inr (p, e') \<Longrightarrow> width p \<le> unat n"
    and pmu_begin: "k + width p \<le> length d \<Longrightarrow> arch_pmu_begin arch p k (d, e) =
      Inr (map_prod (\<lambda>r. patch k r d) id (begin_row p (part k (width p) d, e)))"
    and pmu_end: "k + width p \<le> length d \<Longrightarrow> arch_pmu_end arch p k (d, e) =
      Inr (map_prod (\<lambda>r. patch k r d) id (end_row p (part k (width p) d, e)))"
    and length_begin: "length r = width p \<Longrightarrow> length (fst (begin_row p (r, e))) = width p"
    and length_end: "length r = width p \<Longrightarrow> length (fst (end_row p (r, e))) = width p"
begin

text \<open>
  One repetition on a row of its own: the elapsed time, the counters that were set up, and what
  is left of the row.
\<close>

definition row_rep :: "('a, 'e) work_t \<Rightarrow> 'p \<Rightarrow> 'a \<Rightarrow> u64 list \<times> 'e \<Rightarrow> u64 list \<times> 'e" where
  "row_rep w p a s =
     (let e = (case b_reset_arg (w_ops w) of None \<Rightarrow> snd s | Some reset \<Rightarrow> reset a (snd s));
          (c1, e1) = begin_row p (part 1 (width p) (fst s), e);
          (start, e2) = arch_timestamp_begin arch e1;
          (stop, e3) = arch_timestamp_end arch (b_call (w_ops w) a e2);
          (c2, e4) = end_row p (c1, e3)
      in ((stop - start) # c2 @ drop (Suc (width p)) (fst s), e4))"

lemma length_row_rep:
  "Suc (width p) \<le> length r \<Longrightarrow> length (fst (row_rep w p a (r, e))) = length r"
  using length_begin length_end
  by (auto simp: row_rep_def Let_def split_def)

lemma run_rep_row:
  assumes "w_result w = Some b" and "width p \<le> unat (w_num_pmcs w)"
    and "m = b + rep_offset (w_num_pmcs w) i" and "m + Suc (unat (w_num_pmcs w)) \<le> length d"
  shows "run_rep arch w p a i (d, e) =
    Inr (map_prod (\<lambda>r. patch m r d) id (row_rep w p a (part m (Suc (unat (w_num_pmcs w))) d, e)))"
proof -
  let ?n = "unat (w_num_pmcs w)" and ?q = "width p"
  let ?e = "case b_reset_arg (w_ops w) of None \<Rightarrow> e | Some reset \<Rightarrow> reset a e"
  have k: "Suc m + ?q \<le> length d" using assms by simp
  have sl: "part (Suc m) ?q d = part (Suc 0) ?q (part m (Suc ?n) d)"
    using assms(2) by (simp add: part_part)
  obtain c1 e1 where c1: "begin_row p (part (Suc m) ?q d, ?e) = (c1, e1)" by fastforce
  obtain start e2 where t1: "arch_timestamp_begin arch e1 = (start, e2)" by fastforce
  obtain stop e3 where t2: "arch_timestamp_end arch (b_call (w_ops w) a e2) = (stop, e3)" by fastforce
  obtain c2 e4 where c2: "end_row p (c1, e3) = (c2, e4)" by fastforce
  have l1: "length c1 = ?q" using length_begin [of "part (Suc m) ?q d" p ?e] c1 k by simp
  have l2: "length c2 = ?q" using length_end [of c1 p e3] c2 l1 by simp
  have "(patch (Suc m) c2 d)[m := stop - start] =
      patch m ((stop - start) # c2 @ drop (Suc ?q) (part m (Suc ?n) d)) d"
    using row_patch [of c2 ?n m d "stop - start"] l2 assms by simp
  moreover have "b + (rep_offset (w_num_pmcs w) i + 1) = Suc m" "b + rep_offset (w_num_pmcs w) i = m"
    using assms(3) by simp_all
  ultimately show ?thesis
    using assms(1,2,4) k l1 l2 c1 t1 t2 c2
    by (simp add: run_rep_def Let_def pmu_begin pmu_end patch_patch row_rep_def sl [symmetric]
        cong: option.case_cong)
qed

text \<open>
  The rows of the first \<open>i\<close> repetitions, each from the contents its place had at the start:
  repetition \<open>i\<close> works on the row at \<open>b + (n + 1) * i\<close>, and on the world that the one
  before left.
\<close>

primrec rows :: "('a, 'e) work_t \<Rightarrow> 'p \<Rightarrow> 'a \<Rightarrow> nat \<Rightarrow> u64 list \<Rightarrow> 'e \<Rightarrow> nat \<Rightarrow> u64 list list \<times> 'e" where
  "rows w p a b d e 0 = ([], e)"
| "rows w p a b d e (Suc i) =
     (case rows w p a b d e i of (rs, e1) \<Rightarrow>
        let n = Suc (unat (w_num_pmcs w));
            (r, e2) = row_rep w p a (part (b + n * i) n d, e1)
        in (rs @ [r], e2))"

lemma rows_shape:
  assumes "width p \<le> unat (w_num_pmcs w)" and "b + Suc (unat (w_num_pmcs w)) * i \<le> length d"
  shows "length (fst (rows w p a b d e i)) = i \<and>
    (\<forall>r \<in> set (fst (rows w p a b d e i)). length r = Suc (unat (w_num_pmcs w)))"
  using assms(2)
proof (induction i)
  case (Suc i)
  let ?n = "Suc (unat (w_num_pmcs w))"
  obtain rs e1 where r: "rows w p a b d e i = (rs, e1)" by fastforce
  have "length (fst (row_rep w p a (part (b + ?n * i) ?n d, e1))) = length (part (b + ?n * i) ?n d)"
    by (rule length_row_rep) (use assms(1) Suc.prems in \<open>simp add: algebra_simps\<close>)
  then show ?case using Suc r by (simp add: split_def Let_def algebra_simps)
qed simp

lemma run_reps_rows:
  assumes "w_result w = Some b" and "width p \<le> unat (w_num_pmcs w)"
    and "Suc (unat (w_num_pmcs w)) * unat (w_reps w) < 2 ^ 32"
    and "b + Suc (unat (w_num_pmcs w)) * unat (w_reps w) \<le> length d"
  shows "run_reps arch w p a (d, e) =
    Inr (map_prod (\<lambda>rs. patch b (concat rs) d) id (rows w p a b d e (unat (w_reps w))))"
proof -
  let ?n = "Suc (unat (w_num_pmcs w))"
  have "i \<le> unat (w_reps w) \<Longrightarrow>
    fold_res (\<lambda>i. run_rep arch w p a (of_nat i)) [0..<i] (d, e) =
      Inr (map_prod (\<lambda>rs. patch b (concat rs) d) id (rows w p a b d e i))" for i
  proof (induction i)
    case (Suc i)
    have le: "?n * Suc i \<le> ?n * unat (w_reps w)" using Suc.prems by (rule mult_le_mono2)
    obtain rs e1 where r: "rows w p a b d e i = (rs, e1)" by fastforce
    have shape: "length rs = i" "\<forall>r \<in> set rs. length r = ?n"
      using rows_shape [OF assms(2), of b i d a e] r le assms(4) by simp_all
    have l: "length (concat rs) = ?n * i"
      using length_concat_rows [OF shape(2)] shape(1) by (simp add: mult.commute)
    let ?d = "patch b (concat rs) d" and ?m = "b + ?n * i"
    have ld: "length ?d = length d" using l le assms(4) by simp
    have off: "?m = b + rep_offset (w_num_pmcs w) (of_nat i)"
      using rep_offset_eq [of "w_num_pmcs w" i] le assms(3) by simp
    have pd: "part ?m ?n ?d = part ?m ?n d"
      by (rule part_patch_disjoint) (use l le assms(4) in simp_all)
    obtain r2 e2 where r2: "row_rep w p a (part ?m ?n d, e1) = (r2, e2)" by fastforce
    have "length r2 = length (part ?m ?n d)"
      using length_row_rep [of p "part ?m ?n d" w a e1] r2 assms(2,4) le by simp
    then have l2: "length r2 = ?n" using le assms(4) by simp
    have "run_rep arch w p a (of_nat i) (?d, e1) = Inr (patch ?m r2 ?d, e2)"
      using run_rep_row [OF assms(1,2) off, of ?d a e1] ld le assms(4) pd r2 by simp
    moreover have "patch ?m r2 ?d = patch b (concat (rs @ [r2])) d"
      using patch_append [of b "concat rs" r2 d] l l2 le assms(4) by simp
    ultimately show ?case
      using Suc r r2 by (simp only: fold_res_upt_Suc rows.simps) (simp add: Let_def)
  qed (simp add: part_def)
  then show ?thesis by (simp add: run_reps_def)
qed

end

section \<open>Threads are bound once\<close>

lemma bind_thread_keeps: "a_run (fst (bind_thread env a)) = a_run a"
  by (simp add: bind_thread_def Let_def split: prod.split)

lemma getaffinity_loop:
  "fold (\<lambda>cpu ret. if f cpu then insert cpu ret else ret) [0..<n] {} = {cpu. cpu < n \<and> f cpu}"
proof (induction n)
  case (Suc n)
  have "{cpu. cpu < Suc n \<and> f cpu} = (if f n then insert n {cpu. cpu < n \<and> f cpu} else {cpu. cpu < n \<and> f cpu})"
    by (rule set_eqI) (simp add: less_Suc_eq disj_commute conj_disj_distribL conj_disj_distribR conj_ac, blast)
  with Suc show ?case by simp
qed simp

lemma current_cpuset_getaffinity_set:
  "fst (current_cpuset_getaffinity env) = {cpu. cpu < CPU_SETSIZE \<and> snd (sched_getaffinity env) cpu}"
  by (simp add: current_cpuset_getaffinity_def getaffinity_loop split: prod.split)

text \<open>C18. A thread is bound when it enters \<open>worker\<close> for the first time and not again, as the dirigent does
for every benchmark, unless the memory that \<open>spawn_workers\<close> got for it, whose field \<open>init\<close> it never
writes, happens to hold something: then the thread is never bound and reports nothing. The CPU that
the thread keeps in its \<open>struct arg\<close>, which it reports and for which it sets up the counters, changes
only when the binding is disabled; it is then what \<open>sched_getcpu\<close> answers, and UINT_MAX when that
fails. A thread whose set has a CPU that does not
fit into a \<open>cpu_set_t\<close> is never reported as bound, whatever the system answers.\<close>

theorem worker_binds_once:
  assumes "worker_enter method env a = (a1, out1)" and "worker_enter method env2 a1 = (a2, out2)"
  shows "a_run a1 \<and> a_init a1 \<and> a2 = a1 \<and> out2 = [] \<and>
    (a_init a \<longrightarrow> a1 = a\<lparr>a_run := True\<rparr> \<and> out1 = []) \<and>
    (\<not> a_init a \<and> a_do_binding a \<longrightarrow> a_cpu a1 = a_cpu a \<and> (last out1 = Bound \<longleftrightarrow> is_bound env a) \<and>
       (last out1 = Bound \<longrightarrow> a_cpuset a \<subseteq> {..<CPU_SETSIZE} \<and> a_cpu a = of_int (sched_getcpu env))) \<and>
    (\<not> a_init a \<and> \<not> a_do_binding a \<longrightarrow> a_cpu a1 = of_int (sched_getcpu env) \<and>
       (sched_getcpu env = -1 \<longrightarrow> unat (a_cpu a1) = 2 ^ 32 - 1))"
proof -
  have a1: "a_run a1 \<and> a_init a1"
    using assms(1) bind_thread_keeps [of env "a\<lparr>a_run := True\<rparr>"]
    by (cases "a_init a") (auto simp: worker_enter_def Let_def split_def)
  have "worker_enter method env2 a1 = (a1\<lparr>a_run := True\<rparr>, [])" using a1 by (simp add: worker_enter_def Let_def)
  moreover have "a1\<lparr>a_run := True\<rparr> = a1" using a1 by simp
  ultimately have "a2 = a1 \<and> out2 = []" using assms(2) by (simp only: prod.inject)
  moreover have "a1 = a\<lparr>a_run := True\<rparr> \<and> out1 = []" if "a_init a"
    using assms(1) that by (auto simp: worker_enter_def Let_def)
  moreover have "a_cpu a1 = a_cpu a \<and> (last out1 = Bound \<longleftrightarrow> is_bound env a)" if "\<not> a_init a" "a_do_binding a"
    using assms(1) that by (auto simp: worker_enter_def bind_thread_def Let_def is_bound_run split: if_splits)
  moreover have "a_cpuset a \<subseteq> {..<CPU_SETSIZE} \<and> a_cpu a = of_int (sched_getcpu env)" if "is_bound env a"
  proof
    have "a_cpuset a = fst (current_cpuset_getaffinity env)" and "a_cpu a = fst (current_cpu_getaffinity env)"
      using that unfolding is_bound_def by blast+
    then show "a_cpuset a \<subseteq> {..<CPU_SETSIZE}" "a_cpu a = of_int (sched_getcpu env)"
      unfolding current_cpuset_getaffinity_set current_cpu_getaffinity_def by (blast, simp add: Let_def)
  qed
  moreover have "a_cpu a1 = of_int (sched_getcpu env)" if "\<not> a_init a" "\<not> a_do_binding a"
    using assms(1) that by (auto simp: worker_enter_def bind_thread_def current_cpu_getaffinity_def Let_def)
  moreover have "unat (a_cpu a1) = 2 ^ 32 - 1" if "a_cpu a1 = of_int (sched_getcpu env)" "sched_getcpu env = -1"
    unfolding that by (simp add: unsigned_minus_1_eq_mask mask_eq_exp_minus_1)
  ultimately show ?thesis using a1 by blast
qed

definition demo_binding :: binding_env where
  "demo_binding =
     \<lparr>is_thissystem = True, set_cpubind = 0, sched_setaffinity = 0, get_cpubind = (0, {3}), last_cpu_location = (0, {3}),
      sched_getaffinity = (0, \<lambda>cpu. cpu = 3), sched_getcpu = 3, mckernel_answer = -1\<rparr>"

lemma demo_bound: "is_bound demo_binding a \<longleftrightarrow> a_cpuset a = {3} \<and> a_cpu a = 3"
  by (auto simp: is_bound_def demo_binding_def current_cpuset_hwloc_def current_cpu_hwloc_def bitmap_first_def
      current_cpuset_getaffinity_set current_cpu_getaffinity_def mck_is_mckernel_def CPU_SETSIZE_def)

theorem worker_binds_once_witness:
  "\<exists>a1 :: unit arg. \<exists>out1. worker_enter ''none'' demo_binding
      \<lparr>mb_work = None, mb_s = IDLE, a_cpuset = {3}, a_thread = 0, a_cpu = 3, a_run = True, a_init = False,
       a_dirigent = True, a_do_binding = True\<rparr> = (a1, out1) \<and> last out1 = Bound \<and>
    worker_enter ''none'' demo_binding a1 = (a1, [])"
proof -
  let ?a = "\<lparr>mb_work = None, mb_s = IDLE, a_cpuset = {3}, a_thread = 0, a_cpu = 3, a_run = True, a_init = False,
       a_dirigent = True, a_do_binding = True\<rparr> :: unit arg"
  obtain a1 out1 where a1: "worker_enter ''none'' demo_binding ?a = (a1, out1)" by fastforce
  obtain a2 out2 where a2: "worker_enter ''none'' demo_binding a1 = (a2, out2)" by fastforce
  from worker_binds_once [OF a1 a2] a1 a2 show ?thesis by (auto simp: demo_bound)
qed

end
