(* ===== verification/Policy.thy ===== *)
theory Policy
  imports Worker
begin

text \<open>
  How the main thread distributes one benchmark over the workers (\<open>run_in_parallel\<close>,
  \<open>run_one_by_one\<close> and \<open>run_two_benchmarks\<close> in \<open>src/main.cc\<close>). What a policy does
  with the mailboxes and the dirigent (worker 0, whose \<open>worker\<close> the main thread calls itself)
  is a script of commands; it runs interleaved with all the workers, each of which takes its item,
  prepares, waits at the barrier of the step, does its repetitions on the common array of results
  one by one, and hands the item back. The critical sections of the mailbox and the barrier are
  single steps here, as their own theories justify. The policies assert that thread 0 is the dirigent, and
\<open>run_one_by_one\<close> asks it of every thread; the threads of \<open>spawn_workers\<close> are so (theory \<open>Threads\<close>), and the
scripts say 0 where the code says dirigent.
\<close>

section \<open>The scripts of the policies\<close>

datatype cmd = Queue nat | Start | Join | Collect nat

definition run_in_parallel :: "nat \<Rightarrow> cmd list" where
  "run_in_parallel cpus = map Queue [0..<cpus] @ [Start, Join] @ map Collect [0..<cpus]"

definition run_one_by_one :: "nat \<Rightarrow> cmd list" where
  "run_one_by_one cpus =
     concat (map (\<lambda>i. Queue i # (if i = 0 then [Start, Join] else []) @ [Collect i]) [0..<cpus])"

definition run_two_benchmarks :: "nat \<Rightarrow> cmd list" where
  "run_two_benchmarks cpus = map Queue [0..<cpus] @ [Start, Join] @ map Collect [1..<cpus]"

text \<open>
  The work items that \<open>run_in_parallel\<close> and \<open>run_one_by_one\<close> fill in for worker \<open>i\<close>: the
  offset of its part of the results is a product of \<open>unsigned\<close>.
\<close>

definition work_item ::
  "('a, 'e) benchmark_t \<Rightarrow> u32 \<Rightarrow> string list \<Rightarrow> u32 \<Rightarrow> nat \<Rightarrow> ('a, 'e) work_t"
where
  "work_item bench repetitions names n i =
     \<lparr>w_ops = bench, w_arg = b_state bench, w_result = Some (unat (of_nat i * repetitions * n)),
      w_reps = repetitions, w_pmcs = names, w_num_pmcs = n - 1\<rparr>"

text \<open>In \<open>run_two_benchmarks\<close> the CPU of the worker decides which benchmark it runs.\<close>

definition pair_item ::
  "nat set \<Rightarrow> ('a, 'e) benchmark_t \<Rightarrow> ('a, 'e) benchmark_t \<Rightarrow> u32 \<Rightarrow> string list \<Rightarrow> u32 \<Rightarrow> (nat \<Rightarrow> u32) \<Rightarrow> nat
    \<Rightarrow> ('a, 'e) work_t"
where
  "pair_item set1 ops1 ops2 repetitions names n cpus i =
     work_item (if unat (cpus i) \<in> set1 then ops1 else ops2) repetitions names n i"

section \<open>The main thread and the workers\<close>

text \<open>
  Where a worker is: out of \<open>worker\<close> (only the dirigent), about to enter \<open>wait_for_work\<close>, in its
  loop, with an item in hand, at the barrier, or before its next repetition.
\<close>

datatype ('a, 'e, 'p) tpc =
    Off | Enter | Wait
  | Got "('a, 'e) work_t"
  | Bar "('a, 'e) work_t" 'a 'p
  | Rep "('a, 'e) work_t" 'a 'p nat

record ('a, 'e, 'p) sys =
  y_mb :: "nat \<Rightarrow> ('a, 'e) work_t mailbox"
  y_pc :: "nat \<Rightarrow> ('a, 'e, 'p) tpc"
  y_env :: "nat \<Rightarrow> 'e"          \<comment> \<open>each worker's part of the world\<close>
  y_data :: "u64 list"         \<comment> \<open>the results\<close>
  y_arrived :: "nat set"       \<comment> \<open>workers that have come to the barrier\<close>
  y_script :: "cmd list"       \<comment> \<open>what the main thread has still to do\<close>
  y_failed :: bool

inductive sys_step ::
  "('e, 'p) arch \<Rightarrow> (nat \<Rightarrow> u32) \<Rightarrow> (nat \<Rightarrow> ('a, 'e) work_t) \<Rightarrow> nat \<Rightarrow>
    ('a, 'e, 'p) sys \<Rightarrow> ('a, 'e, 'p) sys \<Rightarrow> bool"
  for arch cpus works lim
where
  queue: "y_script s = Queue i # cs \<Longrightarrow> queue_work (works i) (y_mb s i) = Inr mb \<Longrightarrow>
    sys_step arch cpus works lim s (s\<lparr>y_mb := (y_mb s)(i := mb), y_script := cs\<rparr>)"
| queue_fail: "y_script s = Queue i # cs \<Longrightarrow> queue_work (works i) (y_mb s i) = Inl x \<Longrightarrow>
    sys_step arch cpus works lim s (s\<lparr>y_failed := True\<rparr>)"
| start: "y_script s = Start # cs \<Longrightarrow> y_pc s 0 = Off \<Longrightarrow>
    sys_step arch cpus works lim s (s\<lparr>y_pc := (y_pc s)(0 := Enter), y_script := cs\<rparr>)"
| join: "y_script s = Join # cs \<Longrightarrow> y_pc s 0 = Off \<Longrightarrow>
    sys_step arch cpus works lim s (s\<lparr>y_script := cs\<rparr>)"
| collect: "y_script s = Collect i # cs \<Longrightarrow> wait_until_done (y_mb s i) = Some (w, mb) \<Longrightarrow>
    sys_step arch cpus works lim s (s\<lparr>y_mb := (y_mb s)(i := mb), y_script := cs\<rparr>)"
| enter: "y_pc s i = Enter \<Longrightarrow> wait_for_work_enter (y_mb s i) = Inr u \<Longrightarrow>
    sys_step arch cpus works lim s (s\<lparr>y_pc := (y_pc s)(i := Wait)\<rparr>)"
| enter_fail: "y_pc s i = Enter \<Longrightarrow> wait_for_work_enter (y_mb s i) = Inl x \<Longrightarrow>
    sys_step arch cpus works lim s (s\<lparr>y_failed := True\<rparr>)"
| take: "y_pc s i = Wait \<Longrightarrow> wait_for_work (y_mb s i) = Some (Some w, mb) \<Longrightarrow>
    sys_step arch cpus works lim s (s\<lparr>y_mb := (y_mb s)(i := mb), y_pc := (y_pc s)(i := Got w)\<rparr>)"
| prepare: "y_pc s i = Got w \<Longrightarrow> item_prepare arch (cpus i) w (y_env s i) = Inr (a, p, e) \<Longrightarrow>
    sys_step arch cpus works lim s (s\<lparr>y_pc := (y_pc s)(i := Bar w a p), y_env := (y_env s)(i := e),
      y_arrived := insert i (y_arrived s)\<rparr>)"
| prepare_fail: "y_pc s i = Got w \<Longrightarrow> item_prepare arch (cpus i) w (y_env s i) = Inl x \<Longrightarrow>
    sys_step arch cpus works lim s (s\<lparr>y_failed := True\<rparr>)"
| leave: "y_pc s i = Bar w a p \<Longrightarrow> lim \<le> card (y_arrived s) \<Longrightarrow>
    sys_step arch cpus works lim s (s\<lparr>y_pc := (y_pc s)(i := Rep w a p 0)\<rparr>)"
| rep: "y_pc s i = Rep w a p r \<Longrightarrow> r < unat (w_reps w) \<Longrightarrow>
    run_rep arch w p a (of_nat r) (y_data s, y_env s i) = Inr (d, e) \<Longrightarrow>
    sys_step arch cpus works lim s (s\<lparr>y_data := d, y_env := (y_env s)(i := e),
      y_pc := (y_pc s)(i := Rep w a p (Suc r))\<rparr>)"
| rep_fail: "y_pc s i = Rep w a p r \<Longrightarrow> r < unat (w_reps w) \<Longrightarrow>
    run_rep arch w p a (of_nat r) (y_data s, y_env s i) = Inl x \<Longrightarrow>
    sys_step arch cpus works lim s (s\<lparr>y_failed := True\<rparr>)"
| finish: "y_pc s i = Rep w a p r \<Longrightarrow> \<not> r < unat (w_reps w) \<Longrightarrow>
    arch_pmu_free arch p (y_env s i) = Inr e \<Longrightarrow> return_finished_work (Some w) (y_mb s i) = Inr mb \<Longrightarrow>
    sys_step arch cpus works lim s (s\<lparr>y_mb := (y_mb s)(i := mb), y_env := (y_env s)(i := e),
      y_pc := (y_pc s)(i := (if i = 0 then Off else Enter))\<rparr>)"
| finish_fail: "y_pc s i = Rep w a p r \<Longrightarrow> \<not> r < unat (w_reps w) \<Longrightarrow>
    arch_pmu_free arch p (y_env s i) = Inl x \<or> return_finished_work (Some w) (y_mb s i) = Inl x \<Longrightarrow>
    sys_step arch cpus works lim s (s\<lparr>y_failed := True\<rparr>)"

text \<open>
  Between two policies the mailboxes are empty, the workers wait or are about to, and the dirigent
  is not running. A policy starts there, with a new array for the results, a new barrier and its
  script.
\<close>

definition at_rest :: "nat \<Rightarrow> ('a, 'e, 'p) sys \<Rightarrow> bool" where
  "at_rest n s \<longleftrightarrow> \<not> y_failed s \<and> (\<forall>i < n. mb_work (y_mb s i) = None \<and> mb_s (y_mb s i) = IDLE) \<and>
     (\<forall>i. if 0 < i \<and> i < n then y_pc s i = Enter \<or> y_pc s i = Wait else y_pc s i = Off)"

definition begin_policy :: "cmd list \<Rightarrow> u64 list \<Rightarrow> ('a, 'e, 'p) sys \<Rightarrow> ('a, 'e, 'p) sys" where
  "begin_policy script d s = s\<lparr>y_data := d, y_arrived := {}, y_script := script\<rparr>"

definition workers_start :: "nat \<Rightarrow> (nat \<Rightarrow> 'e) \<Rightarrow> ('a, 'e, 'p) sys" where
  "workers_start n env =
     \<lparr>y_mb = (\<lambda>_. \<lparr>mb_work = None, mb_s = IDLE\<rparr>), y_pc = (\<lambda>i. if 0 < i \<and> i < n then Enter else Off),
      y_env = env, y_data = [], y_arrived = {}, y_script = [], y_failed = False\<rparr>"

definition policy_start :: "nat \<Rightarrow> cmd list \<Rightarrow> (nat \<Rightarrow> 'e) \<Rightarrow> u64 list \<Rightarrow> ('a, 'e, 'p) sys" where
  "policy_start n script env d = begin_policy script d (workers_start n env)"

lemma workers_start_rest: "at_rest n (workers_start n env)"
  by (simp add: at_rest_def workers_start_def)

section \<open>Scripts that fit\<close>

text \<open>
  What a script must be like for its run to end: a worker gets its item once and before it is
  asked for it, the dirigent's item is queued before the dirigent starts, and the main thread
  waits for others only when every item is out, or the barrier is for one.
\<close>

fun script_ok :: "nat \<Rightarrow> nat \<Rightarrow> cmd list \<Rightarrow> bool" where
  "script_ok n lim [] = True"
| "script_ok n lim (Queue i # cs) = (i < n \<and> Queue i \<notin> set cs \<and> script_ok n lim cs)"
| "script_ok n lim (Start # cs) =
     (Start \<notin> set cs \<and> Queue 0 \<notin> set cs \<and> Join \<in> set cs \<and> script_ok n lim cs)"
| "script_ok n lim (Join # cs) =
     (Start \<notin> set cs \<and> Join \<notin> set cs \<and> Queue 0 \<notin> set cs \<and>
      (lim = 1 \<or> (\<forall>i < n. Queue i \<notin> set cs)) \<and> script_ok n lim cs)"
| "script_ok n lim (Collect i # cs) =
     (i < n \<and> Queue i \<notin> set cs \<and> Collect i \<notin> set cs \<and> Start \<notin> set cs \<and> Join \<notin> set cs \<and>
      (lim = 1 \<or> (\<forall>i < n. Queue i \<notin> set cs)) \<and> script_ok n lim cs)"

lemma script_ok_collects:
  "distinct is \<Longrightarrow> \<forall>i \<in> set is. i < n \<Longrightarrow> script_ok n lim (map Collect is)"
  by (induction "is") auto

lemma script_ok_queues:
  "distinct is \<Longrightarrow> \<forall>i \<in> set is. i < n \<and> Queue i \<notin> set cs \<Longrightarrow> script_ok n lim cs \<Longrightarrow>
    script_ok n lim (map Queue is @ cs)"
  by (induction "is") auto

lemma run_in_parallel_ok: "script_ok n lim (run_in_parallel n)"
  unfolding run_in_parallel_def
  by (rule script_ok_queues) (auto intro: script_ok_collects)

lemma run_two_benchmarks_ok: "script_ok n lim (run_two_benchmarks n)"
  unfolding run_two_benchmarks_def
  by (rule script_ok_queues) (auto intro: script_ok_collects)

lemma one_by_one_tail:
  "k \<le> n \<Longrightarrow> script_ok n 1 (concat (map (\<lambda>i. Queue i # (if i = 0 then [Start, Join] else []) @ [Collect i]) [k..<n]))"
proof (induction "n - k" arbitrary: k)
  case (Suc x)
  then have "[k..<n] = k # [Suc k..<n]" by (simp add: upt_conv_Cons)
  with Suc show ?case by auto
qed simp

lemma run_one_by_one_ok: "script_ok n 1 (run_one_by_one n)"
  unfolding run_one_by_one_def by (rule one_by_one_tail) simp

lemma script_queues:
  "Queue i \<in> set (run_in_parallel n) \<longleftrightarrow> i < n" "Queue i \<in> set (run_one_by_one n) \<longleftrightarrow> i < n"
  "Queue i \<in> set (run_two_benchmarks n) \<longleftrightarrow> i < n"
  by (auto simp: run_in_parallel_def run_one_by_one_def run_two_benchmarks_def)

lemma script_collects:
  "Collect i \<in> set (run_in_parallel n) \<longleftrightarrow> i < n" "Collect i \<in> set (run_one_by_one n) \<longleftrightarrow> i < n"
  "Collect i \<in> set (run_two_benchmarks n) \<longleftrightarrow> 0 < i \<and> i < n"
  by (auto simp: run_in_parallel_def run_one_by_one_def run_two_benchmarks_def)

lemma script_start:
  "Start \<in> set (run_in_parallel n)" "0 < n \<Longrightarrow> Start \<in> set (run_one_by_one n)"
  "Start \<in> set (run_two_benchmarks n)"
  by (auto simp: run_in_parallel_def run_one_by_one_def run_two_benchmarks_def)

end
