(* ===== verification/Policy_Proofs.thy ===== *)
theory Policy_Proofs
  imports Policy
begin

text \<open>
  The policies on any performance counters that keep the contract of the worker: the invariant of
  the main thread and the workers, progress, and what the results are at the end.
\<close>

section \<open>The plan of a run\<close>

text \<open>
  What a run starts from (number of workers, barrier limit, items, CPUs, worlds, results, script)
  and, for each worker, what the preparation of its item gives and its world at the end.
\<close>

record ('a, 'e, 'p) plan =
  pl_n :: nat
  pl_lim :: nat
  pl_works :: "nat \<Rightarrow> ('a, 'e) work_t"
  pl_cpus :: "nat \<Rightarrow> u32"
  pl_env :: "nat \<Rightarrow> 'e"
  pl_data :: "u64 list"
  pl_script :: "cmd list"
  pl_arg :: "nat \<Rightarrow> 'a"
  pl_pmu :: "nat \<Rightarrow> 'p"
  pl_prep :: "nat \<Rightarrow> 'e"
  pl_end :: "nat \<Rightarrow> 'e"

abbreviation "base pl i \<equiv> the (w_result (pl_works pl i))"
abbreviation "rowlen pl i \<equiv> Suc (unat (w_num_pmcs (pl_works pl i)))"
abbreviation "nreps pl i \<equiv> unat (w_reps (pl_works pl i))"
abbreviation "seg pl i \<equiv> rowlen pl i * nreps pl i"
abbreviation "empty_mb mb \<equiv> mb_work mb = None \<and> mb_s mb = IDLE"

lemma part_patch_inner:
  "m + length r \<le> n \<Longrightarrow> k + n \<le> length d \<Longrightarrow> part k n (patch (k + m) r d) = patch m r (part k n d)"
  by (rule nth_equalityI) (auto simp: nth_patch)

text \<open>The run is over when the script is done; the measure that every step lowers.\<close>

definition worker_fuel :: "('a, 'e, 'p) plan \<Rightarrow> ('a, 'e, 'p) sys \<Rightarrow> nat \<Rightarrow> nat" where
  "worker_fuel pl s i =
     (if i \<notin> y_arrived s
      then (case y_pc s i of Got _ \<Rightarrow> nreps pl i + 5 | Wait \<Rightarrow> nreps pl i + 6 | _ \<Rightarrow> nreps pl i + 7)
      else (case y_pc s i of Bar _ _ _ \<Rightarrow> nreps pl i + 4 | Rep _ _ _ r \<Rightarrow> nreps pl i + 3 - r
            | Enter \<Rightarrow> 1 | _ \<Rightarrow> 0))"

definition sys_fuel :: "('a, 'e, 'p) plan \<Rightarrow> ('a, 'e, 'p) sys \<Rightarrow> nat" where
  "sys_fuel pl s = (\<Sum>i < pl_n pl. worker_fuel pl s i) + length (y_script s)"

text \<open>It depends on the number of workers and on their items only.\<close>

definition run_fuel :: "nat \<Rightarrow> (nat \<Rightarrow> ('a, 'e) work_t) \<Rightarrow> ('a, 'e, 'p) sys \<Rightarrow> nat" where
  "run_fuel n works s =
     (\<Sum>i < n. if i \<notin> y_arrived s
        then (case y_pc s i of Got _ \<Rightarrow> unat (w_reps (works i)) + 5 | Wait \<Rightarrow> unat (w_reps (works i)) + 6
              | _ \<Rightarrow> unat (w_reps (works i)) + 7)
        else (case y_pc s i of Bar _ _ _ \<Rightarrow> unat (w_reps (works i)) + 4
              | Rep _ _ _ r \<Rightarrow> unat (w_reps (works i)) + 3 - r | Enter \<Rightarrow> 1 | _ \<Rightarrow> 0)) + length (y_script s)"

lemma sys_fuel_run: "sys_fuel pl s = run_fuel (pl_n pl) (pl_works pl) s"
  by (simp add: sys_fuel_def worker_fuel_def run_fuel_def)

lemma run_fuel_begin:
  "run_fuel n works (begin_policy script d s) \<le> (\<Sum>i < n. unat (w_reps (works i)) + 7) + length script"
  unfolding run_fuel_def begin_policy_def
  by (simp, rule sum_mono) (simp split: tpc.split)

definition sys_final :: "('a, 'e, 'p) sys \<Rightarrow> bool" where
  "sys_final s \<longleftrightarrow> y_script s = []"

lemma sum_one_less:
  fixes f g :: "nat \<Rightarrow> nat"
  assumes "i < n" and "f i < g i" and "\<And>j. j \<noteq> i \<Longrightarrow> f j = g j"
  shows "(\<Sum>j < n. f j) < (\<Sum>j < n. g j)"
proof -
  have "f j \<le> g j" for j using assms(2,3) by (cases "j = i") auto
  then show ?thesis using assms(1,2) by (intro sum_strict_mono_ex1) auto
qed

context pmu_contract
begin

definition refrows :: "('a, 'e, 'p) plan \<Rightarrow> nat \<Rightarrow> nat \<Rightarrow> u64 list list \<times> 'e" where
  "refrows pl i r = rows (pl_works pl i) (pl_pmu pl i) (pl_arg pl i) (base pl i) (pl_data pl) (pl_prep pl i) r"

definition image :: "('a, 'e, 'p) plan \<Rightarrow> nat \<Rightarrow> nat \<Rightarrow> u64 list" where
  "image pl i r = part (base pl i) (seg pl i) (patch (base pl i) (concat (fst (refrows pl i r))) (pl_data pl))"

definition plan_ok :: "('a, 'e, 'p) plan \<Rightarrow> bool" where
  "plan_ok pl \<longleftrightarrow>
     0 < pl_n pl \<and> (pl_lim pl = 1 \<or> pl_lim pl = pl_n pl) \<and>
     script_ok (pl_n pl) (pl_lim pl) (pl_script pl) \<and>
     (\<forall>i < pl_n pl. Queue i \<in> set (pl_script pl)) \<and> Start \<in> set (pl_script pl) \<and>
     (\<forall>i < pl_n pl. w_result (pl_works pl i) \<noteq> None \<and> seg pl i < 2 ^ 32 \<and>
        base pl i + seg pl i \<le> length (pl_data pl) \<and>
        item_prepare arch (pl_cpus pl i) (pl_works pl i) (pl_env pl i) =
          Inr (pl_arg pl i, pl_pmu pl i, pl_prep pl i) \<and>
        arch_pmu_free arch (pl_pmu pl i) (snd (refrows pl i (nreps pl i))) = Inr (pl_end pl i)) \<and>
     (\<forall>i < pl_n pl. \<forall>j < pl_n pl. i \<noteq> j \<longrightarrow>
        base pl i + seg pl i \<le> base pl j \<or> base pl j + seg pl j \<le> base pl i)"

lemma plan_okD:
  assumes "plan_ok pl" and "i < pl_n pl"
  shows "w_result (pl_works pl i) = Some (base pl i)" and "seg pl i < 2 ^ 32"
    and "base pl i + seg pl i \<le> length (pl_data pl)"
    and "item_prepare arch (pl_cpus pl i) (pl_works pl i) (pl_env pl i) =
          Inr (pl_arg pl i, pl_pmu pl i, pl_prep pl i)"
    and "arch_pmu_free arch (pl_pmu pl i) (snd (refrows pl i (nreps pl i))) = Inr (pl_end pl i)"
    and "width (pl_pmu pl i) \<le> unat (w_num_pmcs (pl_works pl i))"
proof -
  show "w_result (pl_works pl i) = Some (base pl i)" "seg pl i < 2 ^ 32"
    "base pl i + seg pl i \<le> length (pl_data pl)"
    "arch_pmu_free arch (pl_pmu pl i) (snd (refrows pl i (nreps pl i))) = Inr (pl_end pl i)"
    and p: "item_prepare arch (pl_cpus pl i) (pl_works pl i) (pl_env pl i) =
          Inr (pl_arg pl i, pl_pmu pl i, pl_prep pl i)"
    using assms by (auto simp: plan_ok_def)
  from p show "width (pl_pmu pl i) \<le> unat (w_num_pmcs (pl_works pl i))"
    by (auto simp: item_prepare_def and_then_Inr_iff split_def Let_def dest: pmu_init)
qed

lemma plan_ok_apart:
  "plan_ok pl \<Longrightarrow> i < pl_n pl \<Longrightarrow> j < pl_n pl \<Longrightarrow> i \<noteq> j \<Longrightarrow>
    base pl i + seg pl i \<le> base pl j \<or> base pl j + seg pl j \<le> base pl i"
  by (simp add: plan_ok_def)

text \<open>One repetition of worker \<open>i\<close> moves its own part of the results on, and no other's.\<close>

lemma image_step:
  assumes ok: "plan_ok pl" and i: "i < pl_n pl" and r: "r < nreps pl i"
    and d: "length d = length (pl_data pl)" "part (base pl i) (seg pl i) d = image pl i r"
    and e: "e = snd (refrows pl i r)"
  shows "\<exists>d'. run_rep arch (pl_works pl i) (pl_pmu pl i) (pl_arg pl i) (of_nat r) (d, e) =
      Inr (d', snd (refrows pl i (Suc r))) \<and>
    length d' = length d \<and> part (base pl i) (seg pl i) d' = image pl i (Suc r) \<and>
    (\<forall>j < pl_n pl. j \<noteq> i \<longrightarrow> part (base pl j) (seg pl j) d' = part (base pl j) (seg pl j) d)"
proof -
  note w = plan_okD [OF ok i]
  let ?b = "base pl i" and ?n = "rowlen pl i" and ?N = "seg pl i" and ?D = "pl_data pl"
  let ?m = "?b + ?n * r"
  have le: "?n * Suc r \<le> ?N" using r by (intro mult_le_mono2) simp
  obtain rs e1 where rr: "refrows pl i r = (rs, e1)" by fastforce
  have sh: "length rs = r" "\<forall>x \<in> set rs. length x = ?n"
    using rows_shape [OF w(6), of ?b r ?D "pl_arg pl i" "pl_prep pl i"] rr le w(3)
    by (simp_all add: refrows_def)
  have l: "length (concat rs) = ?n * r"
    using length_concat_rows [OF sh(2)] sh(1) by (simp add: mult.commute)
  have pm: "part ?m ?n d = part ?m ?n ?D"
  proof -
    have "part ?m ?n x = part (?n * r) ?n (part ?b ?N x)" for x :: "u64 list"
      using part_part [of "?n * r" ?n ?N ?b x] le by simp
    then have "part ?m ?n d = part ?m ?n (patch ?b (concat rs) ?D)"
      using d(2) rr by (metis image_def fst_conv)
    also have "\<dots> = part ?m ?n ?D"
      by (rule part_patch_disjoint) (use l le w(3) in simp_all)
    finally show ?thesis .
  qed
  obtain r2 e2 where r2: "row_rep (pl_works pl i) (pl_pmu pl i) (pl_arg pl i) (part ?m ?n ?D, e1) = (r2, e2)"
    by fastforce
  have l2: "length r2 = ?n"
    using length_row_rep [of "pl_pmu pl i" "part ?m ?n ?D" "pl_works pl i" "pl_arg pl i" e1] r2 w(3,6) le
    by simp
  have off: "?m = ?b + rep_offset (w_num_pmcs (pl_works pl i)) (of_nat r)"
    using rep_offset_eq [of "w_num_pmcs (pl_works pl i)" r] le w(2) by simp
  have run: "run_rep arch (pl_works pl i) (pl_pmu pl i) (pl_arg pl i) (of_nat r) (d, e) = Inr (patch ?m r2 d, e2)"
    using run_rep_row [OF w(1,6) off, of d "pl_arg pl i" e] d(1) le w(3) pm r2 e rr by simp
  have nx: "refrows pl i (Suc r) = (rs @ [r2], e2)"
    using rr r2 by (simp add: refrows_def Let_def)
  have "part ?b ?N (patch ?m r2 d) = patch (?n * r) r2 (part ?b ?N d)"
    by (rule part_patch_inner) (use l2 le w(3) d(1) in simp_all)
  also have "\<dots> = patch (?n * r) r2 (part ?b ?N (patch ?b (concat rs) ?D))"
    using d(2) rr by (simp add: image_def)
  also have "\<dots> = part ?b ?N (patch ?m r2 (patch ?b (concat rs) ?D))"
    by (rule part_patch_inner [symmetric]) (use l l2 le w(3) in simp_all)
  also have "\<dots> = image pl i (Suc r)"
    using patch_append [of ?b "concat rs" r2 ?D] l l2 le w(3) nx by (simp add: image_def)
  finally have own: "part ?b ?N (patch ?m r2 d) = image pl i (Suc r)" .
  have "part (base pl j) (seg pl j) (patch ?m r2 d) = part (base pl j) (seg pl j) d"
    if "j < pl_n pl" "j \<noteq> i" for j
    by (rule part_patch_disjoint)
      (use plan_ok_apart [OF ok i that(1)] that(2) plan_okD(3) [OF ok that(1)] l2 le w(3) d(1) in auto)
  then show ?thesis using run nx own l2 le w(3) d(1) by (intro exI [of _ "patch ?m r2 d"]) simp
qed

section \<open>The invariant\<close>

definition own :: "('a, 'e, 'p) plan \<Rightarrow> ('a, 'e, 'p) sys \<Rightarrow> nat \<Rightarrow> u64 list" where
  "own pl s i = part (base pl i) (seg pl i) (y_data s)"

text \<open>Not started; finished; and how far a worker with its item is.\<close>

definition fresh :: "('a, 'e, 'p) plan \<Rightarrow> ('a, 'e, 'p) sys \<Rightarrow> nat \<Rightarrow> bool" where
  "fresh pl s i \<longleftrightarrow> i \<notin> y_arrived s \<and> y_env s i = pl_env pl i \<and> own pl s i = image pl i 0 \<and>
     (if i = 0 \<and> Start \<in> set (y_script s) then y_pc s i = Off else y_pc s i = Enter \<or> y_pc s i = Wait)"

definition finished :: "('a, 'e, 'p) plan \<Rightarrow> ('a, 'e, 'p) sys \<Rightarrow> nat \<Rightarrow> bool" where
  "finished pl s i \<longleftrightarrow> i \<in> y_arrived s \<and> y_env s i = pl_end pl i \<and> own pl s i = image pl i (nreps pl i) \<and>
     (i = 0 \<longrightarrow> Start \<notin> set (y_script s)) \<and>
     (if i = 0 then y_pc s i = Off else y_pc s i = Enter \<or> y_pc s i = Wait)"

definition working :: "('a, 'e, 'p) plan \<Rightarrow> ('a, 'e, 'p) sys \<Rightarrow> nat \<Rightarrow> bool" where
  "working pl s i \<longleftrightarrow> (i = 0 \<longrightarrow> Start \<notin> set (y_script s)) \<and>
     (case y_pc s i of
        Got w \<Rightarrow> w = pl_works pl i \<and> i \<notin> y_arrived s \<and> y_env s i = pl_env pl i \<and> own pl s i = image pl i 0
      | Bar w a p \<Rightarrow> w = pl_works pl i \<and> a = pl_arg pl i \<and> p = pl_pmu pl i \<and> i \<in> y_arrived s \<and>
          y_env s i = pl_prep pl i \<and> own pl s i = image pl i 0
      | Rep w a p r \<Rightarrow> w = pl_works pl i \<and> a = pl_arg pl i \<and> p = pl_pmu pl i \<and> i \<in> y_arrived s \<and>
          r \<le> nreps pl i \<and> y_env s i = snd (refrows pl i r) \<and> own pl s i = image pl i r
      | _ \<Rightarrow> False)"

definition busy :: "('a, 'e, 'p) plan \<Rightarrow> ('a, 'e, 'p) sys \<Rightarrow> nat \<Rightarrow> bool" where
  "busy pl s i \<longleftrightarrow>
     (case mb_s (y_mb s i) of
        IDLE \<Rightarrow> False
      | QUEUED \<Rightarrow> mb_work (y_mb s i) = Some (pl_works pl i) \<and> fresh pl s i
      | WORKING \<Rightarrow> mb_work (y_mb s i) = None \<and> working pl s i
      | DONE \<Rightarrow> mb_work (y_mb s i) = Some (pl_works pl i) \<and> finished pl s i)"

definition open_end :: "('a, 'e, 'p) plan \<Rightarrow> ('a, 'e, 'p) sys \<Rightarrow> nat \<Rightarrow> bool" where
  "open_end pl s i \<longleftrightarrow> Collect i \<in> set (y_script s) \<or> Collect i \<notin> set (pl_script pl)"

definition worker_ok :: "('a, 'e, 'p) plan \<Rightarrow> ('a, 'e, 'p) sys \<Rightarrow> nat \<Rightarrow> bool" where
  "worker_ok pl s i \<longleftrightarrow>
     (if Queue i \<in> set (y_script s) then empty_mb (y_mb s i) \<and> fresh pl s i \<and> open_end pl s i
      else if open_end pl s i then busy pl s i
      else empty_mb (y_mb s i) \<and> finished pl s i)"

definition sys_inv :: "('a, 'e, 'p) plan \<Rightarrow> ('a, 'e, 'p) sys \<Rightarrow> bool" where
  "sys_inv pl s \<longleftrightarrow> plan_ok pl \<and> \<not> y_failed s \<and> length (y_data s) = length (pl_data pl) \<and>
     script_ok (pl_n pl) (pl_lim pl) (y_script s) \<and> y_arrived s \<subseteq> {..<pl_n pl} \<and>
     set (y_script s) \<subseteq> set (pl_script pl) \<and>
     (\<forall>i. i < pl_n pl \<longrightarrow> worker_ok pl s i) \<and> (\<forall>i \<ge> pl_n pl. y_pc s i = Off) \<and>
     (Start \<notin> set (y_script s) \<and> Join \<notin> set (y_script s) \<longrightarrow> y_pc s 0 = Off)"

definition sys_start :: "('a, 'e, 'p) plan \<Rightarrow> ('a, 'e, 'p) sys \<Rightarrow> bool" where
  "sys_start pl s \<longleftrightarrow> plan_ok pl \<and>
     (\<exists>s0. at_rest (pl_n pl) s0 \<and> y_env s0 = pl_env pl \<and> s = begin_policy (pl_script pl) (pl_data pl) s0)"

abbreviation "pstep pl \<equiv> sys_step arch (pl_cpus pl) (pl_works pl) (pl_lim pl)"

lemma worker_ok_frame:
  assumes "worker_ok pl s i"
    and "y_mb t i = y_mb s i" "y_pc t i = y_pc s i" "y_env t i = y_env s i" "own pl t i = own pl s i"
    and "i \<in> y_arrived t \<longleftrightarrow> i \<in> y_arrived s"
    and "Queue i \<in> set (y_script t) \<longleftrightarrow> Queue i \<in> set (y_script s)"
    and "Collect i \<in> set (y_script t) \<longleftrightarrow> Collect i \<in> set (y_script s)"
    and "i = 0 \<Longrightarrow> Start \<in> set (y_script t) \<longleftrightarrow> Start \<in> set (y_script s)"
  shows "worker_ok pl t i"
proof -
  have "(i = 0 \<longrightarrow> Start \<notin> set (y_script t)) \<longleftrightarrow> (i = 0 \<longrightarrow> Start \<notin> set (y_script s))"
    and "(i = 0 \<and> Start \<in> set (y_script t)) \<longleftrightarrow> (i = 0 \<and> Start \<in> set (y_script s))"
    using assms(9) by auto
  then show ?thesis
    using assms(1)
    by (simp only: worker_ok_def open_end_def busy_def working_def fresh_def finished_def assms(2-8))
qed

text \<open>
  A step that concerns worker \<open>i\<close> alone: the others' data, mailboxes and places stay.
\<close>

lemma sys_inv_one:
  assumes "sys_inv pl s" and "i < pl_n pl"
    and "\<And>j. j \<noteq> i \<Longrightarrow> y_mb t j = y_mb s j \<and> y_pc t j = y_pc s j \<and> y_env t j = y_env s j"
    and "\<And>j. j < pl_n pl \<Longrightarrow> j \<noteq> i \<Longrightarrow> own pl t j = own pl s j"
    and "y_arrived t = y_arrived s \<or> y_arrived t = insert i (y_arrived s)"
    and "y_script t = y_script s" and "\<not> y_failed t" and "length (y_data t) = length (y_data s)"
    and "worker_ok pl t i"
    and "i = 0 \<Longrightarrow> Start \<notin> set (y_script s) \<and> Join \<notin> set (y_script s) \<Longrightarrow> y_pc t 0 = Off"
  shows "sys_inv pl t"
proof -
  have "worker_ok pl t j" if "j < pl_n pl" for j
  proof (cases "j = i")
    case False
    then show ?thesis
      using assms(1) that assms(3) [OF False] assms(4) [OF that False] assms(5,6)
      by (intro worker_ok_frame [of pl s j t]) (auto simp: sys_inv_def)
  qed (use assms(9) in simp)
  moreover have "y_pc t j = Off" if "pl_n pl \<le> j" for j
    using assms(1-3) that by (simp add: sys_inv_def)
  moreover have "y_pc t 0 = Off" if "Start \<notin> set (y_script s)" "Join \<notin> set (y_script s)"
    using assms(1,3,10) that by (cases "i = 0") (simp_all add: sys_inv_def)
  moreover have "y_arrived t \<subseteq> {..<pl_n pl}" using assms(1,2,5) by (auto simp: sys_inv_def)
  ultimately show ?thesis using assms(1,6,7,8) by (simp add: sys_inv_def)
qed

lemma sys_invD:
  assumes "sys_inv pl s"
  shows "plan_ok pl" and "\<not> y_failed s" and "length (y_data s) = length (pl_data pl)"
    and "script_ok (pl_n pl) (pl_lim pl) (y_script s)" and "i < pl_n pl \<Longrightarrow> worker_ok pl s i"
    and "pl_n pl \<le> i \<Longrightarrow> y_pc s i = Off"
    and "Start \<notin> set (y_script s) \<Longrightarrow> Join \<notin> set (y_script s) \<Longrightarrow> y_pc s 0 = Off"
  using assms by (simp_all add: sys_inv_def)

lemma running_index:
  assumes "sys_inv pl s" and "y_pc s i \<noteq> Off"
  shows "i < pl_n pl" and "worker_ok pl s i"
  using sys_invD(6) [OF assms(1), of i] sys_invD(5) [OF assms(1), of i] assms(2) by fastforce+

lemma sys_start_inv:
  assumes "sys_start pl s"
  shows "sys_inv pl s"
proof -
  obtain s0 where ok: "plan_ok pl" and s0: "at_rest (pl_n pl) s0" "y_env s0 = pl_env pl"
    and s: "s = begin_policy (pl_script pl) (pl_data pl) s0"
    using assms by (auto simp: sys_start_def)
  have scr: "y_script s = pl_script pl" "Start \<in> set (pl_script pl)" using ok by (simp_all add: s begin_policy_def plan_ok_def)
  have "worker_ok pl s i" if "i < pl_n pl" for i
  proof -
    have "Queue i \<in> set (y_script s)" using ok that scr by (simp add: plan_ok_def)
    moreover have "empty_mb (y_mb s i)" using s0(1) that by (simp add: s begin_policy_def at_rest_def)
    moreover have "fresh pl s i"
      using s0 that scr(2)
      by (simp add: fresh_def s begin_policy_def at_rest_def own_def image_def refrows_def)
    ultimately show ?thesis by (simp add: worker_ok_def open_end_def scr)
  qed
  moreover have "y_pc s i = Off" if "i = 0 \<or> pl_n pl \<le> i" for i
    using s0(1) that by (simp add: s begin_policy_def at_rest_def) (metis not_less0 leD)
  moreover have "\<not> y_failed s" "length (y_data s) = length (pl_data pl)" "y_arrived s = {}"
    using s0(1) by (simp_all add: s begin_policy_def at_rest_def)
  ultimately show ?thesis using ok scr by (simp add: sys_inv_def plan_ok_def)
qed

text \<open>What the place of a worker says about its mailbox.\<close>

lemma worker_place:
  assumes "sys_inv pl s" and "i < pl_n pl"
  shows "mb_s (y_mb s i) = WORKING \<longleftrightarrow> (case y_pc s i of Got _ \<Rightarrow> True | Bar _ _ _ \<Rightarrow> True | Rep _ _ _ _ \<Rightarrow> True | _ \<Rightarrow> False)"
    and "mb_s (y_mb s i) = WORKING \<Longrightarrow> Queue i \<notin> set (y_script s) \<and> open_end pl s i \<and> working pl s i \<and> mb_work (y_mb s i) = None"
    and "mb_s (y_mb s i) = QUEUED \<Longrightarrow> Queue i \<notin> set (y_script s) \<and> open_end pl s i \<and> fresh pl s i \<and>
      mb_work (y_mb s i) = Some (pl_works pl i)"
    and "mb_s (y_mb s i) = DONE \<Longrightarrow> Queue i \<notin> set (y_script s) \<and> open_end pl s i \<and> finished pl s i"
  using sys_invD(5) [OF assms]
  by (auto simp: worker_ok_def busy_def working_def fresh_def finished_def split: if_splits state.splits tpc.splits)

text \<open>The steps of the main thread.\<close>

lemma queue_inv:
  assumes inv: "sys_inv pl s" and c: "y_script s = Queue i # cs"
    and q: "queue_work (pl_works pl i) (y_mb s i) = x"
  shows "\<exists>mb. x = Inr mb \<and> sys_inv pl (s\<lparr>y_mb := (y_mb s)(i := mb), y_script := cs\<rparr>)"
proof -
  have i: "i < pl_n pl" "Queue i \<notin> set cs" using sys_invD(4) [OF inv] c by simp_all
  have w: "empty_mb (y_mb s i)" "fresh pl s i" "open_end pl s i"
    using sys_invD(5) [OF inv i(1)] c by (simp_all add: worker_ok_def)
  let ?mb = "(y_mb s i)\<lparr>mb_work := Some (pl_works pl i), mb_s := QUEUED\<rparr>"
  let ?t = "s\<lparr>y_mb := (y_mb s)(i := ?mb), y_script := cs\<rparr>"
  have x: "x = Inr ?mb" using q w(1) by (simp add: queue_work_def)
  have "worker_ok pl ?t j" if "j < pl_n pl" for j
  proof (cases "j = i")
    case True
    with w c i(2) show ?thesis
      by (auto simp: worker_ok_def open_end_def busy_def fresh_def own_def split: if_splits)
  next
    case False
    then show ?thesis
      by (intro worker_ok_frame [OF sys_invD(5) [OF inv that], of ?t]) (simp_all add: c own_def)
  qed
  with inv c have "sys_inv pl ?t" by (simp add: sys_inv_def)
  with x show ?thesis by blast
qed

lemma start_inv:
  assumes inv: "sys_inv pl s" and c: "y_script s = Start # cs"
  shows "sys_inv pl (s\<lparr>y_pc := (y_pc s)(0 := Enter), y_script := cs\<rparr>)"
proof -
  have n: "0 < pl_n pl" using sys_invD(1) [OF inv] by (simp add: plan_ok_def)
  have sc: "Start \<notin> set cs" "Queue 0 \<notin> set cs" "Join \<in> set cs" using sys_invD(4) [OF inv] c by simp_all
  let ?t = "s\<lparr>y_pc := (y_pc s)(0 := Enter), y_script := cs\<rparr>"
  have "worker_ok pl s 0" by (rule sys_invD(5) [OF inv n])
  then have "worker_ok pl ?t 0"
    using c sc by (auto simp: worker_ok_def open_end_def busy_def working_def fresh_def finished_def own_def
        split: if_splits state.splits)
  moreover have "worker_ok pl ?t j" if "j < pl_n pl" "j \<noteq> 0" for j
    by (intro worker_ok_frame [OF sys_invD(5) [OF inv that(1)], of ?t]) (use that(2) in \<open>simp_all add: c own_def\<close>)
  ultimately show ?thesis using inv c n sc by (auto simp: sys_inv_def)
qed

lemma join_inv:
  assumes inv: "sys_inv pl s" and c: "y_script s = Join # cs" and o: "y_pc s 0 = Off"
  shows "sys_inv pl (s\<lparr>y_script := cs\<rparr>)"
proof -
  have "worker_ok pl (s\<lparr>y_script := cs\<rparr>) j" if "j < pl_n pl" for j
    by (intro worker_ok_frame [OF sys_invD(5) [OF inv that]]) (simp_all add: c own_def)
  with inv c o show ?thesis by (simp add: sys_inv_def)
qed

lemma collect_inv:
  assumes inv: "sys_inv pl s" and c: "y_script s = Collect i # cs"
    and w: "wait_until_done (y_mb s i) = Some (w, mb)"
  shows "sys_inv pl (s\<lparr>y_mb := (y_mb s)(i := mb), y_script := cs\<rparr>)"
proof -
  have i: "i < pl_n pl" "Collect i \<notin> set cs" using sys_invD(4) [OF inv] c by simp_all
  have mb: "mb_s (y_mb s i) = DONE" "empty_mb mb" using w by (auto simp: wait_until_done_def split: if_splits)
  have f: "Queue i \<notin> set (y_script s)" "finished pl s i" using worker_place(4) [OF inv i(1) mb(1)] by simp_all
  have o: "Collect i \<in> set (pl_script pl)" using inv c by (auto simp: sys_inv_def)
  let ?t = "s\<lparr>y_mb := (y_mb s)(i := mb), y_script := cs\<rparr>"
  have "worker_ok pl ?t j" if "j < pl_n pl" for j
  proof (cases "j = i")
    case True
    with f mb(2) o i(2) c show ?thesis
      by (auto simp: worker_ok_def open_end_def finished_def own_def split: if_splits)
  next
    case False
    then show ?thesis
      by (intro worker_ok_frame [OF sys_invD(5) [OF inv that], of ?t]) (simp_all add: c own_def)
  qed
  with inv c show ?thesis by (simp add: sys_inv_def)
qed

text \<open>The steps of a worker.\<close>

lemma enter_inv:
  assumes inv: "sys_inv pl s" and pc: "y_pc s i = Enter" and x: "wait_for_work_enter (y_mb s i) = x"
  shows "x = Inr () \<and> sys_inv pl (s\<lparr>y_pc := (y_pc s)(i := Wait)\<rparr>)"
proof
  have i: "i < pl_n pl" "worker_ok pl s i" using running_index [OF inv, of i] pc by simp_all
  show "x = Inr ()" using worker_place(1) [OF inv i(1)] pc x by (simp add: wait_for_work_enter_def)
  have "worker_ok pl (s\<lparr>y_pc := (y_pc s)(i := Wait)\<rparr>) i"
    using i(2) pc
    by (auto simp: worker_ok_def open_end_def busy_def working_def fresh_def finished_def own_def
        split: if_splits state.splits)
  then show "sys_inv pl (s\<lparr>y_pc := (y_pc s)(i := Wait)\<rparr>)"
    using sys_invD(2,3,7) [OF inv] pc
    by (intro sys_inv_one [OF inv i(1)]) (auto simp: own_def)
qed

lemma take_inv:
  assumes inv: "sys_inv pl s" and pc: "y_pc s i = Wait" and t: "wait_for_work (y_mb s i) = Some (Some w, mb)"
  shows "sys_inv pl (s\<lparr>y_mb := (y_mb s)(i := mb), y_pc := (y_pc s)(i := Got w)\<rparr>)"
proof -
  have i: "i < pl_n pl" using running_index [OF inv, of i] pc by simp
  have mb: "mb_s (y_mb s i) = QUEUED" "mb_s mb = WORKING" "mb_work mb = None" "mb_work (y_mb s i) = Some w"
    using t by (auto simp: wait_for_work_def split: if_splits)
  note f = worker_place(3) [OF inv i mb(1)]
  let ?t = "s\<lparr>y_mb := (y_mb s)(i := mb), y_pc := (y_pc s)(i := Got w)\<rparr>"
  have "worker_ok pl ?t i"
    using f mb pc
    by (auto simp: worker_ok_def open_end_def busy_def working_def fresh_def own_def split: if_splits)
  then show ?thesis
    using sys_invD(2,3,7) [OF inv] f pc
    by (intro sys_inv_one [OF inv i]) (auto simp: own_def fresh_def)
qed

lemma working_place:
  assumes inv: "sys_inv pl s" and "\<exists>w a p r. y_pc s i \<in> {Got w, Bar w a p, Rep w a p r}"
  shows "i < pl_n pl" and "mb_s (y_mb s i) = WORKING" and "mb_work (y_mb s i) = None" and "working pl s i"
    and "Queue i \<notin> set (y_script s)" and "open_end pl s i"
proof -
  show i: "i < pl_n pl" using running_index [OF inv, of i] assms(2) by auto
  show m: "mb_s (y_mb s i) = WORKING" using worker_place(1) [OF inv i] assms(2) by auto
  show "mb_work (y_mb s i) = None" "working pl s i" "Queue i \<notin> set (y_script s)" "open_end pl s i"
    using worker_place(2) [OF inv i m] by simp_all
qed

text \<open>A working worker that goes on working.\<close>

lemma working_inv:
  assumes inv: "sys_inv pl s" and i: "i < pl_n pl"
    and w: "mb_s (y_mb s i) = WORKING" "mb_work (y_mb s i) = None" "Queue i \<notin> set (y_script s)" "open_end pl s i"
    and t: "t = s\<lparr>y_data := d, y_env := (y_env s)(i := e), y_pc := (y_pc s)(i := pc), y_arrived := A\<rparr>"
    and A: "A = y_arrived s \<or> A = insert i (y_arrived s)"
    and d: "length d = length (pl_data pl)"
      "\<And>j. j < pl_n pl \<Longrightarrow> j \<noteq> i \<Longrightarrow> part (base pl j) (seg pl j) d = part (base pl j) (seg pl j) (y_data s)"
    and pc: "working pl t i" and old: "working pl s i"
  shows "sys_inv pl t"
proof -
  have "worker_ok pl t i"
    using w pc t by (simp add: worker_ok_def open_end_def busy_def)
  moreover have "i = 0 \<Longrightarrow> Join \<in> set (y_script s)"
    using sys_invD(7) [OF inv] old by (auto simp: working_def split: tpc.splits)
  ultimately show ?thesis
    using sys_invD(2,3) [OF inv] A d t
    by (intro sys_inv_one [OF inv i]) (auto simp: own_def)
qed

lemma prepare_inv:
  assumes inv: "sys_inv pl s" and pc: "y_pc s i = Got w"
    and x: "item_prepare arch (pl_cpus pl i) w (y_env s i) = x"
  shows "\<exists>a p e. x = Inr (a, p, e) \<and>
    sys_inv pl (s\<lparr>y_pc := (y_pc s)(i := Bar w a p), y_env := (y_env s)(i := e), y_arrived := insert i (y_arrived s)\<rparr>)"
proof -
  note wp = working_place [OF inv, of i, unfolded pc, simplified]
  note k = plan_okD [OF sys_invD(1) [OF inv] wp(1)]
  have w: "w = pl_works pl i" "y_env s i = pl_env pl i" "own pl s i = image pl i 0" "i = 0 \<longrightarrow> Start \<notin> set (y_script s)"
    using wp(4) pc by (simp_all add: working_def)
  have "x = Inr (pl_arg pl i, pl_pmu pl i, pl_prep pl i)" using x k(4) w by simp
  moreover have "sys_inv pl (s\<lparr>y_pc := (y_pc s)(i := Bar w (pl_arg pl i) (pl_pmu pl i)),
      y_env := (y_env s)(i := pl_prep pl i), y_arrived := insert i (y_arrived s)\<rparr>)"
    by (rule working_inv [OF inv wp(1,2,3,5,6), where d = "y_data s" and A = "insert i (y_arrived s)"
          and e = "pl_prep pl i" and pc = "Bar w (pl_arg pl i) (pl_pmu pl i)"])
      (use w sys_invD(3) [OF inv] wp(4) in \<open>simp_all add: working_def own_def\<close>)
  ultimately show ?thesis by blast
qed

lemma leave_inv:
  assumes inv: "sys_inv pl s" and pc: "y_pc s i = Bar w a p"
  shows "sys_inv pl (s\<lparr>y_pc := (y_pc s)(i := Rep w a p 0)\<rparr>)"
proof -
  note wp = working_place [OF inv, of i, unfolded pc, simplified]
  have w: "w = pl_works pl i" "a = pl_arg pl i" "p = pl_pmu pl i" "i \<in> y_arrived s" "y_env s i = pl_prep pl i"
    "own pl s i = image pl i 0" "i = 0 \<longrightarrow> Start \<notin> set (y_script s)"
    using wp(4) pc by (simp_all add: working_def)
  have t: "s\<lparr>y_pc := (y_pc s)(i := Rep w a p 0)\<rparr> =
      s\<lparr>y_data := y_data s, y_env := (y_env s)(i := y_env s i), y_pc := (y_pc s)(i := Rep w a p 0),
        y_arrived := y_arrived s\<rparr>"
    by simp
  show ?thesis
    by (rule working_inv [OF inv wp(1,2,3,5,6) t])
      (use w sys_invD(3) [OF inv] wp(4) in \<open>simp_all add: working_def own_def refrows_def\<close>)
qed

lemma rep_inv:
  assumes inv: "sys_inv pl s" and pc: "y_pc s i = Rep w a p r" and r: "r < unat (w_reps w)"
    and x: "run_rep arch w p a (of_nat r) (y_data s, y_env s i) = x"
  shows "\<exists>d e. x = Inr (d, e) \<and>
    sys_inv pl (s\<lparr>y_data := d, y_env := (y_env s)(i := e), y_pc := (y_pc s)(i := Rep w a p (Suc r))\<rparr>)"
proof -
  note wp = working_place [OF inv, of i, unfolded pc, simplified]
  have w: "w = pl_works pl i" "a = pl_arg pl i" "p = pl_pmu pl i" "i \<in> y_arrived s"
    "y_env s i = snd (refrows pl i r)" "own pl s i = image pl i r" "i = 0 \<longrightarrow> Start \<notin> set (y_script s)"
    using wp(4) pc by (simp_all add: working_def)
  from image_step [OF sys_invD(1) [OF inv] wp(1) _ sys_invD(3) [OF inv] w(6) [unfolded own_def] w(5)] r w(1-3) x
  obtain d where d: "x = Inr (d, snd (refrows pl i (Suc r)))" "length d = length (y_data s)"
    "part (base pl i) (seg pl i) d = image pl i (Suc r)"
    "\<forall>j < pl_n pl. j \<noteq> i \<longrightarrow> part (base pl j) (seg pl j) d = part (base pl j) (seg pl j) (y_data s)"
    by auto
  have "sys_inv pl (s\<lparr>y_data := d, y_env := (y_env s)(i := snd (refrows pl i (Suc r))),
      y_pc := (y_pc s)(i := Rep w a p (Suc r))\<rparr>)"
    by (rule working_inv [OF inv wp(1,2,3,5,6), where d = d and A = "y_arrived s"
          and e = "snd (refrows pl i (Suc r))" and pc = "Rep w a p (Suc r)"])
      (use w d r sys_invD(3) [OF inv] wp(4) in \<open>simp_all add: working_def own_def\<close>)
  with d(1) show ?thesis by blast
qed

lemma finish_inv:
  assumes inv: "sys_inv pl s" and pc: "y_pc s i = Rep w a p r" and r: "\<not> r < unat (w_reps w)"
    and x: "arch_pmu_free arch p (y_env s i) = x" and y: "return_finished_work (Some w) (y_mb s i) = y"
  shows "\<exists>e mb. x = Inr e \<and> y = Inr mb \<and>
    sys_inv pl (s\<lparr>y_mb := (y_mb s)(i := mb), y_env := (y_env s)(i := e),
      y_pc := (y_pc s)(i := (if i = 0 then Off else Enter))\<rparr>)"
proof -
  note wp = working_place [OF inv, of i, unfolded pc, simplified]
  have w: "w = pl_works pl i" "a = pl_arg pl i" "p = pl_pmu pl i" "i \<in> y_arrived s" "r \<le> nreps pl i"
    "y_env s i = snd (refrows pl i r)" "own pl s i = image pl i r" "i = 0 \<longrightarrow> Start \<notin> set (y_script s)"
    using wp(4) pc by (simp_all add: working_def)
  have R: "r = nreps pl i" using r w(1,5) by simp
  have xy: "x = Inr (pl_end pl i)" "y = Inr ((y_mb s i)\<lparr>mb_work := Some w, mb_s := DONE\<rparr>)"
    using x y plan_okD(5) [OF sys_invD(1) [OF inv] wp(1)] w R wp(2,3)
    by (simp_all add: return_finished_work_def)
  let ?t = "s\<lparr>y_mb := (y_mb s)(i := (y_mb s i)\<lparr>mb_work := Some w, mb_s := DONE\<rparr>),
      y_env := (y_env s)(i := pl_end pl i), y_pc := (y_pc s)(i := (if i = 0 then Off else Enter))\<rparr>"
  have "worker_ok pl ?t i"
    using wp w R by (auto simp: worker_ok_def open_end_def busy_def finished_def own_def)
  then have "sys_inv pl ?t"
    using sys_invD(2,3) [OF inv] by (intro sys_inv_one [OF inv wp(1)]) (auto simp: own_def)
  with xy show ?thesis by blast
qed

lemma sys_step_inv:
  assumes inv: "sys_inv pl s" and step: "pstep pl s t"
  shows "sys_inv pl t"
  using step
proof (cases rule: sys_step.cases)
  case (queue i cs mb)
  then show ?thesis using queue_inv [OF inv] by fastforce
next
  case (queue_fail i cs x)
  then show ?thesis using queue_inv [OF inv] by fastforce
next
  case (start cs)
  then show ?thesis using start_inv [OF inv] by simp
next
  case (join cs)
  then show ?thesis using join_inv [OF inv] by simp
next
  case (collect i cs w mb)
  then show ?thesis using collect_inv [OF inv] by simp
next
  case (enter i u)
  then show ?thesis using enter_inv [OF inv] by simp
next
  case (enter_fail i x)
  then show ?thesis using enter_inv [OF inv] by fastforce
next
  case (take i w mb)
  then show ?thesis using take_inv [OF inv] by simp
next
  case (prepare i w a p e)
  then show ?thesis using prepare_inv [OF inv] by fastforce
next
  case (prepare_fail i w x)
  then show ?thesis using prepare_inv [OF inv] by fastforce
next
  case (leave i w a p)
  then show ?thesis using leave_inv [OF inv] by simp
next
  case (rep i w a p r d e)
  then show ?thesis using rep_inv [OF inv] by fastforce
next
  case (rep_fail i w a p r x)
  then show ?thesis using rep_inv [OF inv] by fastforce
next
  case (finish i w a p r e mb)
  then show ?thesis using finish_inv [OF inv] by fastforce
next
  case (finish_fail i w a p r x)
  then show ?thesis using finish_inv [OF inv, of i w a p r] by fastforce
qed

section \<open>Progress\<close>

lemma fuel_main:
  assumes "y_script s = c # cs" and "y_script t = cs" and "\<And>i. worker_fuel pl t i = worker_fuel pl s i"
  shows "sys_fuel pl t < sys_fuel pl s"
  using assms by (simp add: sys_fuel_def)

lemma fuel_worker:
  assumes "i < pl_n pl" and "y_script t = y_script s" and "worker_fuel pl t i < worker_fuel pl s i"
    and "\<And>j. j \<noteq> i \<Longrightarrow> y_pc t j = y_pc s j \<and> (j \<in> y_arrived t \<longleftrightarrow> j \<in> y_arrived s)"
  shows "sys_fuel pl t < sys_fuel pl s"
proof -
  have "worker_fuel pl t j = worker_fuel pl s j" if "j \<noteq> i" for j
    using assms(4) [OF that] by (simp add: worker_fuel_def)
  then show ?thesis
    using sum_one_less [of i "pl_n pl" "worker_fuel pl t" "worker_fuel pl s"] assms(1-3)
    by (simp add: sys_fuel_def)
qed

lemma sys_step_fuel:
  assumes inv: "sys_inv pl s" and step: "pstep pl s t"
  shows "sys_fuel pl t < sys_fuel pl s"
  using step
proof (cases rule: sys_step.cases)
  case (queue i cs mb)
  then show ?thesis by (intro fuel_main) (auto simp: worker_fuel_def)
next
  case (queue_fail i cs x)
  then show ?thesis using queue_inv [OF inv] by fastforce
next
  case (start cs)
  have n: "0 < pl_n pl" using sys_invD(1) [OF inv] by (simp add: plan_ok_def)
  have "0 \<notin> y_arrived s"
    using sys_invD(5) [OF inv n] start
    by (auto simp: worker_ok_def busy_def working_def fresh_def finished_def split: if_splits state.splits)
  with start show ?thesis by (intro fuel_main) (auto simp: worker_fuel_def)
next
  case (join cs)
  then show ?thesis by (intro fuel_main) (auto simp: worker_fuel_def)
next
  case (collect i cs w mb)
  then show ?thesis by (intro fuel_main) (auto simp: worker_fuel_def)
next
  case (enter i u)
  then show ?thesis
    using running_index [OF inv, of i] by (intro fuel_worker [of i]) (auto simp: worker_fuel_def)
next
  case (enter_fail i x)
  then show ?thesis using enter_inv [OF inv] by fastforce
next
  case (take i w mb)
  then have "mb_s (y_mb s i) = QUEUED" by (auto simp: wait_for_work_def split: if_splits)
  then show ?thesis
    using running_index [OF inv, of i] worker_place(3) [OF inv, of i] take
    by (intro fuel_worker [of i]) (auto simp: worker_fuel_def fresh_def)
next
  case (prepare i w a p e)
  then show ?thesis
    using working_place(1,4) [OF inv, of i]
    by (intro fuel_worker [of i]) (auto simp: worker_fuel_def working_def)
next
  case (prepare_fail i w x)
  then show ?thesis using prepare_inv [OF inv] by fastforce
next
  case (leave i w a p)
  then show ?thesis
    using working_place(1,4) [OF inv, of i]
    by (intro fuel_worker [of i]) (auto simp: worker_fuel_def working_def)
next
  case (rep i w a p r d e)
  then show ?thesis
    using working_place(1,4) [OF inv, of i]
    by (intro fuel_worker [of i]) (auto simp: worker_fuel_def working_def)
next
  case (rep_fail i w a p r x)
  then show ?thesis using rep_inv [OF inv] by fastforce
next
  case (finish i w a p r e mb)
  then show ?thesis
    using working_place(1,4) [OF inv, of i]
    by (intro fuel_worker [of i]) (auto simp: worker_fuel_def working_def)
next
  case (finish_fail i w a p r x)
  then show ?thesis using finish_inv [OF inv, of i w a p r] by fastforce
qed

text \<open>
  A worker with an item that is not done can go on, or another can, when nobody is missing at
  the barrier for good.
\<close>

lemma worker_moves:
  assumes inv: "sys_inv pl s" and i: "i < pl_n pl" and st: "Start \<notin> set (y_script s)"
    and m: "mb_s (y_mb s i) = QUEUED \<or> (\<exists>w. y_pc s i = Got w) \<or> (\<exists>w a p r. y_pc s i = Rep w a p r)"
  shows "\<exists>t. pstep pl s t"
proof -
  consider "mb_s (y_mb s i) = QUEUED" | w where "y_pc s i = Got w" | w a p r where "y_pc s i = Rep w a p r"
    using m by blast
  then show ?thesis
  proof cases
    case 1
    with worker_place(3) [OF inv i] have f: "fresh pl s i" "mb_work (y_mb s i) = Some (pl_works pl i)" by simp_all
    then consider "y_pc s i = Enter" | "y_pc s i = Wait" using st by (auto simp: fresh_def)
    then show ?thesis
    proof cases
      case 1
      with enter_inv [OF inv] show ?thesis by (blast intro: sys_step.enter)
    next
      case 2
      have "wait_for_work (y_mb s i) =
          Some (Some (pl_works pl i), (y_mb s i)\<lparr>mb_work := None, mb_s := WORKING\<rparr>)"
        using f 1 by (simp add: wait_for_work_def)
      from sys_step.take [OF 2 this] show ?thesis by blast
    qed
  next
    case 2
    with prepare_inv [OF inv 2 refl] show ?thesis by (blast intro: sys_step.prepare)
  next
    case 3
    show ?thesis
    proof (cases "r < unat (w_reps w)")
      case True
      with 3 rep_inv [OF inv 3 True refl] show ?thesis by (blast intro: sys_step.rep)
    next
      case False
      with 3 finish_inv [OF inv 3 False refl refl] show ?thesis by (blast intro: sys_step.finish)
    qed
  qed
qed

lemma busy_moves:
  assumes inv: "sys_inv pl s" and i: "i < pl_n pl" and st: "Start \<notin> set (y_script s)"
    and b: "Queue i \<notin> set (y_script s)" "open_end pl s i" "mb_s (y_mb s i) \<noteq> DONE"
    and q: "pl_lim pl = 1 \<or> (\<forall>j < pl_n pl. Queue j \<notin> set (y_script s))"
  shows "\<exists>t. pstep pl s t"
proof (cases "\<exists>w a p. y_pc s i = Bar w a p")
  case False
  have "busy pl s i" using sys_invD(5) [OF inv i] b by (simp add: worker_ok_def)
  then have "mb_s (y_mb s i) = QUEUED \<or> (\<exists>w. y_pc s i = Got w) \<or> (\<exists>w a p r. y_pc s i = Rep w a p r)"
    using b(3) False by (auto simp: busy_def working_def split: state.splits tpc.splits)
  then show ?thesis by (rule worker_moves [OF inv i st])
next
  case True
  then obtain w a p where pc: "y_pc s i = Bar w a p" by blast
  have fin: "finite (y_arrived s)" and sub: "y_arrived s \<subseteq> {..<pl_n pl}"
    using inv by (auto simp: sys_inv_def intro: finite_subset)
  have ia: "i \<in> y_arrived s" using working_place(4) [OF inv, of i] pc by (auto simp: working_def)
  show ?thesis
  proof (cases "pl_lim pl \<le> card (y_arrived s)")
    case True
    with pc show ?thesis by (blast intro: sys_step.leave)
  next
    case False
    have "1 \<le> card (y_arrived s)" using ia fin by (simp add: Suc_le_eq card_gt_0_iff) blast
    with False have "pl_lim pl \<noteq> 1" by simp
    moreover have "pl_lim pl = 1 \<or> pl_lim pl = pl_n pl" using sys_invD(1) [OF inv] by (simp add: plan_ok_def)
    ultimately have lim: "pl_lim pl = pl_n pl" "\<forall>j < pl_n pl. Queue j \<notin> set (y_script s)" using q by simp_all
    have "card (y_arrived s) \<noteq> card {..<pl_n pl}" using False lim(1) by simp
    then have "y_arrived s \<noteq> {..<pl_n pl}" by metis
    with sub obtain j where j: "j < pl_n pl" "j \<notin> y_arrived s" by blast
    have "mb_s (y_mb s j) = QUEUED \<or> (\<exists>w. y_pc s j = Got w)"
    proof -
      have nf: "\<not> finished pl s j" using j(2) by (simp add: finished_def)
      have "Queue j \<notin> set (y_script s)" using lim(2) j(1) by blast
      with sys_invD(5) [OF inv j(1)] nf have "busy pl s j" by (simp add: worker_ok_def split: if_splits)
      with nf j(2) show ?thesis
        by (cases "mb_s (y_mb s j)"; cases "y_pc s j") (simp_all add: busy_def working_def)
    qed
    then show ?thesis using worker_moves [OF inv j(1) st] by blast
  qed
qed

lemma sys_progress:
  assumes inv: "sys_inv pl s" and nf: "\<not> sys_final s"
  shows "\<exists>t. pstep pl s t"
proof -
  obtain c cs where c: "y_script s = c # cs" using nf by (cases "y_script s") (auto simp: sys_final_def)
  note ok = sys_invD(4) [OF inv, unfolded c]
  have n: "0 < pl_n pl" using sys_invD(1) [OF inv] by (simp add: plan_ok_def)
  show ?thesis
  proof (cases c)
    case (Queue i)
    with c have "y_script s = Queue i # cs" by simp
    with queue_inv [OF inv this refl] show ?thesis by (blast intro: sys_step.queue)
  next
    case Start
    have "y_pc s 0 = Off"
      using sys_invD(5) [OF inv n] Start c
      by (auto simp: worker_ok_def busy_def working_def fresh_def finished_def split: if_splits state.splits)
    with Start c show ?thesis by (blast intro: sys_step.start)
  next
    case Join
    show ?thesis
    proof (cases "y_pc s 0 = Off")
      case True
      with Join c show ?thesis by (blast intro: sys_step.join)
    next
      case False
      have "Queue 0 \<notin> set (y_script s)" and "Start \<notin> set (y_script s)" using ok Join c by simp_all
      moreover have "busy pl s 0 \<and> open_end pl s 0"
        using sys_invD(5) [OF inv n] calculation False
        by (auto simp: worker_ok_def finished_def split: if_splits)
      moreover have "mb_s (y_mb s 0) \<noteq> DONE"
        using calculation False by (auto simp: busy_def finished_def)
      moreover have "pl_lim pl = 1 \<or> (\<forall>j < pl_n pl. Queue j \<notin> set (y_script s))" using ok Join c by auto
      ultimately show ?thesis using busy_moves [OF inv n] by blast
    qed
  next
    case (Collect i)
    have i: "i < pl_n pl" "Queue i \<notin> set (y_script s)" "Start \<notin> set (y_script s)" "open_end pl s i"
      using ok Collect c by (auto simp: open_end_def)
    show ?thesis
    proof (cases "mb_s (y_mb s i) = DONE")
      case True
      then have "wait_until_done (y_mb s i) = Some (mb_work (y_mb s i), (y_mb s i)\<lparr>mb_work := None, mb_s := IDLE\<rparr>)"
        by (simp add: wait_until_done_def)
      with Collect c show ?thesis by (blast intro: sys_step.collect)
    next
      case False
      moreover have "pl_lim pl = 1 \<or> (\<forall>j < pl_n pl. Queue j \<notin> set (y_script s))" using ok Collect c by auto
      ultimately show ?thesis using busy_moves [OF inv i(1,3,2,4)] by blast
    qed
  qed
qed

lemma sys_final_result:
  assumes inv: "sys_inv pl s" and f: "sys_final s" and i: "i < pl_n pl"
    and c: "i = 0 \<or> Collect i \<in> set (pl_script pl)"
  shows "own pl s i = image pl i (nreps pl i) \<and>
    mb_s (y_mb s i) = (if Collect i \<in> set (pl_script pl) then IDLE else DONE) \<and>
    mb_work (y_mb s i) = (if Collect i \<in> set (pl_script pl) then None else Some (pl_works pl i))"
proof (cases "Collect i \<in> set (pl_script pl)")
  case True
  then show ?thesis
    using sys_invD(5) [OF inv i] f by (simp add: worker_ok_def open_end_def sys_final_def finished_def)
next
  case False
  with c f have z: "i = 0" "busy pl s i" "y_pc s 0 = Off"
    using sys_invD(5) [OF inv i] sys_invD(7) [OF inv]
    by (auto simp: worker_ok_def open_end_def sys_final_def)
  then have "mb_s (y_mb s i) = DONE \<and> mb_work (y_mb s i) = Some (pl_works pl i) \<and> finished pl s i"
    using f by (auto simp: busy_def working_def fresh_def sys_final_def split: state.splits)
  with False show ?thesis by (simp add: finished_def)
qed

lemma sys_final_rest:
  assumes inv: "sys_inv pl s" and f: "sys_final s" and c: "\<forall>i < pl_n pl. Collect i \<in> set (pl_script pl)"
  shows "at_rest (pl_n pl) s"
proof -
  have w: "empty_mb (y_mb s i) \<and> finished pl s i" if "i < pl_n pl" for i
    using sys_invD(5) [OF inv that] f c that by (simp add: worker_ok_def open_end_def sys_final_def)
  have o: "y_pc s i = Off" if "i = 0 \<or> pl_n pl \<le> i" for i
    using sys_invD(6,7) [OF inv] f that by (auto simp: sys_final_def)
  have "if 0 < i \<and> i < pl_n pl then y_pc s i = Enter \<or> y_pc s i = Wait else y_pc s i = Off" for i
    using w [of i] o [of i] by (auto simp: finished_def)
  then show ?thesis using w sys_invD(2) [OF inv] by (simp add: at_rest_def)
qed

end

end
