(* ===== verification/CString.thy ===== *)
theory CString
  imports Prelude "HOL-Library.Char_ord" "HOL-Library.List_Lexorder"
begin

text \<open>
  The functions of \<open>string.h\<close>, \<open>strings.h\<close> and \<open>ctype.h\<close> that the program calls, in
  the C locale, on strings without their terminating null character.
\<close>

text \<open>An upper case letter and its lower case letter differ in bit 5, of value 32.\<close>

definition tolower :: "char \<Rightarrow> char" where
  "tolower c =
     (if CHR ''A'' \<le> c \<and> c \<le> CHR ''Z''
      then Char (digit0 c) (digit1 c) (digit2 c) (digit3 c) (digit4 c) True (digit6 c) (digit7 c)
      else c)"

lemma tolower_32:
  "CHR ''A'' \<le> c \<Longrightarrow> c \<le> CHR ''Z'' \<Longrightarrow> (of_char (tolower c) :: nat) = of_char c + 32"
  by (cases c) (auto simp: tolower_def less_eq_char_def of_char_def of_bool_def split: if_splits)

text \<open>\<open>strcmp\<close> and \<open>strcasecmp\<close> are only ever compared with 0.\<close>

definition strcasecmp :: "string \<Rightarrow> string \<Rightarrow> int" where
  "strcasecmp s t =
     (if map tolower s = map tolower t then 0
      else if map (of_char :: char \<Rightarrow> nat) (map tolower s) < map of_char (map tolower t) then -1 else 1)"

lemma strcasecmp_0: "strcasecmp s t = 0 \<longleftrightarrow> map tolower s = map tolower t"
  by (simp add: strcasecmp_def)

text \<open>
  The sequence of results of \<open>strtok (s, d)\<close> followed by \<open>strtok (NULL, d)\<close> until it
  gives a null pointer: the maximal runs of characters other than the delimiter.
\<close>

function strtok :: "char \<Rightarrow> string \<Rightarrow> string list" where
  "strtok d [] = []"
| "strtok d (c # s) =
     (if c = d then strtok d s
      else (c # takeWhile (\<lambda>x. x \<noteq> d) s) # strtok d (dropWhile (\<lambda>x. x \<noteq> d) s))"
  by pat_completeness auto
termination
  by (relation "measure (\<lambda>(d, s). length s)") (auto simp: le_imp_less_Suc length_dropWhile_le)

text \<open>The fields that the delimiter separates are one more than its occurrences; some may be empty.\<close>

lemma length_strtok_count:
  "length (strtok d s) \<le> count_list s d + (if s = [] \<or> hd s = d then 0 else 1)"
proof (induction d s rule: strtok.induct)
  case (2 d c s)
  let ?t = "takeWhile (\<lambda>x. x \<noteq> d) s" and ?r = "dropWhile (\<lambda>x. x \<noteq> d) s"
  have t: "count_list ?t d = 0" by (auto simp: count_list_0_iff dest: set_takeWhileD)
  have "count_list s d = count_list (?t @ ?r) d" by simp
  also have "\<dots> = count_list ?r d" unfolding count_list_append t by simp
  finally have r: "count_list s d = count_list ?r d" .
  have "?r = [] \<or> hd ?r = d" using hd_dropWhile [of "\<lambda>x. x \<noteq> d" s] by blast
  with 2 r show ?case by (cases "c = d") (auto split: if_splits)
qed simp

lemma length_strtok_le: "length (strtok d s) \<le> Suc (count_list s d)"
  using length_strtok_count [of d s] by (simp split: if_splits)

lemma strtok_fields: "\<forall>t \<in> set (strtok d s). t \<noteq> [] \<and> d \<notin> set t"
  by (induction d s rule: strtok.induct) (auto dest: set_takeWhileD)

lemma strtok_field: "w \<noteq> [] \<Longrightarrow> d \<notin> set w \<Longrightarrow> strtok d (w @ d # rest) = w # strtok d rest"
proof (cases w)
  case (Cons c cs)
  moreover assume "d \<notin> set w"
  ultimately have "c \<noteq> d" and p: "\<forall>x \<in> set cs. x \<noteq> d" by auto
  have "takeWhile (\<lambda>x. x \<noteq> d) (cs @ d # rest) = cs" and "dropWhile (\<lambda>x. x \<noteq> d) (cs @ d # rest) = d # rest"
    using p by (simp_all add: takeWhile_append2 dropWhile_append2)
  with Cons \<open>c \<noteq> d\<close> show ?thesis by simp
qed simp

lemma strtok_skip: "strtok d (replicate k d @ rest) = strtok d rest"
  by (induction k) simp_all

lemma strtok_lines:
  "\<forall>w \<in> set ws. w \<noteq> [] \<and> d \<notin> set w \<Longrightarrow> strtok d (concat (map (\<lambda>w. w @ [d]) ws)) = ws"
  by (induction ws) (simp_all add: strtok_field)

section \<open>Numbers in text\<close>

definition digit :: "nat \<Rightarrow> char" where
  "digit k = char_of (48 + k)"

text \<open>The conversions \<open>%u\<close> and \<open>PRIu64\<close>.\<close>

fun decimal :: "nat \<Rightarrow> string" where
  "decimal n = (if n < 10 then [digit n] else decimal (n div 10) @ [digit (n mod 10)])"

declare decimal.simps [simp del]

text \<open>The value of a digit or letter as a digit, for bases up to 36.\<close>

definition digit_value :: "char \<Rightarrow> nat option" where
  "digit_value c =
     (let n = of_char c in
      if 48 \<le> n \<and> n \<le> 57 then Some (n - 48)
      else if 97 \<le> n \<and> n \<le> 122 then Some (n - 87)
      else if 65 \<le> n \<and> n \<le> 90 then Some (n - 55)
      else None)"

definition is_digit :: "nat \<Rightarrow> char \<Rightarrow> bool" where
  "is_digit base c = (case digit_value c of None \<Rightarrow> False | Some v \<Rightarrow> v < base)"

definition isspace :: "char \<Rightarrow> bool" where
  "isspace c \<longleftrightarrow> (of_char c :: nat) = 32 \<or> (9 \<le> (of_char c :: nat) \<and> (of_char c :: nat) \<le> 13)"

definition digits_value :: "nat \<Rightarrow> string \<Rightarrow> nat" where
  "digits_value base = foldl (\<lambda>v c. base * v + (case digit_value c of None \<Rightarrow> 0 | Some k \<Rightarrow> k)) 0"

text \<open>
  \<open>strtoul (s, &rest, 0)\<close> on a machine with 64-bit \<open>unsigned long\<close>: the value, whether
  \<open>errno\<close> is set to \<open>ERANGE\<close>, and what follows the number. White space and a sign may
  come before it; \<open>0x\<close> and \<open>0\<close> choose the base. Without a digit nothing is read.
\<close>

definition strtoul_base :: "string \<Rightarrow> nat \<times> string" where
  "strtoul_base s =
     (case s of
        z # x # h # r \<Rightarrow>
          if z = CHR ''0'' \<and> tolower x = CHR ''x'' \<and> is_digit 16 h then (16, h # r)
          else if z = CHR ''0'' then (8, s) else (10, s)
      | z # r \<Rightarrow> if z = CHR ''0'' then (8, s) else (10, s)
      | [] \<Rightarrow> (10, s))"

definition strtoul :: "string \<Rightarrow> u64 \<times> bool \<times> string" where
  "strtoul s =
     (let s1 = dropWhile isspace s;
          neg = (s1 \<noteq> [] \<and> hd s1 = CHR ''-'');
          s2 = (if s1 \<noteq> [] \<and> (hd s1 = CHR ''-'' \<or> hd s1 = CHR ''+'') then tl s1 else s1);
          (base, s3) = strtoul_base s2;
          ds = takeWhile (is_digit base) s3; rest = dropWhile (is_digit base) s3
      in if ds = [] then (0, False, s)
         else let v = digits_value base ds
           in if 2 ^ 64 \<le> v then (-1, True, rest)
              else (if neg then - of_nat v else of_nat v, False, rest))"

lemma of_char_digit: "k < 10 \<Longrightarrow> (of_char (digit k) :: nat) = 48 + k"
  by (simp add: digit_def of_char_of)

lemma digit_value_digit [simp]: "k < 10 \<Longrightarrow> digit_value (digit k) = Some k"
  by (simp add: digit_value_def of_char_digit)

lemma is_digit_digit [simp]: "k < 10 \<Longrightarrow> k < base \<Longrightarrow> is_digit base (digit k)"
  by (simp add: is_digit_def)

lemma decimal_not_Nil [simp]: "decimal n \<noteq> []"
  by (simp add: decimal.simps)

lemma decimal_digits: "\<forall>c \<in> set (decimal n). \<exists>k < 10. c = digit k"
proof (induction n rule: decimal.induct)
  case (1 n)
  then show ?case by (subst decimal.simps) (auto intro: exI [of _ "n mod 10"])
qed

lemma digits_value_decimal: "digits_value 10 (decimal n) = n"
proof (induction n rule: decimal.induct)
  case (1 n)
  then show ?case by (subst decimal.simps) (simp add: digits_value_def)
qed

text \<open>A positive number has no leading zero, so it is not read as octal.\<close>

lemma digit_0: "digit 0 = CHR ''0''"
  by (simp add: digit_def char_of_def bit_0)

lemma digit_inj: "i < 10 \<Longrightarrow> j < 10 \<Longrightarrow> digit i = digit j \<longleftrightarrow> i = j"
  using of_char_digit by (metis add_left_cancel)

lemma hd_decimal: "0 < n \<Longrightarrow> \<exists>k < 10. 0 < k \<and> hd (decimal n) = digit k"
proof (induction n rule: decimal.induct)
  case (1 n)
  show ?case
  proof (cases "n < 10")
    case False
    with 1 have "\<exists>k < 10. 0 < k \<and> hd (decimal (n div 10)) = digit k" by simp
    with False show ?thesis by (subst decimal.simps) (simp add: hd_append)
  qed (use 1 in \<open>auto simp: decimal.simps\<close>)
qed

lemma takeWhile_decimal:
  "10 \<le> base \<Longrightarrow> rest = [] \<or> \<not> is_digit base (hd rest) \<Longrightarrow>
    takeWhile (is_digit base) (decimal n @ rest) = decimal n \<and>
    dropWhile (is_digit base) (decimal n @ rest) = rest"
proof -
  assume b: "10 \<le> base" and r: "rest = [] \<or> \<not> is_digit base (hd rest)"
  have d: "\<forall>c \<in> set (decimal n). is_digit base c" using decimal_digits [of n] b by fastforce
  have "takeWhile (is_digit base) rest = [] \<and> dropWhile (is_digit base) rest = rest"
    using r by (cases rest) auto
  with d show ?thesis by (simp add: takeWhile_append2 dropWhile_append2)
qed

lemma not_space_sign:
  "k < 10 \<Longrightarrow> \<not> isspace (digit k) \<and> digit k \<noteq> CHR ''-'' \<and> digit k \<noteq> CHR ''+''"
  by (auto simp: isspace_def of_char_digit dest!: arg_cong [where f = "of_char :: char \<Rightarrow> nat"])

text \<open>What \<open>%u\<close> has printed, \<open>strtoul\<close> reads back.\<close>

lemma strtoul_decimal:
  assumes "rest = [] \<or> \<not> is_digit 10 (hd rest) \<and> tolower (hd rest) \<noteq> CHR ''x''"
  shows "strtoul (decimal n @ rest) =
    (if 2 ^ 64 \<le> n then (-1, True, rest) else (of_nat n, False, rest))"
proof (cases "n = 0")
  case True
  have "\<not> is_digit 8 (hd rest)" if "rest \<noteq> []" using that assms by (auto simp: is_digit_def split: option.splits)
  then have w: "takeWhile (is_digit 8) rest = [] \<and> dropWhile (is_digit 8) rest = rest" by (cases rest) auto
  have "strtoul_base (digit 0 # rest) = (8, digit 0 # rest)"
    using assms by (auto simp: strtoul_base_def digit_0 split: list.splits)
  with w show ?thesis
    using not_space_sign [of 0] True
    by (simp add: decimal.simps [of 0] strtoul_def digits_value_def)
next
  case False
  then obtain k where k: "k < 10" "0 < k" "hd (decimal n) = digit k" using hd_decimal by blast
  obtain ds where ds: "decimal n = digit k # ds" using k(3) decimal_not_Nil by (metis list.collapse)
  have "digit k \<noteq> CHR ''0''" using k digit_inj [of k 0] by (simp add: digit_0)
  then have b: "strtoul_base (digit k # ds @ rest) = (10, digit k # ds @ rest)"
    by (auto simp: strtoul_base_def split: list.splits)
  have tw: "takeWhile (is_digit 10) (digit k # ds @ rest) = digit k # ds \<and>
      dropWhile (is_digit 10) (digit k # ds @ rest) = rest"
    using takeWhile_decimal [of 10 rest n] assms ds is_digit_digit [OF k(1,1)] by auto
  show ?thesis
    using not_space_sign [OF k(1)] b tw digits_value_decimal [of n]
    by (simp add: strtoul_def Let_def ds)
qed

end
