(* ===== verification/Arch_X86.thy ===== *)
theory Arch_X86
  imports Worker CString
begin

unbundle bit_operations_syntax

text \<open>
  The performance counters on x86_64 (\<open>include/arch.h\<close>), with libjevents and in the
  configuration that the file selects: \<open>LINUX_JEVENTS\<close> under Linux, \<open>MCK_MCK\<close> under
  McKernel. The instructions, the system calls and the functions of libjevents are the record
  \<open>x86_lib\<close>; \<open>'attr\<close> is \<open>struct perf_event_attr\<close> and \<open>'ctx\<close> is
  \<open>struct rdpmc_ctx\<close>. Output on the terminal is not modelled. Without libjevents there are no
  counters.
\<close>

record ('attr, 'ctx, 'e) x86_lib =
  rdtsc :: "'e \<Rightarrow> (u32 \<times> u32) \<times> 'e"              \<comment> \<open>\<open>CPUID; RDTSC\<close>: high, low\<close>
  rdtscp :: "'e \<Rightarrow> (u32 \<times> u32) \<times> 'e"             \<comment> \<open>\<open>RDTSCP; CPUID\<close>: high, low\<close>
  rdpmc_insn :: "u32 \<Rightarrow> 'e \<Rightarrow> (u32 \<times> u32) \<times> 'e"  \<comment> \<open>\<open>rdpmc\<close>: high, low\<close>
  syscall732 :: int                             \<comment> \<open>0 under McKernel only\<close>
  syscall601 :: "u32 \<Rightarrow> u32 \<Rightarrow> u32 \<Rightarrow> 'e \<Rightarrow> int \<times> 'e"
  syscall604 :: "u32 \<Rightarrow> 'e \<Rightarrow> 'e"
  syscall850 :: "u32 \<Rightarrow> 'e \<Rightarrow> u64 \<times> 'e"           \<comment> \<open>reads an MSR under McKernel\<close>
  syscall851 :: "u32 \<Rightarrow> u64 \<Rightarrow> 'e \<Rightarrow> 'e"          \<comment> \<open>writes an MSR under McKernel\<close>
  pread8 :: "int \<Rightarrow> u32 \<Rightarrow> 'e \<Rightarrow> u64 option"    \<comment> \<open>eight bytes of a file, \<open>None\<close> if not read\<close>
  resolve_event :: "string \<Rightarrow> 'attr option"
  attr_config :: "'attr \<Rightarrow> u64"
  rdpmc_open_attr :: "'attr \<Rightarrow> 'e \<Rightarrow> 'ctx option \<times> 'e"
  rdpmc_read :: "'ctx \<Rightarrow> 'e \<Rightarrow> u64 \<times> 'e"
  rdpmc_close :: "'ctx \<Rightarrow> 'e \<Rightarrow> 'e"

text \<open>
  The system calls of McKernel (\<open>include/mckernel.h\<close>). \<open>mck_pmc_init\<close> takes the event as an
  \<open>int\<close>, so its caller passes the low half of \<open>attr.config\<close>. A number stands for the \<open>int\<close> with the
  same bits.
\<close>

definition mck_pmc_init :: "('attr, 'ctx, 'e, 'z) x86_lib_scheme \<Rightarrow> u32 \<Rightarrow> u32 \<Rightarrow> u32 \<Rightarrow> 'e \<Rightarrow> int \<times> 'e" where
  "mck_pmc_init lib counter type mode e = syscall601 lib counter type mode e"

definition mck_pmc_reset :: "('attr, 'ctx, 'e, 'z) x86_lib_scheme \<Rightarrow> u32 \<Rightarrow> 'e \<Rightarrow> 'e" where
  "mck_pmc_reset lib counter e = syscall604 lib counter e"

text \<open>The shift binds tighter than the disjunction in C.\<close>

definition join_halves :: "u32 \<times> u32 \<Rightarrow> u64" where
  "join_halves hl = push_bit 32 (ucast (fst hl)) OR ucast (snd hl)"

definition x86_timestamp_begin :: "('attr, 'ctx, 'e) x86_lib \<Rightarrow> 'e \<Rightarrow> u64 \<times> 'e" where
  "x86_timestamp_begin lib e = map_prod join_halves id (rdtsc lib e)"

definition x86_timestamp_end :: "('attr, 'ctx, 'e) x86_lib \<Rightarrow> 'e \<Rightarrow> u64 \<times> 'e" where
  "x86_timestamp_end lib e = map_prod join_halves id (rdtscp lib e)"

definition rdpmc :: "('attr, 'ctx, 'e, 'z) x86_lib_scheme \<Rightarrow> u32 \<Rightarrow> 'e \<Rightarrow> u64 \<times> 'e" where
  "rdpmc lib i e = map_prod join_halves id (rdpmc_insn lib i e)"

text \<open>\<open>rdmsr\<close>; \<open>None\<close> is the indeterminate value of the local variable after a failed read.\<close>

definition rdmsr :: "('attr, 'ctx, 'e, 'z) x86_lib_scheme \<Rightarrow> u32 \<Rightarrow> int \<Rightarrow> 'e \<Rightarrow> u64 option \<times> 'e" where
  "rdmsr lib idx fd e =
     (if mck_is_mckernel (syscall732 lib) then map_prod Some id (syscall850 lib idx e) else (pread8 lib fd idx e, e))"

definition IA32_PERF_GLOBAL_CTRL :: u32 where "IA32_PERF_GLOBAL_CTRL = 0x38f"

text \<open>
  \<open>struct pmu\<close>. Of \<open>ctx\<close> the list holds the elements that have been opened; \<open>perf_fds\<close>,
  \<open>msr\<close> and \<open>msr_fd\<close> are not used in this configuration.
\<close>

record 'ctx x86_pmu =
  ctx :: "'ctx list"
  active :: nat
  mckernel :: bool
  global_ctrl :: "u64 option"

definition x86_add_event ::
  "('attr, 'ctx, 'e) x86_lib \<Rightarrow> string \<Rightarrow> 'ctx x86_pmu \<times> 'e \<Rightarrow> 'ctx x86_pmu \<times> 'e"
where
  "x86_add_event lib event s =
     (case resolve_event lib event of None \<Rightarrow> s
      | Some attr \<Rightarrow>
          if mckernel (fst s) then
            (case mck_pmc_init lib (of_nat (active (fst s))) (ucast (attr_config lib attr)) 4 (snd s) of
               (err, e) \<Rightarrow> if err \<noteq> 0 then (fst s, e) else ((fst s)\<lparr>active := Suc (active (fst s))\<rparr>, e))
          else
            (case rdpmc_open_attr lib attr (snd s) of
               (None, e) \<Rightarrow> (fst s, e)
             | (Some c, e) \<Rightarrow>
                 ((fst s)\<lparr>ctx := ctx (fst s) @ [c], active := Suc (active (fst s))\<rparr>, e)))"

definition x86_events ::
  "('attr, 'ctx, 'e) x86_lib \<Rightarrow> string list \<Rightarrow> nat \<Rightarrow> 'ctx x86_pmu \<times> 'e \<Rightarrow> ('ctx x86_pmu \<times> 'e) outcome"
where
  "x86_events lib names n =
     fold_res (\<lambda>i s. and_then (load names i) (\<lambda>event. Inr (x86_add_event lib event s))) [0..<n]"

text \<open>\<open>(1 << n) - 1\<close> is a computation on \<open>int\<close>.\<close>

definition active_mask :: "nat \<Rightarrow> u64 outcome" where
  "active_mask n = (if n < 31 then Inr (push_bit n 1 - 1) else Inl Undefined)"

definition x86_pmu_init ::
  "('attr, 'ctx, 'e) x86_lib \<Rightarrow> string list \<Rightarrow> u32 \<Rightarrow> u32 \<Rightarrow> 'e \<Rightarrow> ('ctx x86_pmu \<times> 'e) outcome"
where
  "x86_pmu_init lib names n cp e =
     (let (g, e1) = rdmsr lib IA32_PERF_GLOBAL_CTRL (-1) e
      in and_then
           (x86_events lib names (unat n)
             (\<lparr>ctx = [], active = 0, mckernel = mck_is_mckernel (syscall732 lib), global_ctrl = g\<rparr>, e1))
           (\<lambda>(p, e2).
              if mckernel p \<and> global_ctrl p = Some 0
              then and_then (active_mask (active p)) (\<lambda>m. Inr (p, syscall851 lib IA32_PERF_GLOBAL_CTRL m e2))
              else Inr (p, e2)))"

definition x86_pmu_free :: "('attr, 'ctx, 'e) x86_lib \<Rightarrow> 'ctx x86_pmu \<Rightarrow> 'e \<Rightarrow> 'e outcome" where
  "x86_pmu_free lib p e =
     (if \<not> mckernel p then
        fold_res (\<lambda>i e. and_then (load (ctx p) i) (\<lambda>c. Inr (rdpmc_close lib c e))) [0..<active p] e
      else case global_ctrl p of None \<Rightarrow> Inl Undefined
           | Some g \<Rightarrow> Inr (syscall851 lib IA32_PERF_GLOBAL_CTRL g e))"

definition x86_read :: "('attr, 'ctx, 'e) x86_lib \<Rightarrow> 'ctx x86_pmu \<Rightarrow> nat \<Rightarrow> u64 \<Rightarrow> 'e \<Rightarrow> u64 \<times> 'e" where
  "x86_read lib p i _ e = rdpmc_read lib (ctx p ! i) e"

definition x86_delta :: "('attr, 'ctx, 'e) x86_lib \<Rightarrow> 'ctx x86_pmu \<Rightarrow> nat \<Rightarrow> u64 \<Rightarrow> 'e \<Rightarrow> u64 \<times> 'e" where
  "x86_delta lib p i x e =
     (if mckernel p then rdpmc lib (of_nat i) e
      else map_prod (\<lambda>v. v - x) id (rdpmc_read lib (ctx p ! i) e))"

definition x86_pmu_begin ::
  "('attr, 'ctx, 'e) x86_lib \<Rightarrow> 'ctx x86_pmu \<Rightarrow> nat \<Rightarrow> u64 list \<times> 'e \<Rightarrow> (u64 list \<times> 'e) outcome"
where
  "x86_pmu_begin lib p k s =
     (if mckernel p then Inr (fst s, fold (\<lambda>i. mck_pmc_reset lib (of_nat i)) [0..<active p] (snd s))
      else slot_loop (x86_read lib p) k (active p) s)"

definition x86_pmu_end ::
  "('attr, 'ctx, 'e) x86_lib \<Rightarrow> 'ctx x86_pmu \<Rightarrow> nat \<Rightarrow> u64 list \<times> 'e \<Rightarrow> (u64 list \<times> 'e) outcome"
where
  "x86_pmu_end lib p k s = slot_loop (x86_delta lib p) k (active p) s"

definition x86_arch :: "('attr, 'ctx, 'e) x86_lib \<Rightarrow> ('e, 'ctx x86_pmu) arch" where
  "x86_arch lib =
     \<lparr>arch_pmu_init = x86_pmu_init lib, arch_pmu_free = x86_pmu_free lib,
      arch_pmu_begin = x86_pmu_begin lib, arch_pmu_end = x86_pmu_end lib,
      arch_timestamp_begin = x86_timestamp_begin lib, arch_timestamp_end = x86_timestamp_end lib\<rparr>"

lemma x86_arch_simps [simp]:
  "arch_pmu_init (x86_arch lib) = x86_pmu_init lib" "arch_pmu_free (x86_arch lib) = x86_pmu_free lib"
  "arch_pmu_begin (x86_arch lib) = x86_pmu_begin lib" "arch_pmu_end (x86_arch lib) = x86_pmu_end lib"
  "arch_timestamp_begin (x86_arch lib) = x86_timestamp_begin lib"
  "arch_timestamp_end (x86_arch lib) = x86_timestamp_end lib"
  by (simp_all add: x86_arch_def)

text \<open>Without libjevents.\<close>

definition nojevents_pmu_init :: "string list \<Rightarrow> u32 \<Rightarrow> u32 \<Rightarrow> 'e \<Rightarrow> (unit \<times> 'e) outcome" where
  "nojevents_pmu_init names n cp e = (if n \<noteq> 0 then Inl ExitFailure else Inr ((), e))"

definition nojevents_arch :: "('attr, 'ctx, 'e) x86_lib \<Rightarrow> ('e, unit) arch" where
  "nojevents_arch lib =
     \<lparr>arch_pmu_init = nojevents_pmu_init, arch_pmu_free = (\<lambda>_. Inr),
      arch_pmu_begin = (\<lambda>_ _. Inr), arch_pmu_end = (\<lambda>_ _. Inr),
      arch_timestamp_begin = x86_timestamp_begin lib, arch_timestamp_end = x86_timestamp_end lib\<rparr>"

section \<open>The contract\<close>

definition x86_begin_row ::
  "('attr, 'ctx, 'e) x86_lib \<Rightarrow> 'ctx x86_pmu \<Rightarrow> u64 list \<times> 'e \<Rightarrow> u64 list \<times> 'e"
where
  "x86_begin_row lib p s =
     (if mckernel p then (fst s, fold (\<lambda>i. mck_pmc_reset lib (of_nat i)) [0..<active p] (snd s))
      else row_loop (x86_read lib p) (active p) s)"

definition x86_end_row ::
  "('attr, 'ctx, 'e) x86_lib \<Rightarrow> 'ctx x86_pmu \<Rightarrow> u64 list \<times> 'e \<Rightarrow> u64 list \<times> 'e"
where
  "x86_end_row lib p = row_loop (x86_delta lib p) (active p)"

lemma x86_events_Suc:
  "x86_events lib names (Suc n) s =
    and_then (x86_events lib names n s) (\<lambda>s. and_then (load names n) (\<lambda>event. Inr (x86_add_event lib event s)))"
  by (simp add: x86_events_def fold_res_upt_Suc del: upt_Suc)

lemma x86_add_event_active:
  "x86_add_event lib event s = (p, e) \<Longrightarrow> active p \<le> Suc (active (fst s)) \<and> mckernel p = mckernel (fst s)"
  by (auto simp: x86_add_event_def split: option.splits prod.splits if_splits)

lemma x86_events_active:
  "x86_events lib names n (p0, e0) = Inr (p, e) \<Longrightarrow> active p \<le> active p0 + n \<and> mckernel p = mckernel p0"
proof (induction n arbitrary: p e)
  case 0
  then show ?case by (simp add: x86_events_def)
next
  case (Suc n)
  then obtain p1 e1 event where 1: "x86_events lib names n (p0, e0) = Inr (p1, e1)"
    and 2: "x86_add_event lib event (p1, e1) = (p, e)"
    by (auto simp: x86_events_Suc and_then_Inr_iff)
  from Suc.IH [OF 1] x86_add_event_active [OF 2] show ?case by simp
qed

lemma x86_pmu_init_events:
  assumes "x86_pmu_init lib names n cp e = Inr (p, e1)" and "rdmsr lib IA32_PERF_GLOBAL_CTRL (-1) e = (g, e0)"
  shows "\<exists>e4. x86_events lib names (unat n)
    (\<lparr>ctx = [], active = 0, mckernel = mck_is_mckernel (syscall732 lib), global_ctrl = g\<rparr>, e0) = Inr (p, e4)"
  using assms by (auto simp: x86_pmu_init_def and_then_Inr_iff split: if_splits)

interpretation x86: pmu_contract "x86_arch lib" active "x86_begin_row lib" "x86_end_row lib" for lib
proof (unfold_locales, goal_cases)
  case (1 names n cp e p e')
  obtain g e0 where "rdmsr lib IA32_PERF_GLOBAL_CTRL (-1) e = (g, e0)" by fastforce
  with 1 obtain e1 where "x86_events lib names (unat n)
      (\<lparr>ctx = [], active = 0, mckernel = mck_is_mckernel (syscall732 lib), global_ctrl = g\<rparr>, e0) = Inr (p, e1)"
    using x86_pmu_init_events by fastforce
  then show ?case using x86_events_active by fastforce
next
  case (2 k p d e)
  then show ?case by (simp add: x86_pmu_begin_def x86_begin_row_def slot_loop_row_loop)
next
  case (3 k p d e)
  then show ?case by (simp add: x86_pmu_end_def x86_end_row_def slot_loop_row_loop)
next
  case (4 r p e)
  then show ?case by (simp add: x86_begin_row_def)
next
  case (5 r p e)
  then show ?case by (simp add: x86_end_row_def)
qed

interpretation nojevents: pmu_contract "nojevents_arch lib" "\<lambda>_. 0" "\<lambda>_. id" "\<lambda>_. id" for lib
  by unfold_locales (auto simp: nojevents_arch_def part_def)

text \<open>The rows of results on x86.\<close>

abbreviation "x86_row_rep lib \<equiv> pmu_contract.row_rep (x86_arch lib) active (x86_begin_row lib) (x86_end_row lib)"

abbreviation "x86_rows lib \<equiv> pmu_contract.rows (x86_arch lib) active (x86_begin_row lib) (x86_end_row lib)"

section \<open>Properties\<close>

text \<open>C17. The repetitions of a work item on x86: every access stays inside the part of the results
that belongs to the item, one row of a time and \<open>num_pmcs\<close> counters for each repetition, and the
item changes nothing else of them, as long as the 32-bit product in the offset does not overflow.\<close>

theorem x86_worker_layout:
  assumes "w_result w = Some b" and "active p \<le> unat (w_num_pmcs w)"
    and "Suc (unat (w_num_pmcs w)) * unat (w_reps w) < 2 ^ 32"
    and "b + Suc (unat (w_num_pmcs w)) * unat (w_reps w) \<le> length d"
  shows "\<exists>rs e'. run_reps (x86_arch lib) w p a (d, e) = Inr (patch b (concat rs) d, e') \<and>
    length rs = unat (w_reps w) \<and> (\<forall>r \<in> set rs. length r = Suc (unat (w_num_pmcs w)))"
proof -
  obtain rs e' where r: "x86_rows lib w p a b d e (unat (w_reps w)) = (rs, e')" by fastforce
  then have "run_reps (x86_arch lib) w p a (d, e) = Inr (patch b (concat rs) d, e')"
    by (subst x86.run_reps_rows [OF assms]) simp
  moreover have "length rs = unat (w_reps w) \<and> (\<forall>r \<in> set rs. length r = Suc (unat (w_num_pmcs w)))"
    using x86.rows_shape [OF assms(2,4), where lib = lib and a = a and e = e] r by simp
  ultimately show ?thesis by blast
qed

text \<open>The world at the start of repetition \<open>i\<close>, and after its reset.\<close>

definition after_reset :: "('a, 'e) work_t \<Rightarrow> 'a \<Rightarrow> 'e \<Rightarrow> 'e" where
  "after_reset w a e = (case b_reset_arg (w_ops w) of None \<Rightarrow> e | Some reset \<Rightarrow> reset a e)"

primrec rep_world :: "('a, 'e) work_t \<Rightarrow> 'a \<Rightarrow> 'e \<Rightarrow> nat \<Rightarrow> 'e" where
  "rep_world w a e 0 = e"
| "rep_world w a e (Suc i) = b_call (w_ops w) a (after_reset w a (rep_world w a e i))"

lemma x86_begin_row_pure:
  assumes "\<not> mckernel p" and "\<forall>c e. rdpmc_read lib c e = (rd c e, e)" and "active p \<le> length r"
  shows "x86_begin_row lib p (r, e) = (map (\<lambda>j. rd (ctx p ! j) e) [0..<active p] @ drop (active p) r, e)"
proof -
  have i: "fold (\<lambda>_ e. e) xs e = e" for xs :: "nat list" by (induction xs) simp_all
  show ?thesis
    using assms row_loop_const [of "x86_read lib p" "\<lambda>i e. rd (ctx p ! i) e" "\<lambda>_ e. e" "active p" r e]
    by (simp add: x86_begin_row_def x86_read_def i)
qed

lemma x86_end_row_pure:
  assumes "\<not> mckernel p" and "\<forall>c e. rdpmc_read lib c e = (rd c e, e)" and "active p \<le> length r"
  shows "x86_end_row lib p (r, e) = (map (\<lambda>j. rd (ctx p ! j) e - r ! j) [0..<active p] @ drop (active p) r, e)"
proof -
  have "n \<le> length r \<Longrightarrow> row_loop (x86_delta lib p) n (r, e) =
      (map (\<lambda>j. rd (ctx p ! j) e - r ! j) [0..<n] @ drop n r, e)" for n
  proof (induction n)
    case (Suc n)
    then show ?case
      using assms(1,2)
      by (simp add: row_loop_Suc x86_delta_def nth_append list_update_append Cons_nth_drop_Suc [symmetric])
  qed (simp add: row_loop_def)
  then show ?thesis using assms(3) by (simp add: x86_end_row_def)
qed

lemma x86_rows_pure:
  assumes "\<not> mckernel p" and "\<forall>c e. rdpmc_read lib c e = (rd c e, e)"
    and "\<forall>e. x86_timestamp_begin lib e = (t0 e, e)" and "\<forall>e. x86_timestamp_end lib e = (t1 e, e)"
    and "active p \<le> unat (w_num_pmcs w)" and "b + Suc (unat (w_num_pmcs w)) * i \<le> length d"
  shows "x86_rows lib w p a b d e i =
    (map (\<lambda>i. (t1 (rep_world w a e (Suc i)) - t0 (after_reset w a (rep_world w a e i))) #
        map (\<lambda>j. rd (ctx p ! j) (rep_world w a e (Suc i)) - rd (ctx p ! j) (after_reset w a (rep_world w a e i)))
          [0..<active p] @
        drop (Suc (active p)) (part (b + Suc (unat (w_num_pmcs w)) * i) (Suc (unat (w_num_pmcs w))) d)) [0..<i],
     rep_world w a e i)"
  using assms(6)
proof (induction i)
  case (Suc i)
  let ?n = "Suc (unat (w_num_pmcs w))"
  let ?r = "part (b + ?n * i) ?n d" and ?e = "after_reset w a (rep_world w a e i)"
  let ?e1 = "b_call (w_ops w) a ?e"
  have l: "length (part (Suc 0) (active p) ?r) = active p" using Suc.prems assms(5) by simp
  have "x86_row_rep lib w p a (?r, rep_world w a e i) =
      ((t1 ?e1 - t0 ?e) # map (\<lambda>j. rd (ctx p ! j) ?e1 - rd (ctx p ! j) ?e) [0..<active p] @
        drop (Suc (active p)) ?r, ?e1)"
    using l assms(3,4)
    by (simp add: x86.row_rep_def after_reset_def [symmetric] Let_def x86_begin_row_pure [OF assms(1,2)]
        x86_end_row_pure [OF assms(1,2)])
  then show ?case using Suc by (simp add: Let_def)
qed simp

text \<open>C15. What the results of a work item are on x86 under Linux, when reading a counter or the
clock leaves no trace in the world: in the row of every repetition first the ticks of this
repetition's call and then, for each event that was opened, the difference of its counter's
readings after and before the call, both taken after the reset of the benchmark; the repetitions
follow each other, each starting in the world the one before has left.\<close>

theorem x86_worker_results:
  assumes "\<not> mckernel p" and "\<forall>c e. rdpmc_read lib c e = (rd c e, e)"
    and "\<forall>e. x86_timestamp_begin lib e = (t0 e, e)" and "\<forall>e. x86_timestamp_end lib e = (t1 e, e)"
    and "w_result w = Some b" and "active p \<le> unat (w_num_pmcs w)"
    and "Suc (unat (w_num_pmcs w)) * unat (w_reps w) < 2 ^ 32"
    and "b + Suc (unat (w_num_pmcs w)) * unat (w_reps w) \<le> length d"
    and "i < unat (w_reps w)"
    and "m = b + Suc (unat (w_num_pmcs w)) * i"
    and "e1 = after_reset w a (rep_world w a e i)" and "e2 = b_call (w_ops w) a e1"
  shows "\<exists>d' e'. run_reps (x86_arch lib) w p a (d, e) = Inr (d', e') \<and>
    d' ! m = t1 e2 - t0 e1 \<and>
    (\<forall>j < active p. d' ! (m + Suc j) = rd (ctx p ! j) e2 - rd (ctx p ! j) e1)"
proof -
  let ?n = "Suc (unat (w_num_pmcs w))" and ?R = "unat (w_reps w)"
  obtain rs e' where r: "x86_rows lib w p a b d e ?R = (rs, e')" by fastforce
  have run: "run_reps (x86_arch lib) w p a (d, e) = Inr (patch b (concat rs) d, e')"
    using r by (subst x86.run_reps_rows [OF assms(5-8)]) simp
  have sh: "length rs = ?R" "\<forall>r \<in> set rs. length r = ?n"
    using x86.rows_shape [OF assms(6,8), where lib = lib and a = a and e = e] r by simp_all
  have row: "rs ! i = (t1 e2 - t0 e1) # map (\<lambda>j. rd (ctx p ! j) e2 - rd (ctx p ! j) e1) [0..<active p] @
      drop (Suc (active p)) (part m ?n d)"
    using r assms(9-12) x86_rows_pure [OF assms(1-4,6,8), where a = a and e = e]
    by (auto simp: less_Suc_eq)
  have "patch b (concat rs) d ! (m + k) = rs ! i ! k" if "k < ?n" for k
  proof -
    have "Suc i \<le> ?R" using assms(9) by simp
    then have "?n * Suc i \<le> ?n * ?R" by (rule mult_le_mono2)
    moreover have "length (concat rs) = ?n * ?R"
      using length_concat_rows [OF sh(2)] sh(1) by (simp add: mult.commute)
    ultimately have "patch b (concat rs) d ! (m + k) = concat rs ! (?n * i + k)"
      using that assms(8,10) by (simp add: nth_patch add.assoc)
    then show ?thesis
      using nth_concat_rows [OF sh(2), of i k] sh(1) assms(9) that by (simp add: mult.commute)
  qed
  from this [of 0] this [of "Suc _"] have
    "patch b (concat rs) d ! m = t1 e2 - t0 e1 \<and>
     (\<forall>j < active p. patch b (concat rs) d ! (m + Suc j) = rd (ctx p ! j) e2 - rd (ctx p ! j) e1)"
    using row assms(6) by (simp add: nth_append)
  with run show ?thesis by blast
qed

lemma x86_events_ok:
  "x86_events lib names n (p0, e0) = Inr (p, e) \<Longrightarrow> length (ctx p0) = active p0 \<Longrightarrow> \<not> mckernel p0 \<Longrightarrow>
    length (ctx p) = active p"
proof (induction n arbitrary: p e)
  case 0
  then show ?case by (simp add: x86_events_def)
next
  case (Suc n)
  then obtain p1 e1 event where 1: "x86_events lib names n (p0, e0) = Inr (p1, e1)"
    and 2: "x86_add_event lib event (p1, e1) = (p, e)"
    by (auto simp: x86_events_Suc and_then_Inr_iff)
  with Suc.IH [OF 1] Suc.prems x86_events_active [OF 1] show ?case
    by (auto simp: x86_add_event_def split: option.splits prod.splits)
qed

lemma x86_events_global:
  "x86_events lib names n (p0, e0) = Inr (p, e) \<Longrightarrow> global_ctrl p = global_ctrl p0"
proof (induction n arbitrary: p e)
  case 0
  then show ?case by (simp add: x86_events_def)
next
  case (Suc n)
  then obtain p1 e1 event where 1: "x86_events lib names n (p0, e0) = Inr (p1, e1)"
    and 2: "x86_add_event lib event (p1, e1) = (p, e)"
    by (auto simp: x86_events_Suc and_then_Inr_iff)
  with Suc.IH [OF 1] show ?case
    by (auto simp: x86_add_event_def split: option.splits prod.splits if_splits)
qed

text \<open>Whatever the initialisation has made of the requested events, freeing the counters is
safe: under Linux it closes the contexts that were opened and no others, under McKernel it restores
a value of the control register that was read. The value that a failed read under Linux leaves
indeterminate, which the initialisation asks for with the file descriptor -1, is never used.\<close>

lemma x86_free_ok:
  assumes "x86_pmu_init lib names n cp e = Inr (p, e1)"
  shows "\<exists>e3. x86_pmu_free lib p e2 = Inr e3"
proof -
  obtain g e0 where g: "rdmsr lib IA32_PERF_GLOBAL_CTRL (-1) e = (g, e0)" by fastforce
  obtain e4 where ev: "x86_events lib names (unat n)
      (\<lparr>ctx = [], active = 0, mckernel = mck_is_mckernel (syscall732 lib), global_ctrl = g\<rparr>, e0) = Inr (p, e4)"
    using x86_pmu_init_events [OF assms g] by blast
  have mk: "mckernel p = mck_is_mckernel (syscall732 lib)" using x86_events_active [OF ev] by simp
  show ?thesis
  proof (cases "mckernel p")
    case True
    then have "g \<noteq> None" using g mk by (auto simp: rdmsr_def map_prod_def split: prod.splits)
    then show ?thesis using True x86_events_global [OF ev] by (auto simp: x86_pmu_free_def)
  next
    case False
    then have l: "length (ctx p) = active p" using x86_events_ok [OF ev] mk by simp
    have "\<exists>e3. fold_res (\<lambda>i e. and_then (load (ctx p) i) (\<lambda>c. Inr (rdpmc_close lib c e))) [0..<active p] e2 = Inr e3 \<and> True"
      by (rule fold_res_upt_inv) (simp_all add: l)
    then show ?thesis using False by (simp add: x86_pmu_free_def)
  qed
qed

section \<open>Witnesses\<close>

text \<open>
  A machine whose world is a tick count and two counters; reading has no effect. The event
  \<open>a\<close> is counter 0, the event \<open>b\<close> counter 1, and nothing else resolves.
\<close>

definition demo_lib :: "(nat, nat, nat \<times> nat \<times> nat) x86_lib" where
  "demo_lib =
     \<lparr>rdtsc = (\<lambda>e. ((0, of_nat (fst e)), e)), rdtscp = (\<lambda>e. ((0, of_nat (fst e)), e)),
      rdpmc_insn = (\<lambda>i e. ((0, 0), e)), syscall732 = -1, syscall601 = (\<lambda>_ _ _ e. (0, e)),
      syscall604 = (\<lambda>_ e. e), syscall850 = (\<lambda>_ e. (0, e)), syscall851 = (\<lambda>_ _ e. e),
      pread8 = (\<lambda>_ _ _. None),
      resolve_event = (\<lambda>s. if s = ''a'' then Some 0 else if s = ''b'' then Some 1 else None),
      attr_config = of_nat, rdpmc_open_attr = (\<lambda>x e. (Some x, e)),
      rdpmc_read = (\<lambda>c e. (of_nat (if c = 0 then fst (snd e) else snd (snd e)), e)),
      rdpmc_close = (\<lambda>_ e. e)\<rparr>"

definition demo_work :: "(unit, nat \<times> nat \<times> nat) work_t" where
  "demo_work = \<lparr>w_ops = \<lparr>b_name = ''demo'', b_init_arg = None, b_reset_arg = None, b_free_arg = None,
       b_call = (\<lambda>_ (t, x, y). (t + 10, x + 1, y + 2)), b_state = ()\<rparr>,
     w_arg = (), w_result = Some 1, w_reps = 2, w_pmcs = [''?'', ''b''], w_num_pmcs = 2\<rparr>"

definition demo_pmu :: "nat x86_pmu" where
  "demo_pmu = \<lparr>ctx = [1], active = 1, mckernel = False, global_ctrl = None\<rparr>"

theorem x86_worker_layout_witness:
  "\<exists>rs e'. run_reps (x86_arch demo_lib) demo_work demo_pmu () (replicate 8 0, (5, 0, 0)) =
      Inr (patch 1 (concat rs) (replicate 8 0), e') \<and> length rs = 2 \<and> (\<forall>r \<in> set rs. length r = 3)"
  using x86_worker_layout [of demo_work 1 demo_pmu "replicate 8 0" demo_lib "()" "(5, 0, 0)"]
  by (simp add: demo_work_def demo_pmu_def)

lemma demo_reads:
  "\<not> mckernel demo_pmu"
  "\<forall>c e. rdpmc_read demo_lib c e = (of_nat (if c = 0 then fst (snd e) else snd (snd e)), e)"
  "\<forall>e. x86_timestamp_begin demo_lib e = (join_halves (0, of_nat (fst e)), e)"
  "\<forall>e. x86_timestamp_end demo_lib e = (join_halves (0, of_nat (fst e)), e)"
  by (simp_all add: demo_pmu_def demo_lib_def x86_timestamp_begin_def x86_timestamp_end_def)

lemma demo_worlds:
  "rep_world demo_work () (5, 0, 0) 1 = (15, 1, 2)"
  "after_reset demo_work () e = e"
  "b_call (w_ops demo_work) () (15, 1, 2) = (25, 2, 4)"
  by (simp_all add: demo_work_def after_reset_def)

theorem x86_worker_results_witness:
  "\<exists>d' e'. run_reps (x86_arch demo_lib) demo_work demo_pmu () (replicate 8 0, (5, 0, 0)) = Inr (d', e') \<and>
    d' ! 4 = 10 \<and> d' ! 5 = 2"
proof -
  have "w_result demo_work = Some 1" "active demo_pmu \<le> unat (w_num_pmcs demo_work)"
    "Suc (unat (w_num_pmcs demo_work)) * unat (w_reps demo_work) < 2 ^ 32"
    "1 + Suc (unat (w_num_pmcs demo_work)) * unat (w_reps demo_work) \<le> length (replicate 8 (0 :: u64))"
    "1 < unat (w_reps demo_work)" "4 = 1 + Suc (unat (w_num_pmcs demo_work)) * 1"
    by (simp_all add: demo_work_def demo_pmu_def)
  from x86_worker_results [OF demo_reads this refl refl, where a = "()" and e = "(5, 0, 0)"]
  show ?thesis
    unfolding demo_worlds by (simp add: demo_pmu_def join_halves_def)
qed

end
