(* ===== verification/Policy_X86.thy ===== *)
theory Policy_X86
  imports Policy_Proofs Arch_X86
begin

text \<open>
  The policies on the counters of x86: the interpretation of progress for the whole system, and
  what each policy leaves in the results and in the mailboxes.
\<close>

abbreviation "x86_start lib \<equiv>
  pmu_contract.sys_start (x86_arch lib) active (x86_begin_row lib) (x86_end_row lib)"

abbreviation "x86_inv lib \<equiv>
  pmu_contract.sys_inv (x86_arch lib) active (x86_begin_row lib) (x86_end_row lib)"

abbreviation "x86_plan_ok lib \<equiv>
  pmu_contract.plan_ok (x86_arch lib) active (x86_begin_row lib) (x86_end_row lib)"

abbreviation "x86_step lib pl \<equiv> sys_step (x86_arch lib) (pl_cpus pl) (pl_works pl) (pl_lim pl)"

text \<open>The contract of the counters holds on x86, so the lemmas of the policies do.\<close>

lemmas x86_contract = x86.pmu_contract_axioms

lemmas x86_policy =
  pmu_contract.sys_start_inv [OF x86_contract] pmu_contract.sys_step_inv [OF x86_contract]
  pmu_contract.sys_step_fuel [OF x86_contract] pmu_contract.sys_progress [OF x86_contract]

interpretation x86_run: progress_system
  "x86_start lib pl" "x86_step lib pl" "x86_inv lib pl" "x86_step lib pl" sys_final "sys_fuel pl" for lib pl
  by unfold_locales
    (blast intro: x86_policy)+

section \<open>Plans for the scripts of the policies\<close>

text \<open>The parts of the results of the workers follow each other.\<close>

lemma work_item_base:
  assumes "N * unat R * unat n < 2 ^ 32" and "i < N"
  shows "unat (of_nat i * R * n :: u32) = i * (unat R * unat n)"
proof (cases "R = 0 \<or> n = 0")
  case False
  then have "1 \<le> unat R" and "1 \<le> unat n" by (simp_all add: Suc_le_eq unat_gt_0)
  have "i * unat R * unat n \<le> N * unat R * unat n" using assms(2) by simp
  from le_less_trans [OF this assms(1)] have b: "i * unat R * unat n < 2 ^ 32" .
  have "i * unat R \<le> i * unat R * unat n" using mult_le_mono2 [OF \<open>1 \<le> unat n\<close>, of "i * unat R"] by simp
  from le_less_trans [OF this b] have c: "i * unat R < 2 ^ 32" .
  have "i \<le> i * unat R" using mult_le_mono2 [OF \<open>1 \<le> unat R\<close>, of i] by simp
  from le_less_trans [OF this c] have "i < 2 ^ 32" .
  then have "unat (of_nat i :: u32) = i" by (simp add: unat_of_nat32)
  with c have "unat (of_nat i * R :: u32) = i * unat R" by (simp only: unat_word_ariths) simp
  with b have "unat (of_nat i * R * n :: u32) = i * unat R * unat n" by (simp only: unat_word_ariths) simp
  then show ?thesis by (simp add: mult.assoc)
qed auto

lemma row_length: "0 < n \<Longrightarrow> Suc (unat (n - 1 :: u32)) = unat n"
  by (simp add: unat_minus_one unat_gt_0) 

text \<open>What is asked of the items of a policy: every one of them fits, and can be prepared.\<close>

definition items_ok ::
  "('attr, 'ctx, 'e) x86_lib \<Rightarrow> nat \<Rightarrow> (nat \<Rightarrow> u32) \<Rightarrow> (nat \<Rightarrow> ('a, 'e) work_t) \<Rightarrow> (nat \<Rightarrow> 'e) \<Rightarrow> u32 \<Rightarrow> u32 \<Rightarrow>
    (nat \<Rightarrow> 'a \<times> 'ctx x86_pmu \<times> 'e) \<Rightarrow> u64 list \<Rightarrow> bool"
where
  "items_ok lib N cpus works env R n prep d \<longleftrightarrow>
     0 < N \<and> 0 < n \<and> N * unat R * unat n < 2 ^ 32 \<and> length d = N * unat R * unat n \<and>
     (\<forall>i < N. w_reps (works i) = R \<and> w_num_pmcs (works i) = n - 1 \<and>
        w_result (works i) = Some (unat (of_nat i * R * n :: u32)) \<and>
        item_prepare (x86_arch lib) (cpus i) (works i) (env i) = Inr (prep i))"

lemma x86_plan:
  assumes ok: "items_ok lib N cpus works env R n prep d"
    and scr: "script_ok N lim script" "\<forall>i < N. Queue i \<in> set script" "Start \<in> set script"
    and lim: "lim = 1 \<or> lim = N"
  shows "\<exists>pl. x86_plan_ok lib pl \<and> pl_n pl = N \<and> pl_lim pl = lim \<and> pl_works pl = works \<and> pl_cpus pl = cpus \<and>
    pl_env pl = env \<and> pl_data pl = d \<and> pl_script pl = script \<and> (\<forall>i < N. base pl i = i * (unat R * unat n) \<and>
      seg pl i = unat R * unat n \<and> prep i = (pl_arg pl i, pl_pmu pl i, pl_prep pl i))"
proof -
  define pl0 where "pl0 = \<lparr>pl_n = N, pl_lim = lim, pl_works = works, pl_cpus = cpus, pl_env = env, pl_data = d,
    pl_script = script, pl_arg = fst \<circ> prep, pl_pmu = fst \<circ> snd \<circ> prep, pl_prep = snd \<circ> snd \<circ> prep,
    pl_end = env\<rparr>"
  let ?e = "\<lambda>i. snd (pmu_contract.refrows (x86_arch lib) active (x86_begin_row lib) (x86_end_row lib) pl0 i (nreps pl0 i))"
  have "\<exists>e3. x86_pmu_free lib (pl_pmu pl0 i) (?e i) = Inr e3" if "i < N" for i
  proof -
    obtain a p e where pr: "prep i = (a, p, e)" by (cases "prep i")
    have "item_prepare (x86_arch lib) (cpus i) (works i) (env i) = Inr (prep i)"
      using ok that by (simp add: items_ok_def)
    with pr obtain e1 e2 where "x86_pmu_init lib (w_pmcs (works i)) (w_num_pmcs (works i)) (cpus i) e1 =
        Inr (pl_pmu pl0 i, e2)"
      by (auto simp: item_prepare_def and_then_Inr_iff split_def Let_def pl0_def)
    then show ?thesis by (rule x86_free_ok)
  qed
  then obtain fin where fin: "\<forall>i < N. x86_pmu_free lib (pl_pmu pl0 i) (?e i) = Inr (fin i)" by metis
  let ?pl = "pl0\<lparr>pl_end := fin\<rparr>"
  have b: "base ?pl i = i * (unat R * unat n)" "seg ?pl i = unat R * unat n" if "i < N" for i
    using ok that work_item_base [of N R n i] row_length [of n]
    by (simp_all add: items_ok_def pl0_def mult.commute)
  have e: "pmu_contract.refrows (x86_arch lib) active (x86_begin_row lib) (x86_end_row lib) ?pl =
      pmu_contract.refrows (x86_arch lib) active (x86_begin_row lib) (x86_end_row lib) pl0"
    by (intro ext) (simp add: pmu_contract.refrows_def [OF x86_contract])
  have apart: "i * L + L \<le> j * L \<or> j * L + L \<le> i * L" if "i \<noteq> j" for i j L :: nat
    using that mult_le_mono1 [of "Suc i" j L] mult_le_mono1 [of "Suc j" i L] by (cases "i < j") auto
  have fit: "i * (unat R * unat n) + unat R * unat n \<le> length d" if "i < N" for i
    using ok that mult_le_mono1 [of "Suc i" N "unat R * unat n"] by (simp add: items_ok_def mult.assoc)
  have small: "unat R * unat n < 2 ^ 32"
  proof -
    have "unat R * unat n \<le> N * unat R * unat n"
      using ok mult_le_mono1 [of 1 N "unat R * unat n"] by (simp add: items_ok_def Suc_le_eq mult.assoc)
    then show ?thesis by (rule le_less_trans) (use ok in \<open>simp add: items_ok_def\<close>)
  qed
  have "w_result (works i) \<noteq> None \<and> item_prepare (x86_arch lib) (cpus i) (works i) (env i) =
      Inr (pl_arg ?pl i, pl_pmu ?pl i, pl_prep ?pl i)" if "i < N" for i
    using ok that by (simp add: items_ok_def pl0_def)
  then have "x86_plan_ok lib ?pl"
    using ok scr lim fin b fit small apart unfolding pmu_contract.plan_ok_def [OF x86_contract] e
    by (simp add: items_ok_def pl0_def)
  then show ?thesis
    using b by (intro exI [of _ ?pl]) (simp add: pl0_def)
qed

section \<open>Results\<close>

text \<open>
  The part of the results of worker \<open>i\<close> is what it would be had this worker run alone, from
  the same contents and the same world.
\<close>

definition as_alone ::
  "('attr, 'ctx, 'e) x86_lib \<Rightarrow> ('a, 'e) work_t \<Rightarrow> 'a \<times> 'ctx x86_pmu \<times> 'e \<Rightarrow> nat \<Rightarrow> nat \<Rightarrow> u64 list \<Rightarrow> u64 list \<Rightarrow> bool"
where
  "as_alone lib w pr k len d d1 \<longleftrightarrow>
     (\<exists>d2 e2. run_reps (x86_arch lib) w (fst (snd pr)) (fst pr) (d, snd (snd pr)) = Inr (d2, e2) \<and>
        part k len d1 = part k len d2)"

abbreviation "policy_reach lib N cpus works lim script env d \<equiv>
  reach (\<lambda>s. s = policy_start N script env d) (sys_step (x86_arch lib) cpus works lim)"

lemma policy_reach_inv:
  assumes "items_ok lib N cpus works env R n prep d"
    and "script_ok N lim script" "\<forall>i < N. Queue i \<in> set script" "Start \<in> set script" "lim = 1 \<or> lim = N"
    and r: "policy_reach lib N cpus works lim script env d s"
  obtains pl where "x86_inv lib pl s" "pl_n pl = N" "pl_lim pl = lim" "pl_works pl = works" "pl_cpus pl = cpus"
    "pl_data pl = d" "pl_script pl = script" "x86_plan_ok lib pl"
    "\<forall>i < N. base pl i = i * (unat R * unat n) \<and> seg pl i = unat R * unat n \<and>
      prep i = (pl_arg pl i, pl_pmu pl i, pl_prep pl i)"
proof -
  obtain pl where pl: "x86_plan_ok lib pl" "pl_n pl = N" "pl_lim pl = lim" "pl_works pl = works" "pl_cpus pl = cpus"
    "pl_env pl = env" "pl_data pl = d" "pl_script pl = script"
    "\<forall>i < N. base pl i = i * (unat R * unat n) \<and> seg pl i = unat R * unat n \<and>
      prep i = (pl_arg pl i, pl_pmu pl i, pl_prep pl i)"
    using x86_plan [OF assms(1-5)] by blast
  have st: "x86_start lib pl (policy_start N script env d)"
    using pl workers_start_rest [of N env]
    by (auto simp: pmu_contract.sys_start_def [OF x86_contract] policy_start_def workers_start_def
        intro!: exI [of _ "workers_start N env"])
  have "reach (x86_start lib pl) (x86_step lib pl) s"
    using r unfolding pl(3-5)
    by (induction rule: reach.induct) (use st in \<open>auto intro: reach.intros\<close>)
  then have "x86_inv lib pl s" by (rule x86_run.reach_inv)
  with pl that show ?thesis by blast
qed

lemma policy_never_fails:
  assumes "items_ok lib N cpus works env R n prep d"
    and "script_ok N lim script" "\<forall>i < N. Queue i \<in> set script" "Start \<in> set script" "lim = 1 \<or> lim = N"
    and "policy_reach lib N cpus works lim script env d s"
  shows "\<not> y_failed s"
  using policy_reach_inv [OF assms] pmu_contract.sys_invD(2) [OF x86_contract] by metis

lemma policy_completes:
  assumes "items_ok lib N cpus works env R n prep d"
    and "script_ok N lim script" "\<forall>i < N. Queue i \<in> set script" "Start \<in> set script" "lim = 1 \<or> lim = N"
    and "policy_reach lib N cpus works lim script env d s"
  shows "(\<exists>t. (sys_step (x86_arch lib) cpus works lim)\<^sup>*\<^sup>* s t \<and> y_script t = []) \<and>
    \<not> (\<exists>f. f 0 = s \<and> (\<forall>i. sys_step (x86_arch lib) cpus works lim (f i) (f (Suc i))))"
proof -
  obtain pl where pl: "x86_inv lib pl s" "pl_lim pl = lim" "pl_works pl = works" "pl_cpus pl = cpus"
    using policy_reach_inv [OF assms] by metis
  have "\<exists>t. (x86_step lib pl)\<^sup>*\<^sup>* s t \<and> sys_final t" by (rule x86_run.reaches_final [OF pl(1)])
  moreover have "\<not> (\<exists>f. f 0 = s \<and> (\<forall>i. x86_step lib pl (f i) (f (Suc i))))"
    using x86_run.no_infinite_run [where lib = lib and pl = pl] pl(1) by metis
  ultimately show ?thesis unfolding pl(2-4) by (simp add: sys_final_def)
qed

lemma plan_result:
  assumes inv: "x86_inv lib pl s" and f: "y_script s = []" and i: "i < pl_n pl"
    and c: "i = 0 \<or> Collect i \<in> set (pl_script pl)"
  shows "as_alone lib (pl_works pl i) (pl_arg pl i, pl_pmu pl i, pl_prep pl i) (base pl i) (seg pl i) (pl_data pl) (y_data s) \<and>
    mb_s (y_mb s i) = (if Collect i \<in> set (pl_script pl) then IDLE else DONE) \<and>
    mb_work (y_mb s i) = (if Collect i \<in> set (pl_script pl) then None else Some (pl_works pl i))"
proof -
  have fin: "sys_final s" using f by (simp add: sys_final_def)
  note res = pmu_contract.sys_final_result [OF x86_contract inv fin i c]
  note ok = pmu_contract.plan_okD [OF x86_contract pmu_contract.sys_invD(1) [OF x86_contract inv] i]
  have m: "seg pl i < 2 ^ 32" "base pl i + seg pl i \<le> length (pl_data pl)" using ok(2,3) .
  have "run_reps (x86_arch lib) (pl_works pl i) (pl_pmu pl i) (pl_arg pl i) (pl_data pl, pl_prep pl i) =
      Inr (map_prod (\<lambda>rs. patch (base pl i) (concat rs) (pl_data pl)) id
        (x86_rows lib (pl_works pl i) (pl_pmu pl i) (pl_arg pl i) (base pl i) (pl_data pl) (pl_prep pl i) (nreps pl i)))"
    using x86.run_reps_rows [OF ok(1,6) m, where lib = lib] .
  moreover have "part (base pl i) (seg pl i) (y_data s) = part (base pl i) (seg pl i) (patch (base pl i)
      (concat (fst (x86_rows lib (pl_works pl i) (pl_pmu pl i) (pl_arg pl i) (base pl i) (pl_data pl) (pl_prep pl i)
        (nreps pl i)))) (pl_data pl))"
    using res
    by (simp add: pmu_contract.own_def [OF x86_contract] pmu_contract.image_def [OF x86_contract]
        pmu_contract.refrows_def [OF x86_contract])
  ultimately have "as_alone lib (pl_works pl i) (pl_arg pl i, pl_pmu pl i, pl_prep pl i) (base pl i) (seg pl i)
      (pl_data pl) (y_data s)"
    by (cases "x86_rows lib (pl_works pl i) (pl_pmu pl i) (pl_arg pl i) (base pl i) (pl_data pl) (pl_prep pl i) (nreps pl i)")
      (simp add: as_alone_def)
  then show ?thesis using res by simp
qed

text \<open>
  At the end of a policy that collects its item, the world of a worker is the one that its item leaves
  when the worker runs it alone, from the world at the start.
\<close>

lemma plan_alone:
  assumes inv: "x86_inv lib pl s" and f: "y_script s = []" and i: "i < pl_n pl"
    and c: "Collect i \<in> set (pl_script pl)"
  shows "\<exists>d2. run_item (x86_arch lib) (pl_cpus pl i) (pl_works pl i) (pl_data pl, pl_env pl i) = Inr (d2, y_env s i) \<and>
    length d2 = length (pl_data pl) \<and> part (base pl i) (seg pl i) (y_data s) = part (base pl i) (seg pl i) d2"
proof -
  note ok = pmu_contract.plan_okD [OF x86_contract pmu_contract.sys_invD(1) [OF x86_contract inv] i]
  have m: "seg pl i < 2 ^ 32" "base pl i + seg pl i \<le> length (pl_data pl)" using ok(2,3) .
  obtain rs e where r: "x86_rows lib (pl_works pl i) (pl_pmu pl i) (pl_arg pl i) (base pl i) (pl_data pl) (pl_prep pl i)
      (nreps pl i) = (rs, e)" by fastforce
  have run: "run_reps (x86_arch lib) (pl_works pl i) (pl_pmu pl i) (pl_arg pl i) (pl_data pl, pl_prep pl i) =
      Inr (patch (base pl i) (concat rs) (pl_data pl), e)"
    using x86.run_reps_rows [OF ok(1,6) m, where lib = lib] r by simp
  have "pmu_contract.finished (x86_arch lib) active (x86_begin_row lib) (x86_end_row lib) pl s i"
    using pmu_contract.sys_invD(5) [OF x86_contract inv i] f c
    by (simp add: pmu_contract.worker_ok_def [OF x86_contract] pmu_contract.open_end_def [OF x86_contract])
  then have "y_env s i = pl_end pl i" by (simp add: pmu_contract.finished_def [OF x86_contract])
  moreover have "arch_pmu_free (x86_arch lib) (pl_pmu pl i) e = Inr (pl_end pl i)"
    using ok(5) r by (simp add: pmu_contract.refrows_def [OF x86_contract])
  ultimately have "run_item (x86_arch lib) (pl_cpus pl i) (pl_works pl i) (pl_data pl, pl_env pl i) =
      Inr (patch (base pl i) (concat rs) (pl_data pl), y_env s i)"
    using ok(4) run by (simp add: run_item_def)
  moreover have "part (base pl i) (seg pl i) (y_data s) =
      part (base pl i) (seg pl i) (patch (base pl i) (concat rs) (pl_data pl))"
    using plan_result [OF inv f i] c run by (auto simp: as_alone_def)
  moreover have "length (concat rs) = seg pl i"
    using x86.rows_shape [OF ok(6) m(2), of lib "pl_arg pl i" "pl_prep pl i"] r
      length_concat_rows [of rs "rowlen pl i"] by (simp add: mult.commute)
  ultimately show ?thesis using m(2) by (intro exI [of _ "patch (base pl i) (concat rs) (pl_data pl)"]) simp
qed

lemma policy_result:
  assumes it: "items_ok lib N cpus works env R n prep d"
    and "script_ok N lim script" "\<forall>i < N. Queue i \<in> set script" "Start \<in> set script" "lim = 1 \<or> lim = N"
    and r: "policy_reach lib N cpus works lim script env d s"
    and f: "y_script s = []" and i: "i < N" "i = 0 \<or> Collect i \<in> set script"
  shows "as_alone lib (works i) (prep i) (i * (unat R * unat n)) (unat R * unat n) d (y_data s) \<and>
    mb_s (y_mb s i) = (if Collect i \<in> set script then IDLE else DONE) \<and>
    mb_work (y_mb s i) = (if Collect i \<in> set script then None else Some (works i))"
proof -
  obtain pl where pl: "x86_inv lib pl s" "pl_n pl = N" "pl_works pl = works" "pl_data pl = d" "pl_script pl = script"
    "base pl i = i * (unat R * unat n)" "seg pl i = unat R * unat n"
    "prep i = (pl_arg pl i, pl_pmu pl i, pl_prep pl i)"
    using policy_reach_inv [OF assms(1-6)] i(1) by metis
  show ?thesis
    using plan_result [OF pl(1) f, of i] i pl(2-) by simp
qed

section \<open>The three policies\<close>

lemma items_ok_work_item:
  assumes "0 < N" and "0 < n" and "N * unat R * unat n < 2 ^ 32" and "length d = N * unat R * unat n"
    and "\<forall>i < N. \<exists>bench. works i = work_item bench R names n i"
    and "\<forall>i < N. item_prepare (x86_arch lib) (cpus i) (works i) (env i) = Inr (prep i)"
  shows "items_ok lib N cpus works env R n prep d"
  unfolding items_ok_def
proof (intro conjI allI impI)
  fix i assume "i < N"
  then obtain bench where "works i = work_item bench R names n i" using assms(5) by blast
  then show "w_reps (works i) = R" "w_num_pmcs (works i) = n - 1"
    "w_result (works i) = Some (unat (of_nat i * R * n :: u32))"
    by (simp_all add: work_item_def)
qed (use assms in simp_all)

text \<open>C5. The parallel policy. In no interleaving of the main thread and the workers does an
assertion of the mailbox fail, is the array of results accessed outside, or does a worker exit; and
when the main thread is through, every mailbox is empty again and every worker's part of the results
is what it would be had the worker run alone.\<close>

theorem run_in_parallel_results:
  assumes "0 < N" and "0 < n" and "N * unat R * unat n < 2 ^ 32" and "length d = N * unat R * unat n"
    and "\<forall>i < N. item_prepare (x86_arch lib) (cpus i) (work_item bench R names n i) (env i) = Inr (prep i)"
    and "policy_reach lib N cpus (work_item bench R names n) N (run_in_parallel N) env d s"
  shows "\<not> y_failed s \<and>
    (y_script s = [] \<longrightarrow> (\<forall>i < N. mb_s (y_mb s i) = IDLE \<and> mb_work (y_mb s i) = None \<and>
      as_alone lib (work_item bench R names n i) (prep i) (i * (unat R * unat n)) (unat R * unat n) d (y_data s)))"
proof -
  have it: "items_ok lib N cpus (work_item bench R names n) env R n prep d"
    by (rule items_ok_work_item) (use assms in auto)
  note all = it run_in_parallel_ok [of N N] _ _ _ assms(6)
  show ?thesis
    using policy_never_fails [OF all] policy_result [OF all] by (simp add: script_queues script_collects script_start)
qed

text \<open>C13. The parallel policy ends: from every state that it reaches the main thread and the workers
can run on until the main thread is through, no thread waits for ever at the barrier or at a mailbox,
and no run is infinite.\<close>

theorem run_in_parallel_completes:
  assumes "0 < N" and "0 < n" and "N * unat R * unat n < 2 ^ 32" and "length d = N * unat R * unat n"
    and "\<forall>i < N. item_prepare (x86_arch lib) (cpus i) (work_item bench R names n i) (env i) = Inr (prep i)"
    and "policy_reach lib N cpus (work_item bench R names n) N (run_in_parallel N) env d s"
  shows "(\<exists>t. (sys_step (x86_arch lib) cpus (work_item bench R names n) N)\<^sup>*\<^sup>* s t \<and> y_script t = []) \<and>
    \<not> (\<exists>f. f 0 = s \<and> (\<forall>i. sys_step (x86_arch lib) cpus (work_item bench R names n) N (f i) (f (Suc i))))"
proof -
  have it: "items_ok lib N cpus (work_item bench R names n) env R n prep d"
    by (rule items_ok_work_item) (use assms in auto)
  show ?thesis
    by (rule policy_completes [OF it run_in_parallel_ok _ _ _ assms(6)]) (simp_all add: script_queues script_start)
qed

text \<open>C14. The policy that runs one worker after the other, with a barrier for one: nothing fails, the
run ends, and at its end the mailboxes are empty and every worker's part of the results is what it
would be had the worker run alone.\<close>

theorem run_one_by_one_results:
  assumes "0 < N" and "0 < n" and "N * unat R * unat n < 2 ^ 32" and "length d = N * unat R * unat n"
    and "\<forall>i < N. item_prepare (x86_arch lib) (cpus i) (work_item bench R names n i) (env i) = Inr (prep i)"
    and "policy_reach lib N cpus (work_item bench R names n) 1 (run_one_by_one N) env d s"
  shows "\<not> y_failed s \<and> (\<exists>t. (sys_step (x86_arch lib) cpus (work_item bench R names n) 1)\<^sup>*\<^sup>* s t \<and> y_script t = []) \<and>
    (y_script s = [] \<longrightarrow> (\<forall>i < N. mb_s (y_mb s i) = IDLE \<and> mb_work (y_mb s i) = None \<and>
      as_alone lib (work_item bench R names n i) (prep i) (i * (unat R * unat n)) (unat R * unat n) d (y_data s)))"
proof -
  have it: "items_ok lib N cpus (work_item bench R names n) env R n prep d"
    by (rule items_ok_work_item) (use assms in auto)
  note all = it run_one_by_one_ok [of N] _ _ _ assms(6)
  show ?thesis
    using policy_never_fails [OF all] policy_completes [OF all] policy_result [OF all] assms(1)
    by (simp add: script_queues script_collects script_start)
qed

text \<open>The policy for two benchmarks forgets the dirigent: it waits for the workers from 1 on, so at
its end the mailbox of worker 0 still holds the finished item in the state \<open>DONE\<close>, and the next
\<open>queue_work\<close> to worker 0, whatever the item, fails its assertion.\<close>

lemma run_two_benchmarks_leaves_item:
  assumes "0 < N" and "0 < n" and "N * unat R * unat n < 2 ^ 32" and "length d = N * unat R * unat n"
    and "\<forall>i < N. item_prepare (x86_arch lib) (cpus i) (pair_item set1 ops1 ops2 R names n cpus i) (env i) = Inr (prep i)"
    and "policy_reach lib N cpus (pair_item set1 ops1 ops2 R names n cpus) N (run_two_benchmarks N) env d s"
    and "y_script s = []"
  shows "mb_s (y_mb s 0) = DONE \<and> queue_work w (y_mb s 0) = Inl AssertFailed"
proof -
  have it: "items_ok lib N cpus (pair_item set1 ops1 ops2 R names n cpus) env R n prep d"
    by (rule items_ok_work_item) (use assms in \<open>auto simp: pair_item_def\<close>)
  have "mb_s (y_mb s 0) = DONE \<and> mb_work (y_mb s 0) \<noteq> None"
    using policy_result [OF it run_two_benchmarks_ok [of N N] _ _ _ assms(6,7,1)]
    by (simp add: script_queues script_collects script_start)
  then show ?thesis by (simp add: queue_work_def)
qed

section \<open>Witnesses\<close>

text \<open>Two workers with one counter each and two repetitions on the machine of \<open>demo_lib\<close>.\<close>

definition demo_bench :: "(unit, nat \<times> nat \<times> nat) benchmark_t" where
  "demo_bench = w_ops demo_work"

definition demo_prep :: "nat \<Rightarrow> unit \<times> nat x86_pmu \<times> (nat \<times> nat \<times> nat)" where
  "demo_prep i = ((), demo_pmu, (5, i, 0))"

lemma demo_prepares:
  "item_prepare (x86_arch demo_lib) c (work_item demo_bench 2 [''b''] 2 i) (5, i, 0) = Inr (demo_prep i)"
  by (simp add: item_prepare_def work_item_def demo_bench_def demo_work_def demo_prep_def x86_pmu_init_def
      x86_events_def x86_add_event_def demo_lib_def demo_pmu_def rdmsr_def mck_is_mckernel_def)

text \<open>Every script that fits has a run to its end.\<close>

lemma policy_final:
  assumes "items_ok lib N cpus works env R n prep d"
    and "script_ok N lim script" "\<forall>i < N. Queue i \<in> set script" "Start \<in> set script" "lim = 1 \<or> lim = N"
  shows "\<exists>s. policy_reach lib N cpus works lim script env d s \<and> y_script s = []"
proof -
  let ?s = "policy_start N script env d"
  have "policy_reach lib N cpus works lim script env d ?s" by (rule reach_init) simp
  with policy_completes [OF assms this] show ?thesis by (blast intro: reach_steps)
qed

abbreviation "demo_works \<equiv> work_item demo_bench 2 [''b''] 2"

abbreviation "demo_env \<equiv> \<lambda>i. (5, i, 0)"

lemma demo_items: "items_ok demo_lib 2 (\<lambda>_. 0) demo_works demo_env 2 2 demo_prep (replicate 8 0)"
  by (rule items_ok_work_item) (auto simp: demo_prepares)

theorem run_in_parallel_results_witness:
  "\<exists>s. policy_reach demo_lib 2 (\<lambda>_. 0) demo_works 2 (run_in_parallel 2) demo_env (replicate 8 0) s \<and>
    \<not> y_failed s \<and> y_script s = [] \<and> mb_s (y_mb s 1) = IDLE \<and>
    as_alone demo_lib (demo_works 1) (demo_prep 1) 4 4 (replicate 8 0) (y_data s)"
proof -
  obtain s where s: "policy_reach demo_lib 2 (\<lambda>_. 0) demo_works 2 (run_in_parallel 2) demo_env (replicate 8 0) s"
    "y_script s = []"
    using policy_final [OF demo_items run_in_parallel_ok, of 2] by (auto simp: script_queues script_start)
  have "\<not> y_failed s \<and> (y_script s = [] \<longrightarrow> (\<forall>i < 2. mb_s (y_mb s i) = IDLE \<and> mb_work (y_mb s i) = None \<and>
      as_alone demo_lib (demo_works i) (demo_prep i) (i * (unat (2 :: u32) * unat (2 :: u32)))
        (unat (2 :: u32) * unat (2 :: u32)) (replicate 8 0) (y_data s)))"
    by (rule run_in_parallel_results [OF _ _ _ _ _ s(1)]) (simp_all add: demo_prepares)
  with s show ?thesis by (intro exI [of _ s]) (auto dest!: spec [of _ "Suc 0"])
qed

theorem run_in_parallel_completes_witness:
  "\<exists>t. (sys_step (x86_arch demo_lib) (\<lambda>_. 0) demo_works 2)\<^sup>*\<^sup>*
    (policy_start 2 (run_in_parallel 2) demo_env (replicate 8 0)) t \<and> y_script t = []"
proof -
  let ?s = "policy_start 2 (run_in_parallel 2) demo_env (replicate 8 0)"
  have "policy_reach demo_lib 2 (\<lambda>_. 0) demo_works 2 (run_in_parallel 2) demo_env (replicate 8 0) ?s"
    by (rule reach_init) simp
  from run_in_parallel_completes [OF _ _ _ _ _ this, where prep = demo_prep] show ?thesis
    by (simp add: demo_prepares)
qed

theorem run_one_by_one_results_witness:
  "\<exists>s. policy_reach demo_lib 2 (\<lambda>_. 0) demo_works 1 (run_one_by_one 2) demo_env (replicate 8 0) s \<and>
    \<not> y_failed s \<and> y_script s = [] \<and> mb_s (y_mb s 1) = IDLE \<and>
    as_alone demo_lib (demo_works 1) (demo_prep 1) 4 4 (replicate 8 0) (y_data s)"
proof -
  obtain s where s: "policy_reach demo_lib 2 (\<lambda>_. 0) demo_works 1 (run_one_by_one 2) demo_env (replicate 8 0) s"
    "y_script s = []"
    using policy_final [OF demo_items run_one_by_one_ok] by (auto simp: script_queues script_start)
  have "\<not> y_failed s \<and> (\<exists>t. (sys_step (x86_arch demo_lib) (\<lambda>_. 0) demo_works 1)\<^sup>*\<^sup>* s t \<and> y_script t = []) \<and>
    (y_script s = [] \<longrightarrow> (\<forall>i < 2. mb_s (y_mb s i) = IDLE \<and> mb_work (y_mb s i) = None \<and>
      as_alone demo_lib (demo_works i) (demo_prep i) (i * (unat (2 :: u32) * unat (2 :: u32)))
        (unat (2 :: u32) * unat (2 :: u32)) (replicate 8 0) (y_data s)))"
    by (rule run_one_by_one_results [OF _ _ _ _ _ s(1)]) (simp_all add: demo_prepares)
  with s show ?thesis by (intro exI [of _ s]) (auto dest!: spec [of _ "Suc 0"])
qed

end
