(* ===== verification/Floating.thy ===== *)
theory Floating
  imports Complex_Main "HOL-Library.Log_Nat"
begin

text \<open>
  The type \<open>double\<close>: IEEE 754 binary64 with rounding to nearest, ties to even. A finite number is
  the rational it stands for; the sign of a zero is not kept. An operation rounds the exact result.
\<close>

datatype double = NaN | Infinite bool | Finite rat

definition isnan :: "double \<Rightarrow> bool" where
  "isnan x \<longleftrightarrow> x = NaN"

definition isinf :: "double \<Rightarrow> bool" where
  "isinf x \<longleftrightarrow> x = Infinite False \<or> x = Infinite True"

fun is_negative :: "double \<Rightarrow> bool" where
  "is_negative NaN = False"
| "is_negative (Infinite neg) = neg"
| "is_negative (Finite x) = (x < 0)"

section \<open>Rounding\<close>

text \<open>\<open>nearbyint\<close> in the default rounding mode.\<close>

definition round_even :: "rat \<Rightarrow> int" where
  "round_even x =
     (let f = \<lfloor>x\<rfloor>; r = x - of_int f
      in if r < 1 / 2 then f else if 1 / 2 < r then f + 1 else if even f then f else f + 1)"

text \<open>The exponent of a positive number, and the distance of the numbers that are representable there.\<close>

definition expo :: "rat \<Rightarrow> int" where
  "expo x =
     (case quotient_of x of (a, b) \<Rightarrow>
        let e = bitlen a - bitlen b in if 2 powi e \<le> x then e else e - 1)"

definition quantum :: "rat \<Rightarrow> rat" where
  "quantum x = 2 powi max (expo x - 52) (-1074)"

definition fl :: "rat \<Rightarrow> double" where
  "fl x =
     (if x = 0 then Finite 0
      else let y = of_int (round_even (\<bar>x\<bar> / quantum \<bar>x\<bar>)) * quantum \<bar>x\<bar>
        in if 2 ^ 1024 \<le> y then Infinite (x < 0) else Finite (sgn x * y))"

section \<open>Operations\<close>

fun dmul :: "double \<Rightarrow> double \<Rightarrow> double" where
  "dmul (Finite x) (Finite y) = fl (x * y)"
| "dmul NaN _ = NaN"
| "dmul _ NaN = NaN"
| "dmul (Infinite s) (Infinite t) = Infinite (s \<noteq> t)"
| "dmul (Infinite s) (Finite y) = (if y = 0 then NaN else Infinite (s \<noteq> (y < 0)))"
| "dmul (Finite x) (Infinite t) = (if x = 0 then NaN else Infinite ((x < 0) \<noteq> t))"

text \<open>Only divisors that are not zero occur; there the sign of a zero would be needed.\<close>

fun ddiv :: "double \<Rightarrow> double \<Rightarrow> double" where
  "ddiv (Finite x) (Finite y) = (if y = 0 then NaN else fl (x / y))"
| "ddiv NaN _ = NaN"
| "ddiv _ NaN = NaN"
| "ddiv (Infinite s) (Infinite t) = NaN"
| "ddiv (Infinite s) (Finite y) = Infinite (s \<noteq> (y < 0))"
| "ddiv (Finite x) (Infinite t) = Finite 0"

fun dle :: "double \<Rightarrow> double \<Rightarrow> bool" where
  "dle (Finite x) (Finite y) = (x \<le> y)"
| "dle NaN _ = False"
| "dle _ NaN = False"
| "dle (Infinite s) (Infinite t) = (s \<or> \<not> t)"
| "dle (Infinite s) (Finite y) = s"
| "dle (Finite x) (Infinite t) = (\<not> t)"

section \<open>Errors\<close>

lemma round_even_bounds: "\<bar>of_int (round_even x) - x\<bar> \<le> 1 / 2"
proof -
  let ?f = "of_int \<lfloor>x\<rfloor> :: rat"
  have f: "?f \<le> x" "x < ?f + 1" by linarith+
  consider "of_int (round_even x) = ?f" "x - ?f \<le> 1 / 2" | "of_int (round_even x) = ?f + 1" "1 / 2 \<le> x - ?f"
    by (cases "x - ?f < 1 / 2"; cases "1 / 2 < x - ?f"; cases "even \<lfloor>x\<rfloor>") (simp_all add: round_even_def Let_def)
  then show ?thesis using f by cases (simp_all add: abs_le_iff)
qed

lemma round_even_nonneg: "0 \<le> x \<Longrightarrow> 0 \<le> round_even x"
  by (auto simp: round_even_def Let_def)

lemma bitlen_bounds_rat:
  assumes "0 < a"
  shows "2 powi (bitlen a - 1) \<le> (of_int a :: rat)" and "(of_int a :: rat) < 2 powi bitlen a"
proof -
  have "bitlen a \<noteq> 0" using assms by (simp add: bitlen_eq_zero_iff)
  then have n: "0 \<le> bitlen a - 1" using bitlen_nonneg [of a] by linarith
  have "2 ^ nat (bitlen a - 1) \<le> a" and "a < 2 ^ nat (bitlen a)" using bitlen_bounds [OF assms] by simp_all
  then have "(2 :: rat) ^ nat (bitlen a - 1) \<le> of_int a" and "of_int a < (2 :: rat) ^ nat (bitlen a)"
    by (metis of_int_le_iff of_int_numeral of_int_power, metis of_int_less_iff of_int_numeral of_int_power)
  with n bitlen_nonneg [of a]
  show "2 powi (bitlen a - 1) \<le> (of_int a :: rat)" and "(of_int a :: rat) < 2 powi bitlen a"
    by (simp_all add: power_int_def)
qed

lemma expo_bounds:
  assumes "0 < x"
  shows "2 powi expo x \<le> x" and "x < 2 powi (expo x + 2)"
proof -
  obtain a b where q: "quotient_of x = (a, b)" by fastforce
  have b: "0 < b" by (rule quotient_of_denom_pos [OF q])
  have x: "x = of_int a / of_int b" by (rule quotient_of_div [OF q])
  then have a: "0 < a" using assms b by (simp add: zero_less_divide_iff)
  note la = bitlen_bounds_rat [OF a] and lb = bitlen_bounds_rat [OF b]
  let ?e = "bitlen a - bitlen b"
  have "(2 :: rat) powi (?e - 1) = 2 powi (bitlen a - 1) / 2 powi bitlen b"
    by (simp add: power_int_diff [symmetric] algebra_simps)
  also have "\<dots> \<le> x" unfolding x using la lb a b by (intro frac_le) simp_all
  finally show "2 powi expo x \<le> x" by (auto simp: expo_def q Let_def)
  have "x < 2 powi bitlen a / 2 powi (bitlen b - 1)"
    unfolding x using la(2) lb(1) a by (intro frac_less) simp_all
  also have "\<dots> = 2 powi (?e + 1)" by (simp add: power_int_diff [symmetric] algebra_simps)
  also have "\<dots> \<le> 2 powi (expo x + 2)" by (intro power_int_increasing) (auto simp: expo_def q Let_def)
  finally show "x < 2 powi (expo x + 2)" .
qed

text \<open>The relative error of a rounding, far from overflow and from the subnormal numbers.\<close>

definition in_range :: "rat \<Rightarrow> bool" where
  "in_range x \<longleftrightarrow> 1 / 2 ^ 200 \<le> x \<and> x \<le> 2 ^ 200"

lemma fl_error:
  assumes "in_range x"
  shows "\<exists>y. fl x = Finite y \<and> x * (1 - 1 / 2 ^ 53) \<le> y \<and> y \<le> x * (1 + 1 / 2 ^ 53)"
proof -
  have lo: "2 powi (- 200) \<le> x" using assms by (simp only: in_range_def power_int_minus) (simp add: inverse_eq_divide)
  have pos: "0 < x" by (rule less_le_trans [OF _ lo]) simp
  have "(2 :: rat) powi (- 200) < 2 powi (expo x + 2)" using lo expo_bounds(2) [OF pos] by (rule le_less_trans)
  then have "- 200 < expo x + 2" using power_int_increasing [of "expo x + 2" "- 200" "2 :: rat"] by fastforce
  then have "quantum x = 2 powi (expo x - 52)" by (simp add: quantum_def max_def)
  also have "\<dots> = 2 powi expo x / 2 ^ 52" by (simp add: power_int_diff)
  also have "\<dots> \<le> x / 2 ^ 52" using expo_bounds(1) [OF pos] by (intro divide_right_mono) simp_all
  finally have q: "quantum x \<le> x / 2 ^ 52" .
  have qp: "0 < quantum x" by (simp add: quantum_def)
  let ?r = "of_int (round_even (x / quantum x)) :: rat"
  have "\<bar>?r * quantum x - x\<bar> = \<bar>(?r - x / quantum x) * quantum x\<bar>" using qp by (simp add: left_diff_distrib)
  also have "\<dots> = \<bar>?r - x / quantum x\<bar> * quantum x" using qp by (simp add: abs_mult)
  also have "\<dots> \<le> 1 / 2 * quantum x" using qp by (intro mult_right_mono round_even_bounds) simp
  also have "\<dots> \<le> x / 2 ^ 53" using q by simp
  finally have e: "\<bar>?r * quantum x - x\<bar> \<le> x / 2 ^ 53" .
  have "x / 2 ^ 53 \<le> x" using pos by (simp add: divide_le_eq)
  then have "?r * quantum x \<le> 2 * x" using abs_le_D1 [OF e] by linarith
  also have "\<dots> \<le> 2 ^ 201" using assms by (simp add: in_range_def)
  also have "\<dots> < (2 :: rat) ^ 1024" by (rule power_strict_increasing) simp_all
  finally have "fl x = Finite (?r * quantum x)" using pos by (simp add: fl_def Let_def del: power_numeral)
  moreover have "x * (1 - 1 / 2 ^ 53) = x - x / 2 ^ 53" "x * (1 + 1 / 2 ^ 53) = x + x / 2 ^ 53"
    by (simp_all add: algebra_simps)
  ultimately show ?thesis using abs_le_D1 [OF e] abs_le_D2 [OF e] by auto
qed

end
