(* ===== verification/Options.thy ===== *)
theory Options
  imports CString Arrays Floating
begin

text \<open>
  The command line (\<open>src/main.cc\<close>): the loop over the options that \<open>getopt_long\<close> finds,
  and the conversions of their arguments. \<open>getopt_long\<close> itself is the C library's: its results,
  one for each call, are the input. A cpuset is the set of its indexes.
\<close>

section \<open>Data\<close>

datatype policy = PARALLEL | ONE_BY_ONE | PAIR | NR_POLICIES

text \<open>The enumerators are ordered as their values are.\<close>

fun policy_index :: "policy \<Rightarrow> nat" where
  "policy_index PARALLEL = 0"
| "policy_index ONE_BY_ONE = 1"
| "policy_index PAIR = 2"
| "policy_index NR_POLICIES = 3"

lemma policy_index_inject: "policy_index p = policy_index q \<longleftrightarrow> p = q"
  by (cases p; cases q) simp_all

instantiation policy :: linorder
begin

definition less_eq_policy :: "policy \<Rightarrow> policy \<Rightarrow> bool" where
  "p \<le> q \<longleftrightarrow> policy_index p \<le> policy_index q"

definition less_policy :: "policy \<Rightarrow> policy \<Rightarrow> bool" where
  "p < q \<longleftrightarrow> policy_index p < policy_index q"

instance
  by standard (auto simp: less_eq_policy_def less_policy_def policy_index_inject)

end

datatype stream = Stdout | File string | Null_stream

record options =
  o_policy :: policy
  o_benchmarks :: "string option"
  o_pmcs :: "string option"
  o_iterations :: u32
  o_size :: u64
  o_fill :: double
  o_time :: double
  o_output :: stream
  o_auto_tune :: bool
  o_tune :: bool
  o_use_hyperthreads :: bool
  o_do_binding :: bool
  o_cpuset1 :: "nat set"
  o_cpuset2 :: "nat set"

text \<open>
  What \<open>getopt_long\<close> returns: the value of an option with its argument, 0 for one of the
  options that set a flag (which is then set), or a character that \<open>main\<close> ignores.
\<close>

datatype flag = Tune | Auto | No_ht | Disable_binding

datatype opt = Opt char string | Opt_cpuset1 string | Opt_cpuset2 string | Opt_flag flag | Opt_other

text \<open>
  The file system, hwloc's \<open>hwloc_bitmap_list_sscanf\<close> (\<open>None\<close> for a negative result) and
  \<open>strtod\<close> (with whether it sets \<open>errno\<close> to \<open>ERANGE\<close>).
\<close>

record environment =
  list_sscanf :: "string \<Rightarrow> nat set option"
  stat_errno :: "string \<Rightarrow> nat option"     \<comment> \<open>\<open>None\<close>: success\<close>
  fopen_w :: "string \<Rightarrow> bool"
  strtod :: "string \<Rightarrow> double \<times> bool"

section \<open>Conversions\<close>

definition ENOENT :: nat where "ENOENT = 2"

definition file_exists :: "environment \<Rightarrow> string \<Rightarrow> bool" where
  "file_exists env nm = (case stat_errno env nm of None \<Rightarrow> True | Some err \<Rightarrow> err \<noteq> ENOENT)"

definition count_chars :: "string option \<Rightarrow> char \<Rightarrow> u32" where
  "count_chars str c =
     (case str of None \<Rightarrow> 0
      | Some s \<Rightarrow> fold (\<lambda>x chars. if x = c then chars + 1 else chars) s 0)"

definition si_suffix_to_factor :: "char \<Rightarrow> u32 outcome" where
  "si_suffix_to_factor suffix =
     (let c = tolower suffix in
      if c = CHR 0x00 then Inr 1
      else if c = CHR ''k'' then Inr 1024
      else if c = CHR ''m'' then Inr (1024 * 1024)
      else if c = CHR ''g'' then Inr (1024 * 1024 * 1024)
      else Inl ExitFailure)"

definition parse_double :: "environment \<Rightarrow> string \<Rightarrow> bool \<Rightarrow> double outcome" where
  "parse_double env optarg positive =
     (case strtod env optarg of (v, erange) \<Rightarrow>
        if erange \<or> isnan v \<or> isinf v then Inl ExitFailure
        else if positive \<and> is_negative v then Inl ExitFailure
        else Inr v)"

definition parse_policy :: "string \<Rightarrow> policy outcome" where
  "parse_policy s =
     (if s = ''parallel'' then Inr PARALLEL
      else if s = ''onebyone'' \<or> s = ''one-by-one'' then Inr ONE_BY_ONE
      else if s = ''pair'' then Inr PAIR
      else Inl ExitFailure)"

text \<open>
  \<open>--iterations\<close>: an argument that cannot be parsed is reported, and used all the same.
  \<open>--size\<close>: the same; the first character behind the number, or the terminating null
  character, is the suffix.
\<close>

definition iterations_error :: "string \<Rightarrow> bool" where
  "iterations_error s = (case strtoul s of (tmp, erange, _) \<Rightarrow> erange \<or> tmp > 0xffffffff)"

definition parse_iterations :: "string \<Rightarrow> u32" where
  "parse_iterations s = ucast (fst (strtoul s))"

definition parse_size :: "string \<Rightarrow> u64 outcome" where
  "parse_size s =
     (case strtoul s of (tmp, erange, suffix) \<Rightarrow>
        and_then (si_suffix_to_factor (case suffix of [] \<Rightarrow> CHR 0x00 | c # _ \<Rightarrow> c))
          (\<lambda>factor. Inr (tmp * ucast factor)))"

section \<open>The option loop\<close>

fun set_flag :: "flag \<Rightarrow> options \<Rightarrow> options" where
  "set_flag Tune o1 = o1\<lparr>o_tune := True\<rparr>"
| "set_flag Auto o1 = o1\<lparr>o_auto_tune := True\<rparr>"
| "set_flag No_ht o1 = o1\<lparr>o_use_hyperthreads := False\<rparr>"
| "set_flag Disable_binding o1 = o1\<lparr>o_do_binding := False\<rparr>"

definition handle_char :: "environment \<Rightarrow> char \<Rightarrow> string \<Rightarrow> options \<Rightarrow> options outcome" where
  "handle_char env c optarg o1 =
     (if c = CHR ''p'' then and_then (parse_policy optarg) (\<lambda>p. Inr (o1\<lparr>o_policy := p\<rparr>))
      else if c = CHR ''b'' then Inr (o1\<lparr>o_benchmarks := Some optarg\<rparr>)
      else if c = CHR ''i'' then Inr (o1\<lparr>o_iterations := parse_iterations optarg\<rparr>)
      else if c = CHR ''l'' then Inl ExitSuccess
      else if c = CHR ''m'' then Inr (o1\<lparr>o_pmcs := Some optarg\<rparr>)
      else if c = CHR ''o'' then
        if optarg = ''-'' then Inr o1
        else if file_exists env optarg then Inl ExitFailure
        else Inr (o1\<lparr>o_output := (if fopen_w env optarg then File optarg else Null_stream)\<rparr>)
      else if c = CHR ''s'' then and_then (parse_size optarg) (\<lambda>n. Inr (o1\<lparr>o_size := n\<rparr>))
      else if c = CHR ''f'' then and_then (parse_double env optarg True) (\<lambda>x. Inr (o1\<lparr>o_fill := x\<rparr>))
      else if c = CHR ''t'' then and_then (parse_double env optarg True) (\<lambda>x. Inr (o1\<lparr>o_time := x\<rparr>))
      else Inr o1)"

fun handle_option :: "environment \<Rightarrow> opt \<Rightarrow> options \<Rightarrow> options outcome" where
  "handle_option env (Opt c optarg) o1 = handle_char env c optarg o1"
| "handle_option env (Opt_cpuset1 optarg) o1 =
     (case list_sscanf env optarg of None \<Rightarrow> Inl ExitFailure | Some s \<Rightarrow> Inr (o1\<lparr>o_cpuset1 := s\<rparr>))"
| "handle_option env (Opt_cpuset2 optarg) o1 =
     (case list_sscanf env optarg of None \<Rightarrow> Inl ExitFailure | Some s \<Rightarrow> Inr (o1\<lparr>o_cpuset2 := s\<rparr>))"
| "handle_option env (Opt_flag f) o1 = Inr (set_flag f o1)"
| "handle_option env Opt_other o1 = Inr o1"

text \<open>The size of the L1 cache is the default; 0.9 is the nearest \<open>double\<close>.\<close>

definition default_options :: "u64 \<Rightarrow> options" where
  "default_options l1_size =
     \<lparr>o_policy = ONE_BY_ONE, o_benchmarks = None, o_pmcs = None, o_iterations = 13, o_size = l1_size,
      o_fill = Finite (8106479329266893 / 2 ^ 53), o_time = Finite 20, o_output = Stdout, o_auto_tune = False, o_tune = False,
      o_use_hyperthreads = True, o_do_binding = True, o_cpuset1 = {}, o_cpuset2 = {}\<rparr>"

definition parse_options :: "environment \<Rightarrow> u64 \<Rightarrow> opt list \<Rightarrow> options outcome" where
  "parse_options env l1_size opts = fold_res (handle_option env) opts (default_options l1_size)"

section \<open>Properties\<close>

lemma strtoul_decimal_end:
  "strtoul (decimal n) = (if 2 ^ 64 \<le> n then (-1, True, []) else (of_nat n, False, []))"
  using strtoul_decimal [of "[]" n] by simp

text \<open>\<open>--iterations\<close> accepts every number: one that does not fit into \<open>unsigned\<close> is reported as
an error, but the program goes on with its last 32 bits, or with the largest number when it does
not even fit into 64 bits.\<close>

lemma iterations_option:
  "\<exists>o2. handle_option env (Opt (CHR ''i'') (decimal n)) o1 = Inr o2 \<and>
    unat (o_iterations o2) = (if n < 2 ^ 64 then n mod 2 ^ 32 else 2 ^ 32 - 1) \<and>
    iterations_error (decimal n) = (2 ^ 32 \<le> n)"
proof -
  have "(of_nat n :: u64) > 0xffffffff \<longleftrightarrow> 2 ^ 32 \<le> n" if "n < 2 ^ 64"
    using unat_of_nat64 [OF that] by (simp add: word_less_nat_alt) linarith
  moreover have "unat (ucast (of_nat n :: u64) :: u32) = n mod 2 ^ 32" if "n < 2 ^ 64"
    using unat_of_nat64 [OF that] by (simp add: unsigned_ucast_eq take_bit_eq_mod)
  moreover have "take_bit 32 (unat (-1 :: u64)) = 4294967295"
    by (simp add: unsigned_minus_1_eq_mask mask_eq_exp_minus_1)
  ultimately show ?thesis
    by (auto simp: handle_char_def parse_iterations_def iterations_error_def strtoul_decimal_end unsigned_ucast_eq)
qed

definition si_suffixes :: "(string \<times> nat) list" where
  "si_suffixes = [([], 1), (''k'', 2 ^ 10), (''K'', 2 ^ 10), (''m'', 2 ^ 20), (''M'', 2 ^ 20),
     (''g'', 2 ^ 30), (''G'', 2 ^ 30)]"

text \<open>C22. \<open>--size\<close> with a number of 64 bits and one of the suffixes sets the size to the product
with the suffix' factor modulo \<open>2 ^ 64\<close>.\<close>

theorem size_option:
  assumes "n < 2 ^ 64" and "(suffix, f) \<in> set si_suffixes"
  shows "\<exists>o2. handle_option env (Opt (CHR ''s'') (decimal n @ suffix)) o1 = Inr o2 \<and>
    unat (o_size o2) = n * f mod 2 ^ 64"
proof -
  have t: "strtoul (decimal n @ suffix) = (of_nat n, False, suffix)"
    using assms strtoul_decimal [of suffix n]
    by (auto simp: si_suffixes_def is_digit_def digit_value_def tolower_def less_eq_char_def)
  have "si_suffix_to_factor (case suffix of [] \<Rightarrow> CHR 0x00 | c # _ \<Rightarrow> c) = Inr (of_nat f) \<and> f < 2 ^ 32"
    using assms(2) by (auto simp: si_suffixes_def si_suffix_to_factor_def tolower_def less_eq_char_def)
  then show ?thesis
    using t assms(1)
    by (auto simp: handle_char_def parse_size_def unat_word_ariths unat_of_nat64 unat_of_nat32
        unsigned_ucast_eq take_bit_eq_mod)
qed

text \<open>The suffix can overflow the size: 17179869184 times 1G is 0.\<close>

theorem size_option_witness:
  "\<forall>env o1. \<exists>o2. handle_option env (Opt (CHR ''s'') (decimal 17179869184 @ ''G'')) o1 = Inr o2 \<and> unat (o_size o2) = 0"
proof (intro allI)
  fix env o1
  show "\<exists>o2. handle_option env (Opt (CHR ''s'') (decimal 17179869184 @ ''G'')) o1 = Inr o2 \<and> unat (o_size o2) = 0"
    using size_option [of 17179869184 "''G''" "2 ^ 30" env o1] by (simp add: si_suffixes_def)
qed

end
