(* ===== verification/Main_Loop.thy ===== *)
theory Main_Loop
  imports Policy_X86 Options
begin

text \<open>
  The loop of \<open>main\<close> over the benchmarks (\<open>src/main.cc\<close>): one policy after the other on the
  same workers, each with a new array of results. The iterations are computed first, as jobs; then
  they run, interleaved with the workers.
\<close>

section \<open>The iterations\<close>

record ('a, 'e) job =
  j_script :: "cmd list"
  j_lim :: nat
  j_works :: "nat \<Rightarrow> ('a, 'e) work_t"
  j_data :: "u64 list"

text \<open>
  \<open>N\<close> is the number of workers, \<open>n\<close> the number of counters with the time, \<open>alloc i\<close> what the
  memory for the results of iteration \<open>i\<close> holds.
\<close>

definition parallel_job :: "nat \<Rightarrow> ('a, 'e) benchmark_t \<Rightarrow> u32 \<Rightarrow> string list \<Rightarrow> u32 \<Rightarrow> u64 list \<Rightarrow> ('a, 'e) job" where
  "parallel_job N bench R names n d =
     \<lparr>j_script = run_in_parallel N, j_lim = N, j_works = work_item bench R names n, j_data = d\<rparr>"

definition one_by_one_job :: "nat \<Rightarrow> ('a, 'e) benchmark_t \<Rightarrow> u32 \<Rightarrow> string list \<Rightarrow> u32 \<Rightarrow> u64 list \<Rightarrow> ('a, 'e) job" where
  "one_by_one_job N bench R names n d =
     \<lparr>j_script = run_one_by_one N, j_lim = 1, j_works = work_item bench R names n, j_data = d\<rparr>"

definition pair_job ::
  "nat set \<Rightarrow> nat \<Rightarrow> (nat \<Rightarrow> u32) \<Rightarrow> ('a, 'e) benchmark_t \<Rightarrow> ('a, 'e) benchmark_t \<Rightarrow> u32 \<Rightarrow> string list \<Rightarrow> u32 \<Rightarrow> u64 list
    \<Rightarrow> ('a, 'e) job"
where
  "pair_job set1 N cpus ops1 ops2 R names n d =
     \<lparr>j_script = run_two_benchmarks N, j_lim = N, j_works = pair_item set1 ops1 ops2 R names n cpus, j_data = d\<rparr>"

text \<open>
  In the policy for pairs the loop takes two benchmarks at a time; the last of an odd number is run
  with itself. \<open>NR_POLICIES\<close> is not the policy of any option.
\<close>

function main_jobs ::
  "policy \<Rightarrow> nat set \<Rightarrow> nat \<Rightarrow> (nat \<Rightarrow> u32) \<Rightarrow> ('a, 'e) benchmark_t list \<Rightarrow> u32 \<Rightarrow> string list \<Rightarrow> u32 \<Rightarrow>
    (nat \<Rightarrow> u64 list) \<Rightarrow> nat \<Rightarrow> ('a, 'e) job list outcome"
where
  "main_jobs pol set1 N cpus bs R names n alloc i =
     (if i < length bs then
        case pol of
          PARALLEL \<Rightarrow> and_then (main_jobs pol set1 N cpus bs R names n alloc (i + 1))
            (\<lambda>js. Inr (parallel_job N (bs ! i) R names n (alloc i) # js))
        | ONE_BY_ONE \<Rightarrow> and_then (main_jobs pol set1 N cpus bs R names n alloc (i + 1))
            (\<lambda>js. Inr (one_by_one_job N (bs ! i) R names n (alloc i) # js))
        | PAIR \<Rightarrow>
            let next = (if i + 1 < length bs then i + 1 else i)
            in and_then (main_jobs pol set1 N cpus bs R names n alloc (i + 2))
              (\<lambda>js. Inr (pair_job set1 N cpus (bs ! i) (bs ! next) R names n (alloc i) # js))
        | NR_POLICIES \<Rightarrow> Inl ExitFailure
      else Inr [])"
  by pat_completeness auto
termination
  by (relation "measure (\<lambda>(pol, set1, N, cpus, bs, R, names, n, alloc, i). length bs - i)") auto

declare main_jobs.simps [simp del]

section \<open>Running them\<close>

text \<open>
  The state: the iterations from the current one on, the main thread and the workers, and the
  arrays that have been printed.
\<close>

type_synonym ('a, 'e, 'p) main_state = "('a, 'e) job list \<times> ('a, 'e, 'p) sys \<times> u64 list list"

definition enter_job :: "('a, 'e) job list \<Rightarrow> ('a, 'e, 'p) sys \<Rightarrow> ('a, 'e, 'p) sys" where
  "enter_job js s = (case js of [] \<Rightarrow> s | j # _ \<Rightarrow> begin_policy (j_script j) (j_data j) s)"

inductive main_step ::
  "('e, 'p) arch \<Rightarrow> (nat \<Rightarrow> u32) \<Rightarrow> ('a, 'e, 'p) main_state \<Rightarrow> ('a, 'e, 'p) main_state \<Rightarrow> bool"
  for arch cpus
where
  run: "sys_step arch cpus (j_works j) (j_lim j) s t \<Longrightarrow>
    main_step arch cpus (j # js, s, out) (j # js, t, out)"
| iterate: "y_script s = [] \<Longrightarrow> \<not> y_failed s \<Longrightarrow>
    main_step arch cpus (j # js, s, out) (js, enter_job js s, out @ [y_data s])"

inductive_cases main_stepE: "main_step arch cpus st st'"

text \<open>The workers are at rest when the loop begins.\<close>

definition main_init :: "nat \<Rightarrow> ('a, 'e) job list \<Rightarrow> ('a, 'e, 'p) main_state \<Rightarrow> bool" where
  "main_init N jobs st \<longleftrightarrow> (\<exists>s0. at_rest N s0 \<and> st = (jobs, enter_job jobs s0, []))"

section \<open>The invariant\<close>

text \<open>What is asked of an iteration, whatever world the workers are in.\<close>

definition job_fits :: "('attr, 'ctx, 'e) x86_lib \<Rightarrow> nat \<Rightarrow> (nat \<Rightarrow> u32) \<Rightarrow> ('a, 'e) job \<Rightarrow> bool" where
  "job_fits lib N cpus j \<longleftrightarrow>
     (\<forall>env. \<exists>R n prep. items_ok lib N cpus (j_works j) env R n prep (j_data j)) \<and>
     script_ok N (j_lim j) (j_script j) \<and> (\<forall>i < N. Queue i \<in> set (j_script j)) \<and> Start \<in> set (j_script j) \<and>
     (j_lim j = 1 \<or> j_lim j = N)"

definition collects_all :: "nat \<Rightarrow> ('a, 'e) job \<Rightarrow> bool" where
  "collects_all N j \<longleftrightarrow> (\<forall>i < N. Collect i \<in> set (j_script j))"

text \<open>
  The items of worker \<open>t\<close>, each with the array that it starts on, and the part of an array that is the
  worker's own. The iterations are done when each worker's parts, and its world, are as they would be
  had the worker run all of its items alone, one after the other, from the world it was in at the start.
\<close>

definition items_of :: "nat \<Rightarrow> ('a, 'e) job list \<Rightarrow> (('a, 'e) work_t \<times> u64 list) list" where
  "items_of t jobs = map (\<lambda>j. (j_works j t, j_data j)) jobs"

definition own_part :: "('a, 'e) job \<Rightarrow> nat \<Rightarrow> u64 list \<Rightarrow> u64 list" where
  "own_part j t d =
     part (the (w_result (j_works j t))) (Suc (unat (w_num_pmcs (j_works j t))) * unat (w_reps (j_works j t))) d"

definition jobs_done ::
  "('attr, 'ctx, 'e) x86_lib \<Rightarrow> nat \<Rightarrow> (nat \<Rightarrow> u32) \<Rightarrow> ('a, 'e) job list \<Rightarrow> (nat \<Rightarrow> 'e) \<Rightarrow> u64 list list \<Rightarrow> (nat \<Rightarrow> 'e) \<Rightarrow> bool"
where
  "jobs_done lib N cpus jobs env out env1 \<longleftrightarrow>
     list_all2 (\<lambda>j d. length d = length (j_data j)) jobs out \<and>
     (\<forall>t < N. \<exists>ds. alone (x86_arch lib) (cpus t) (items_of t jobs) (env t) = Inr (ds, env1 t) \<and>
        list_all2 (\<lambda>j d. length d = length (j_data j)) jobs ds \<and>
        (\<forall>k < length jobs. own_part (jobs ! k) t (out ! k) = own_part (jobs ! k) t (ds ! k)))"

lemma jobs_done_Nil: "jobs_done lib N cpus [] env [] env"
  by (simp add: jobs_done_def items_of_def)

lemma jobs_done_snoc:
  assumes "jobs_done lib N cpus jobs env out env1" and "length d = length (j_data j)"
    and "\<And>t. t < N \<Longrightarrow> \<exists>d2. run_item (x86_arch lib) (cpus t) (j_works j t) (j_data j, env1 t) = Inr (d2, env2 t) \<and>
      length d2 = length (j_data j) \<and> own_part j t d = own_part j t d2"
  shows "jobs_done lib N cpus (jobs @ [j]) env (out @ [d]) env2"
proof -
  have out: "list_all2 (\<lambda>j d. length d = length (j_data j)) jobs out" using assms(1) by (simp add: jobs_done_def)
  have "\<exists>ds. alone (x86_arch lib) (cpus t) (items_of t (jobs @ [j])) (env t) = Inr (ds, env2 t) \<and>
      list_all2 (\<lambda>j d. length d = length (j_data j)) (jobs @ [j]) ds \<and>
      (\<forall>k < length (jobs @ [j]). own_part ((jobs @ [j]) ! k) t ((out @ [d]) ! k) = own_part ((jobs @ [j]) ! k) t (ds ! k))"
    if t: "t < N" for t
  proof -
    obtain ds where ds: "alone (x86_arch lib) (cpus t) (items_of t jobs) (env t) = Inr (ds, env1 t)"
      "list_all2 (\<lambda>j d. length d = length (j_data j)) jobs ds"
      "\<forall>k < length jobs. own_part (jobs ! k) t (out ! k) = own_part (jobs ! k) t (ds ! k)"
      using assms(1) t by (auto simp: jobs_done_def)
    obtain d2 where d2: "run_item (x86_arch lib) (cpus t) (j_works j t) (j_data j, env1 t) = Inr (d2, env2 t)"
      "length d2 = length (j_data j)" "own_part j t d = own_part j t d2"
      using assms(3) [OF t] by blast
    have "alone (x86_arch lib) (cpus t) (items_of t (jobs @ [j])) (env t) = Inr (ds @ [d2], env2 t)"
      using alone_snoc [OF ds(1) d2(1)] by (simp add: items_of_def)
    moreover have "list_all2 (\<lambda>j d. length d = length (j_data j)) (jobs @ [j]) (ds @ [d2])"
      using ds(2) d2(2) by (simp add: list_all2_appendI)
    moreover have "own_part ((jobs @ [j]) ! k) t ((out @ [d]) ! k) = own_part ((jobs @ [j]) ! k) t ((ds @ [d2]) ! k)"
      if "k < length (jobs @ [j])" for k
      using that ds(3) d2(3) list_all2_lengthD [OF out] list_all2_lengthD [OF ds(2)]
      by (cases "k = length jobs") (simp_all add: nth_append)
    ultimately show ?thesis by blast
  qed
  then show ?thesis using out assms(2) by (simp add: jobs_done_def list_all2_appendI)
qed

definition plan_for :: "('attr, 'ctx, 'e) x86_lib \<Rightarrow> nat \<Rightarrow> (nat \<Rightarrow> u32) \<Rightarrow> ('a, 'e) job \<Rightarrow> ('a, 'e, 'ctx x86_pmu) plan \<Rightarrow> bool" where
  "plan_for lib N cpus j pl \<longleftrightarrow>
     pl_n pl = N \<and> pl_lim pl = j_lim j \<and> pl_works pl = j_works j \<and> pl_cpus pl = cpus \<and>
     pl_data pl = j_data j \<and> pl_script pl = j_script j"

lemma job_enter_inv:
  assumes "job_fits lib N cpus j" and "at_rest N s"
  shows "\<exists>pl. plan_for lib N cpus j pl \<and> pl_env pl = y_env s \<and> x86_inv lib pl (begin_policy (j_script j) (j_data j) s)"
proof -
  obtain R n prep where "items_ok lib N cpus (j_works j) (y_env s) R n prep (j_data j)"
    using assms(1) unfolding job_fits_def by blast
  then obtain pl where pl: "x86_plan_ok lib pl" "pl_n pl = N" "pl_lim pl = j_lim j" "pl_works pl = j_works j"
    "pl_cpus pl = cpus" "pl_env pl = y_env s" "pl_data pl = j_data j" "pl_script pl = j_script j"
    using x86_plan [of lib N cpus "j_works j" "y_env s" R n prep "j_data j" "j_lim j" "j_script j"] assms(1)
    unfolding job_fits_def by blast
  then have "x86_start lib pl (begin_policy (j_script j) (j_data j) s)"
    using assms(2) by (auto simp: pmu_contract.sys_start_def [OF x86_contract])
  then have "x86_inv lib pl (begin_policy (j_script j) (j_data j) s)" by (rule x86_run.init_inv)
  with pl show ?thesis by (auto simp: plan_for_def)
qed

lemma plan_step:
  assumes "plan_for lib N cpus j pl" and "x86_inv lib pl s"
    and "sys_step (x86_arch lib) cpus (j_works j) (j_lim j) s t"
  shows "x86_inv lib pl t" and "run_fuel N (j_works j) t < run_fuel N (j_works j) s"
proof -
  have step: "x86_step lib pl s t" using assms(1,3) by (simp add: plan_for_def)
  show "x86_inv lib pl t" by (rule x86_run.step_inv [OF assms(2) step])
  have "sys_fuel pl t < sys_fuel pl s" by (rule x86_run.work_fuel [OF assms(2) step])
  then show "run_fuel N (j_works j) t < run_fuel N (j_works j) s"
    using assms(1) by (simp add: sys_fuel_run plan_for_def)
qed

lemma plan_done:
  assumes "plan_for lib N cpus j pl" and "x86_inv lib pl s" and "y_script s = []" and "collects_all N j"
    and "jobs_done lib N cpus before env out (pl_env pl)"
  shows "at_rest N s" and "jobs_done lib N cpus (before @ [j]) env (out @ [y_data s]) (y_env s)"
proof -
  have n: "pl_n pl = N" and c: "\<forall>i < N. Collect i \<in> set (pl_script pl)"
    using assms(1,4) by (simp_all add: plan_for_def collects_all_def)
  show "at_rest N s"
    using pmu_contract.sys_final_rest [OF x86_contract assms(2)] assms(3) c by (simp add: sys_final_def n)
  show "jobs_done lib N cpus (before @ [j]) env (out @ [y_data s]) (y_env s)"
  proof (rule jobs_done_snoc [OF assms(5)])
    show "length (y_data s) = length (j_data j)"
      using pmu_contract.sys_invD(3) [OF x86_contract assms(2)] assms(1) by (simp add: plan_for_def)
    show "\<exists>d2. run_item (x86_arch lib) (cpus t) (j_works j t) (j_data j, pl_env pl t) = Inr (d2, y_env s t) \<and>
        length d2 = length (j_data j) \<and> own_part j t (y_data s) = own_part j t d2" if "t < N" for t
      using plan_alone [OF assms(2,3), of t] that c assms(1) by (simp add: plan_for_def own_part_def)
  qed
qed

text \<open>
  The iterations that are over are done, from the worlds \<open>env\<close> at the start; the one that runs has begun
  in the worlds that they left, in which the workers are when nothing is left to do.
\<close>

definition main_inv ::
  "('attr, 'ctx, 'e) x86_lib \<Rightarrow> nat \<Rightarrow> (nat \<Rightarrow> u32) \<Rightarrow> (nat \<Rightarrow> 'e) \<Rightarrow> ('a, 'e) job list \<Rightarrow> ('a, 'e, 'ctx x86_pmu) main_state \<Rightarrow> bool"
where
  "main_inv lib N cpus env jobs st \<longleftrightarrow>
     (case st of (js, s, out) \<Rightarrow>
        (\<exists>before env1. jobs = before @ js \<and> jobs_done lib N cpus before env out env1 \<and>
          (case js of [] \<Rightarrow> at_rest N s \<and> y_env s = env1
             | j # _ \<Rightarrow> \<exists>pl. plan_for lib N cpus j pl \<and> pl_env pl = env1 \<and> x86_inv lib pl s)) \<and>
        (\<forall>j \<in> set js. job_fits lib N cpus j \<and> collects_all N j))"

definition main_start ::
  "('attr, 'ctx, 'e) x86_lib \<Rightarrow> nat \<Rightarrow> (nat \<Rightarrow> u32) \<Rightarrow> (nat \<Rightarrow> 'e) \<Rightarrow> ('a, 'e) job list \<Rightarrow> ('a, 'e, 'ctx x86_pmu) main_state \<Rightarrow> bool"
where
  "main_start lib N cpus env jobs st \<longleftrightarrow>
     (\<forall>j \<in> set jobs. job_fits lib N cpus j \<and> collects_all N j) \<and>
     (\<exists>s0. at_rest N s0 \<and> y_env s0 = env \<and> st = (jobs, enter_job jobs s0, []))"

lemma main_invE:
  assumes "main_inv lib N cpus env jobs (j # js, s, out)"
  obtains before pl where "jobs = before @ j # js" "jobs_done lib N cpus before env out (pl_env pl)"
    "plan_for lib N cpus j pl" "x86_inv lib pl s" "job_fits lib N cpus j" "collects_all N j"
    "\<forall>j \<in> set js. job_fits lib N cpus j \<and> collects_all N j"
  using assms by (auto simp: main_inv_def)

definition job_cost :: "nat \<Rightarrow> ('a, 'e) job \<Rightarrow> nat" where
  "job_cost N j = (\<Sum>i < N. unat (w_reps (j_works j i)) + 7) + length (j_script j) + 1"

definition main_fuel :: "nat \<Rightarrow> ('a, 'e, 'p) main_state \<Rightarrow> nat" where
  "main_fuel N st = (case st of ([], _, _) \<Rightarrow> 0
     | (j # js, s, _) \<Rightarrow> run_fuel N (j_works j) s + 1 + sum_list (map (job_cost N) js))"

lemma enter_job_inv:
  assumes "\<forall>j \<in> set js. job_fits lib N cpus j \<and> collects_all N j" and "at_rest N s"
    and "jobs = before @ js" and "jobs_done lib N cpus before env out (y_env s)"
  shows "main_inv lib N cpus env jobs (js, enter_job js s, out)"
proof (cases js)
  case Nil
  then show ?thesis using assms by (auto simp: main_inv_def enter_job_def)
next
  case (Cons j js1)
  then have "job_fits lib N cpus j" using assms(1) by simp
  from job_enter_inv [OF this assms(2)] show ?thesis
    using assms(1,3,4) Cons unfolding main_inv_def enter_job_def by auto
qed

lemma enter_job_fuel: "main_fuel N (js, enter_job js s, out) \<le> sum_list (map (job_cost N) js)"
proof (cases js)
  case (Cons j js1)
  then show ?thesis
    using run_fuel_begin [of N "j_works j" "j_script j" "j_data j" s]
    by (simp add: main_fuel_def enter_job_def job_cost_def)
qed (simp add: main_fuel_def)

lemma main_step_inv:
  assumes inv: "main_inv lib N cpus env jobs st" and step: "main_step (x86_arch lib) cpus st st'"
  shows "main_inv lib N cpus env jobs st' \<and> main_fuel N st' < main_fuel N st"
  using step
proof (cases rule: main_step.cases)
  case (run j s t js out)
  obtain before pl where pl: "jobs = before @ j # js" "jobs_done lib N cpus before env out (pl_env pl)"
    "plan_for lib N cpus j pl" "x86_inv lib pl s" "job_fits lib N cpus j" "collects_all N j"
    "\<forall>j \<in> set js. job_fits lib N cpus j \<and> collects_all N j"
    by (rule main_invE [OF inv [unfolded run(1)]])
  note st = plan_step [OF pl(3,4) run(3)]
  have "main_inv lib N cpus env jobs st'" using pl st(1) run unfolding main_inv_def by auto
  with st(2) run show ?thesis by (simp add: main_fuel_def)
next
  case (iterate s j js out)
  obtain before pl where pl: "jobs = before @ j # js" "jobs_done lib N cpus before env out (pl_env pl)"
    "plan_for lib N cpus j pl" "x86_inv lib pl s" "job_fits lib N cpus j" "collects_all N j"
    "\<forall>j \<in> set js. job_fits lib N cpus j \<and> collects_all N j"
    by (rule main_invE [OF inv [unfolded iterate(1)]])
  note d = plan_done [OF pl(3,4) iterate(3) pl(6,2)]
  have "main_inv lib N cpus env jobs st'"
    unfolding iterate(2) by (rule enter_job_inv [OF pl(7) d(1) _ d(2)]) (simp add: pl(1))
  moreover have "main_fuel N st' < main_fuel N st"
    using enter_job_fuel [of N js s "out @ [y_data s]"] iterate by (simp add: main_fuel_def)
  ultimately show ?thesis ..
qed

interpretation main_run: progress_system
  "main_start lib N cpus env jobs" "main_step (x86_arch lib) cpus" "main_inv lib N cpus env jobs"
  "main_step (x86_arch lib) cpus" "\<lambda>st. fst st = []" "main_fuel N" for lib N cpus env jobs
proof (unfold_locales, goal_cases)
  case (1 st)
  then obtain s0 where s0: "at_rest N s0" "y_env s0 = env" "st = (jobs, enter_job jobs s0, [])"
    and j: "\<forall>j \<in> set jobs. job_fits lib N cpus j \<and> collects_all N j"
    by (auto simp: main_start_def)
  show ?case
    unfolding s0(3) by (rule enter_job_inv [OF j s0(1), of jobs "[]"]) (simp_all add: s0(2) jobs_done_Nil)
next
  case (5 st)
  obtain js s out where st: "st = (js, s, out)" by (cases st)
  with 5(2) obtain j js1 where js: "js = j # js1" by (cases js) auto
  obtain pl where pl: "plan_for lib N cpus j pl" "x86_inv lib pl s"
    by (rule main_invE [OF 5(1) [unfolded st js]])
  show ?case
  proof (cases "y_script s = []")
    case True
    have "\<not> y_failed s" by (rule pmu_contract.sys_invD(2) [OF x86_contract pl(2)])
    with True show ?thesis unfolding st js by (blast intro: main_step.iterate)
  next
    case False
    then obtain t where "x86_step lib pl s t" using x86_run.progress [OF pl(2)] by (auto simp: sys_final_def)
    then have "sys_step (x86_arch lib) cpus (j_works j) (j_lim j) s t" using pl(1) by (simp add: plan_for_def)
    then show ?thesis unfolding st js by (blast intro: main_step.run)
  qed
qed (auto dest: main_step_inv)

section \<open>The iterations of the policies\<close>

lemma main_jobs_parallel:
  "main_jobs PARALLEL set1 N cpus bs R names n alloc i =
    Inr (map (\<lambda>k. parallel_job N (bs ! k) R names n (alloc k)) [i..<length bs])"
proof (induction "length bs - i" arbitrary: i)
  case (Suc x)
  then have "main_jobs PARALLEL set1 N cpus bs R names n alloc (i + 1) =
      Inr (map (\<lambda>k. parallel_job N (bs ! k) R names n (alloc k)) [i + 1..<length bs])" by simp
  then show ?case using Suc(2) by (subst main_jobs.simps) (simp add: upt_conv_Cons)
qed (simp add: main_jobs.simps)

lemma main_jobs_one_by_one:
  "main_jobs ONE_BY_ONE set1 N cpus bs R names n alloc i =
    Inr (map (\<lambda>k. one_by_one_job N (bs ! k) R names n (alloc k)) [i..<length bs])"
proof (induction "length bs - i" arbitrary: i)
  case (Suc x)
  then have "main_jobs ONE_BY_ONE set1 N cpus bs R names n alloc (i + 1) =
      Inr (map (\<lambda>k. one_by_one_job N (bs ! k) R names n (alloc k)) [i + 1..<length bs])" by simp
  then show ?case using Suc(2) by (subst main_jobs.simps) (simp add: upt_conv_Cons)
qed (simp add: main_jobs.simps)


section \<open>Properties\<close>

text \<open>
  The counters can always be set up when there is a name for each and no shift leaves the width of
  \<open>int\<close>, so every item can be prepared.
\<close>

lemma x86_pmu_init_total:
  assumes "unat n \<le> length names" and "unat n < 31"
  shows "\<exists>p e1. x86_pmu_init lib names n cp e = Inr (p, e1)"
proof -
  obtain g e0 where g: "rdmsr lib IA32_PERF_GLOBAL_CTRL (-1) e = (g, e0)" by fastforce
  let ?p0 = "\<lparr>ctx = [], active = 0, mckernel = mck_is_mckernel (syscall732 lib), global_ctrl = g\<rparr>"
  have "\<exists>s. x86_events lib names (unat n) (?p0, e0) = Inr s \<and> True"
    unfolding x86_events_def by (rule fold_res_upt_inv) (use assms(1) in simp_all)
  then obtain p e1 where ev: "x86_events lib names (unat n) (?p0, e0) = Inr (p, e1)" by auto
  have "active p < 31" using x86_events_active [OF ev] assms(2) by simp
  with g ev show ?thesis by (simp add: x86_pmu_init_def active_mask_def)
qed

lemma x86_prepare_total:
  assumes "unat (w_num_pmcs w) \<le> length (w_pmcs w)" and "unat (w_num_pmcs w) < 31"
  shows "\<exists>pr. item_prepare (x86_arch lib) cp w e = Inr pr"
proof -
  obtain a e1 where a: "(case b_init_arg (w_ops w) of None \<Rightarrow> (w_arg w, e) | Some f \<Rightarrow> f (w_arg w) e) = (a, e1)"
    by fastforce
  obtain p e2 where "x86_pmu_init lib (w_pmcs w) (w_num_pmcs w) cp e1 = Inr (p, e2)"
    using x86_pmu_init_total [OF assms, of lib cp e1] by blast
  with a show ?thesis by (simp add: item_prepare_def)
qed

definition sizes_ok :: "nat \<Rightarrow> u32 \<Rightarrow> string list \<Rightarrow> u32 \<Rightarrow> (nat \<Rightarrow> u64 list) \<Rightarrow> bool" where
  "sizes_ok N R names n alloc \<longleftrightarrow> 0 < N \<and> 0 < n \<and> N * unat R * unat n < 2 ^ 32 \<and>
     (\<forall>k. length (alloc k) = N * unat R * unat n) \<and> unat (n - 1) \<le> length names \<and> unat (n - 1) < 31"

lemma items_ok_total:
  assumes "sizes_ok N R names n alloc" and "\<forall>i < N. \<exists>bench. works i = work_item bench R names n i"
  shows "\<exists>R n prep. items_ok lib N cpus works env R n prep (alloc k)"
proof -
  have "\<exists>pr. item_prepare (x86_arch lib) (cpus i) (works i) (env i) = Inr pr" if i: "i < N" for i
  proof -
    obtain bench where "works i = work_item bench R names n i" using assms(2) i by blast
    then show ?thesis using assms(1) by (intro x86_prepare_total) (simp_all add: work_item_def sizes_ok_def)
  qed
  then obtain prep where "\<forall>i < N. item_prepare (x86_arch lib) (cpus i) (works i) (env i) = Inr (prep i)" by metis
  then have "items_ok lib N cpus works env R n prep (alloc k)"
    using assms by (intro items_ok_work_item) (auto simp: sizes_ok_def)
  then show ?thesis by blast
qed

lemma job_fits_policies:
  assumes "sizes_ok N R names n alloc"
  shows "job_fits lib N cpus (parallel_job N bench R names n (alloc k))"
    and "job_fits lib N cpus (one_by_one_job N bench R names n (alloc k))"
    and "job_fits lib N cpus (pair_job set1 N cpus ops1 ops2 R names n (alloc k))"
    and "collects_all N (parallel_job N bench R names n (alloc k))"
    and "collects_all N (one_by_one_job N bench R names n (alloc k))"
proof -
  have N: "0 < N" using assms by (simp add: sizes_ok_def)
  have "\<exists>R n prep. items_ok lib N cpus (work_item bench R0 names n0) env R n prep (alloc k)"
    if "sizes_ok N R0 names n0 alloc" for env R0 n0
    by (rule items_ok_total [OF that]) blast
  with assms N show "job_fits lib N cpus (parallel_job N bench R names n (alloc k))"
    "job_fits lib N cpus (one_by_one_job N bench R names n (alloc k))"
    by (simp_all add: job_fits_def parallel_job_def one_by_one_job_def script_queues script_start
        run_in_parallel_ok run_one_by_one_ok [unfolded One_nat_def])
  have "\<exists>R n prep. items_ok lib N cpus (pair_item set1 ops1 ops2 R0 names n0 cpus) env R n prep (alloc k)"
    if "sizes_ok N R0 names n0 alloc" for env R0 n0
    by (rule items_ok_total [OF that]) (auto simp: pair_item_def)
  with assms show "job_fits lib N cpus (pair_job set1 N cpus ops1 ops2 R names n (alloc k))"
    by (simp add: job_fits_def pair_job_def script_queues script_start run_two_benchmarks_ok)
  show "collects_all N (parallel_job N bench R names n (alloc k))"
    "collects_all N (one_by_one_job N bench R names n (alloc k))"
    by (simp_all add: collects_all_def parallel_job_def one_by_one_job_def script_collects)
qed

lemma main_jobs_fit:
  assumes "pol = PARALLEL \<or> pol = ONE_BY_ONE" and "sizes_ok N R names n alloc"
    and "main_jobs pol set1 N cpus bs R names n alloc 0 = Inr jobs"
  shows "length jobs = length bs" and "\<forall>j \<in> set jobs. job_fits lib N cpus j \<and> collects_all N j"
  using assms job_fits_policies [OF assms(2)]
  by (auto simp: main_jobs_parallel main_jobs_one_by_one)

lemma main_reach_inv:
  assumes "\<forall>j \<in> set jobs. job_fits lib N cpus j \<and> collects_all N j" and "at_rest N s0"
    and "reach (\<lambda>st. st = (jobs, enter_job jobs s0, [])) (main_step (x86_arch lib) cpus) st"
  shows "main_inv lib N cpus (y_env s0) jobs st"
proof -
  have "reach (main_start lib N cpus (y_env s0) jobs) (main_step (x86_arch lib) cpus) st"
    by (rule reach_mono [OF assms(3)]) (use assms(1,2) in \<open>auto simp: main_start_def\<close>)
  then show ?thesis by (rule main_run.reach_inv)
qed

lemma main_inv_ok:
  assumes inv: "main_inv lib N cpus env jobs (js, s, out)"
  shows "\<not> y_failed s"
proof (cases js)
  case Nil
  then show ?thesis using inv by (auto simp: main_inv_def at_rest_def)
next
  case (Cons j js1)
  then show ?thesis using inv pmu_contract.sys_invD(2) [OF x86_contract] by (auto simp: main_inv_def)
qed

lemma main_inv_done:
  assumes "main_inv lib N cpus env jobs (js, s, out)"
  shows "\<exists>before env1. jobs = before @ js \<and> jobs_done lib N cpus before env out env1 \<and>
    (js = [] \<longrightarrow> at_rest N s \<and> env1 = y_env s)"
  using assms by (cases js) (auto simp: main_inv_def)

text \<open>What the iterations of the two policies are for a worker: its items, and its part of the results.\<close>

lemma policy_jobs:
  assumes "pol = PARALLEL \<or> pol = ONE_BY_ONE"
    and "main_jobs pol set1 N cpus bs R names n alloc 0 = Inr js" and "k < length js"
  shows "j_works (js ! k) = work_item (bs ! k) R names n" and "j_data (js ! k) = alloc k"
  using assms by (auto simp: main_jobs_parallel main_jobs_one_by_one parallel_job_def one_by_one_job_def)

lemma policy_items:
  assumes "pol = PARALLEL \<or> pol = ONE_BY_ONE"
    and "main_jobs pol set1 N cpus bs R names n alloc 0 = Inr jobs" and "m \<le> length jobs"
  shows "items_of t (take m jobs) = map (\<lambda>k. (work_item (bs ! k) R names n t, alloc k)) [0..<m]"
  by (rule nth_equalityI)
    (use assms policy_jobs [OF assms(1,2)] in \<open>simp_all add: items_of_def\<close>)

lemma own_part_work_item:
  assumes "sizes_ok N R names n alloc" and "t < N" and "j_works j = work_item bench R names n"
  shows "own_part j t = part (t * (unat R * unat n)) (unat R * unat n)"
proof -
  have "N * unat R * unat n < 2 ^ 32" "0 < n" using assms(1) by (simp_all add: sizes_ok_def)
  then show ?thesis
    using work_item_base [OF _ assms(2), of R n] row_length [of n]
    by (intro ext) (simp add: own_part_def assms(3) work_item_def mult.commute)
qed

text \<open>C2. The program's main loop, for the policies parallel and one-by-one on x86: however the threads
interleave, no assertion fails and no worker exits; the arrays that have been printed are those of the
first benchmarks, in order; and every worker's part of them is what this worker produces when it runs
these benchmarks alone, one after the other, from the world it was in when the loop began: each
benchmark in the world that the one before left. When the loop is over every benchmark has been
run once, the workers are at rest, and each of them is in the world in which it is after running alone.\<close>

theorem main_loop_results:
  assumes "pol = PARALLEL \<or> pol = ONE_BY_ONE" and "sizes_ok N R names n alloc"
    and "main_jobs pol set1 N cpus bs R names n alloc 0 = Inr jobs" and "at_rest N s0"
    and "reach (\<lambda>st. st = (jobs, enter_job jobs s0, [])) (main_step (x86_arch lib) cpus) (js, s, out)"
  shows "\<not> y_failed s \<and> length out + length js = length bs \<and> (js = [] \<longrightarrow> at_rest N s) \<and>
    (\<forall>t < N. \<exists>ds e. alone (x86_arch lib) (cpus t)
        (map (\<lambda>k. (work_item (bs ! k) R names n t, alloc k)) [0..<length out]) (y_env s0 t) = Inr (ds, e) \<and>
      (js = [] \<longrightarrow> y_env s t = e) \<and>
      (\<forall>k < length out. part (t * (unat R * unat n)) (unat R * unat n) (out ! k) =
         part (t * (unat R * unat n)) (unat R * unat n) (ds ! k)))"
proof -
  have inv: "main_inv lib N cpus (y_env s0) jobs (js, s, out)"
    by (rule main_reach_inv [OF main_jobs_fit(2) [OF assms(1-3)] assms(4,5)])
  then obtain before env1 where b: "jobs = before @ js" "jobs_done lib N cpus before (y_env s0) out env1"
    "js = [] \<longrightarrow> at_rest N s \<and> env1 = y_env s"
    using main_inv_done by blast
  have l: "length out = length before" "length before + length js = length bs" "before = take (length out) jobs"
    using b(1,2) main_jobs_fit(1) [OF assms(1-3)] by (auto simp: jobs_done_def dest: list_all2_lengthD)
  have "\<exists>ds e. alone (x86_arch lib) (cpus t)
        (map (\<lambda>k. (work_item (bs ! k) R names n t, alloc k)) [0..<length out]) (y_env s0 t) = Inr (ds, e) \<and>
      (js = [] \<longrightarrow> y_env s t = e) \<and>
      (\<forall>k < length out. part (t * (unat R * unat n)) (unat R * unat n) (out ! k) =
         part (t * (unat R * unat n)) (unat R * unat n) (ds ! k))" if t: "t < N" for t
  proof -
    obtain ds where ds: "alone (x86_arch lib) (cpus t) (items_of t before) (y_env s0 t) = Inr (ds, env1 t)"
      "\<forall>k < length before. own_part (before ! k) t (out ! k) = own_part (before ! k) t (ds ! k)"
      using b(2) t by (auto simp: jobs_done_def)
    have "length out \<le> length jobs" using b(1) l(1) by simp
    note it = policy_items [OF assms(1,3) this, of t, folded l(3)]
    have "part (t * (unat R * unat n)) (unat R * unat n) (out ! k) =
         part (t * (unat R * unat n)) (unat R * unat n) (ds ! k)" if k: "k < length out" for k
    proof -
      have "k < length jobs" "jobs ! k = before ! k" using k l(1) b(1) by (simp_all add: nth_append)
      with policy_jobs(1) [OF assms(1,3)] have "j_works (before ! k) = work_item (bs ! k) R names n" by metis
      from own_part_work_item [OF assms(2) t this] ds(2) k l(1) show ?thesis by metis
    qed
    with ds(1) it b(3) show ?thesis by auto
  qed
  moreover have "length out + length js = length bs" using l(1,2) by simp
  ultimately show ?thesis using main_inv_ok [OF inv] b(3) by blast
qed

text \<open>C3. The main loop ends: from every state it reaches it can run on until all benchmarks are done, and
it cannot run for ever.\<close>

theorem main_loop_ends:
  assumes "pol = PARALLEL \<or> pol = ONE_BY_ONE" and "sizes_ok N R names n alloc"
    and "main_jobs pol set1 N cpus bs R names n alloc 0 = Inr jobs"
    and "reach (main_init N jobs) (main_step (x86_arch lib) cpus) st"
  shows "(\<exists>s out. (main_step (x86_arch lib) cpus)\<^sup>*\<^sup>* st ([], s, out)) \<and>
    \<not> (\<exists>f. f 0 = st \<and> (\<forall>i. main_step (x86_arch lib) cpus (f i) (f (Suc i))))"
proof -
  obtain s0 where s0: "at_rest N s0" "reach (\<lambda>st. st = (jobs, enter_job jobs s0, [])) (main_step (x86_arch lib) cpus) st"
    using reach_from [OF assms(4)] by (auto simp: main_init_def)
  have inv: "main_inv lib N cpus (y_env s0) jobs st"
    by (rule main_reach_inv [OF main_jobs_fit(2) [OF assms(1-3)] s0])
  obtain st' where "(main_step (x86_arch lib) cpus)\<^sup>*\<^sup>* st st'" "fst st' = []"
    using main_run.reaches_final [OF inv] by blast
  then have "\<exists>s out. (main_step (x86_arch lib) cpus)\<^sup>*\<^sup>* st ([], s, out)" by (cases st') auto
  moreover have "\<not> (\<exists>f. f 0 = st \<and> (\<forall>i. main_step (x86_arch lib) cpus (f i) (f (Suc i))))"
    using main_run.no_infinite_run inv by metis
  ultimately show ?thesis ..
qed

section \<open>Pairs\<close>
















section \<open>Witnesses\<close>

lemma demo_sizes: "sizes_ok 2 2 [''b''] 2 (\<lambda>_. replicate 8 0)"
  by (simp add: sizes_ok_def)

abbreviation "demo_job \<equiv> parallel_job 2 demo_bench 2 [''b''] 2 (replicate 8 0)"

abbreviation "demo_jobs \<equiv> [demo_job, demo_job]"

lemma demo_jobs_start:
  "reach (main_init 2 jobs) (main_step (x86_arch demo_lib) (\<lambda>_. 0)) (jobs, enter_job jobs (workers_start 2 demo_env), [])"
  by (rule reach_init) (auto simp: main_init_def intro: workers_start_rest)

lemma demo_main_jobs:
  "main_jobs PARALLEL {} 2 (\<lambda>_. 0) [demo_bench, demo_bench] 2 [''b''] 2 (\<lambda>_. replicate 8 0) 0 = Inr demo_jobs"
  by (simp add: main_jobs_parallel upt_rec)

theorem main_loop_ends_witness:
  "\<exists>s out. (main_step (x86_arch demo_lib) (\<lambda>_. 0))\<^sup>*\<^sup>* (demo_jobs, enter_job demo_jobs (workers_start 2 demo_env), []) ([], s, out)"
  using main_loop_ends [OF _ demo_sizes demo_main_jobs demo_jobs_start] by blast

text \<open>A run to the end exists, by the interpretation of progress.\<close>

abbreviation "demo_jobs_reach \<equiv>
  reach (\<lambda>st. st = (demo_jobs, enter_job demo_jobs (workers_start 2 demo_env), [])) (main_step (x86_arch demo_lib) (\<lambda>_. 0))"

lemma workers_start_env: "y_env (workers_start n env) = env"
  by (simp add: workers_start_def)

lemma demo_jobs_end:
  "\<exists>s out. demo_jobs_reach ([], s, out)"
proof -
  let ?st = "(demo_jobs, enter_job demo_jobs (workers_start 2 demo_env), [])"
  have r: "demo_jobs_reach ?st" by (rule reach_init) simp
  from main_reach_inv [OF main_jobs_fit(2) [OF _ demo_sizes demo_main_jobs] workers_start_rest r]
  have "main_inv demo_lib 2 (\<lambda>_. 0) demo_env demo_jobs ?st" by (simp add: workers_start_env)
  from main_run.reaches_final [OF this] obtain st where
    st: "(main_step (x86_arch demo_lib) (\<lambda>_. 0))\<^sup>*\<^sup>* ?st st" "fst st = []" by blast
  from reach_steps [OF st(1) r] st(2) show ?thesis by (cases st) auto
qed

theorem main_loop_results_witness:
  "\<exists>s out ds e. demo_jobs_reach ([], s, out) \<and> \<not> y_failed s \<and> length out = 2 \<and>
    alone (x86_arch demo_lib) 0 [(demo_works 1, replicate 8 0), (demo_works 1, replicate 8 0)] (5, 1, 0) = Inr (ds, e) \<and>
    y_env s 1 = e \<and> part 4 4 (out ! 1) = part 4 4 (ds ! 1)"
proof -
  obtain s out where r: "demo_jobs_reach ([], s, out)" using demo_jobs_end by blast
  note res = main_loop_results [OF _ demo_sizes demo_main_jobs workers_start_rest r]
  have o: "\<not> y_failed s" "length out = 2" using res by simp_all
  obtain ds e where ds: "alone (x86_arch demo_lib) 0 (map (\<lambda>k. (work_item ([demo_bench, demo_bench] ! k) 2 [''b''] 2 1,
      replicate 8 0)) [0..<length out]) (demo_env 1) = Inr (ds, e)" "y_env s 1 = e"
    "\<forall>k < length out. part (1 * (unat (2 :: u32) * unat (2 :: u32))) (unat (2 :: u32) * unat (2 :: u32)) (out ! k) =
      part (1 * (unat (2 :: u32) * unat (2 :: u32))) (unat (2 :: u32) * unat (2 :: u32)) (ds ! k)"
    using res [THEN conjunct2, THEN conjunct2, THEN conjunct2, rule_format, of 1, unfolded workers_start_env] one_less_numeral_iff
      semiring_norm(76) by metis
  have "map (\<lambda>k. (work_item ([demo_bench, demo_bench] ! k) 2 [''b''] 2 1, replicate 8 0)) [0..<length out] =
      [(demo_works 1, replicate 8 (0 :: u64)), (demo_works 1, replicate 8 0)]"
    by (simp add: o(2) upt_rec)
  with ds o have "alone (x86_arch demo_lib) 0 [(demo_works 1, replicate 8 0), (demo_works 1, replicate 8 0)] (5, 1, 0) = Inr (ds, e)"
    by (simp add: workers_start_def)
  moreover have "part 4 4 (out ! 1) = part 4 4 (ds ! 1)" using ds(3) o(2) by simp
  ultimately show ?thesis using r o ds(2) by blast
qed


end
