(* ===== verification/Threads.thy ===== *)
theory Threads
  imports Worker Barrier
begin

text \<open>
  The start and the end of the worker threads (\<open>spawn_workers\<close> in \<open>src/main.cc\<close>,
  \<open>init_step\<close> in \<open>src/worker.c\<close>). The topology is what hwloc answers; a set of CPUs is
  the set of their indexes.
\<close>

section \<open>The step of a policy\<close>

text \<open>
  \<open>step_t\<close>; the array of the work items is its length. The two allocations succeed or not; the
  result of \<open>pthread_barrier_init\<close> is not looked at.
\<close>

record step =
  st_barrier :: "pbarrier option"
  st_work :: nat
  st_threads :: nat

definition init_step :: "bool \<Rightarrow> bool \<Rightarrow> int \<Rightarrow> int \<Rightarrow> nat \<Rightarrow> step option" where
  "init_step malloc_step malloc_work mrc crc threads =
     (if \<not> malloc_step then None
      else if \<not> malloc_work then None
      else case pthread_barrier_init (of_nat threads) mrc crc of
        (_, _, barrier) \<Rightarrow> Some \<lparr>st_barrier = barrier, st_work = threads, st_threads = threads\<rparr>)"

lemma init_step_ok:
  assumes "0 < n" and "n < 2 ^ 32"
  shows "init_step True True 0 0 n =
    Some \<lparr>st_barrier = Some \<lparr>limit = of_nat n, count = 0, phase = 0\<rparr>, st_work = n, st_threads = n\<rparr>"
proof -
  have "(of_nat n :: u32) \<noteq> 0" using assms unat_of_nat32 [of n] by (metis unat_0 nat_neq_iff)
  then show ?thesis by (simp add: init_step_def pthread_barrier_init_def)
qed

section \<open>The threads\<close>

datatype obj_type = HWLOC_OBJ_PU | HWLOC_OBJ_CORE

text \<open>
  hwloc: the number of objects of a type, the CPUs of an object (\<open>None\<close> when there is no object
  or more than one level of them), and \<open>hwloc_bitmap_singlify\<close>, which keeps one index of a set.
\<close>

record topology =
  nbobjs :: "obj_type \<Rightarrow> u32"
  obj_cpuset :: "obj_type \<Rightarrow> nat \<Rightarrow> nat set option"
  singlify :: "nat set \<Rightarrow> nat set"

text \<open>
  The system: whether the two allocations succeed, what the memory for the threads holds in their
  fields \<open>init\<close> (they are never initialised), and whether \<open>pthread_create\<close> fails.
\<close>

record system =
  malloc_threads :: bool
  malloc_array :: bool
  stale_init :: "nat \<Rightarrow> bool"
  create_fails :: "nat \<Rightarrow> bool"

definition new_arg :: "system \<Rightarrow> nat \<Rightarrow> nat set \<Rightarrow> u32 \<Rightarrow> bool \<Rightarrow> 'w arg" where
  "new_arg sys i tmp cpunum do_binding =
     \<lparr>mb_work = None, mb_s = IDLE, a_cpuset = tmp, a_thread = of_nat i, a_cpu = cpunum, a_run = True,
      a_init = stale_init sys i, a_dirigent = (i = 0), a_do_binding = do_binding\<rparr>"

text \<open>The loop over the objects leaves the function with a failure, or with a null pointer.\<close>

datatype spawn_exit = Spawn_fail failure | Spawn_null

definition spawn_one ::
  "topology \<Rightarrow> system \<Rightarrow> obj_type \<Rightarrow> nat set \<Rightarrow> bool \<Rightarrow> nat \<Rightarrow> 'w arg list \<times> nat set
    \<Rightarrow> spawn_exit + 'w arg list \<times> nat set"
where
  "spawn_one topo sys type cpuset do_binding pu s =
     (case obj_cpuset topo type pu of
        None \<Rightarrow> Inl (Spawn_fail ExitFailure)
      | Some obj \<Rightarrow>
          let tmp = singlify topo obj; i = length (fst s)
          in if \<not> tmp \<subseteq> cpuset then Inr s
             else if bitmap_first tmp < 0 then Inl (Spawn_fail ExitFailure)
             else if \<not> i < unat (nbobjs topo type) then Inl (Spawn_fail Undefined)
             else let cpunum = nat (bitmap_first tmp);
                      arg = new_arg sys i tmp (of_nat cpunum) do_binding
               in if i > 0 \<and> create_fails sys i then Inl Spawn_null
                  else Inr (fst s @ [arg], insert cpunum (snd s)))"

definition spawn_type :: "bool \<Rightarrow> obj_type" where
  "spawn_type include_hyperthreads = (if include_hyperthreads then HWLOC_OBJ_PU else HWLOC_OBJ_CORE)"

lemma spawn_types: "spawn_type True = HWLOC_OBJ_PU" "spawn_type False = HWLOC_OBJ_CORE"
  by (simp_all add: spawn_type_def)

text \<open>\<open>threads_t\<close>, or \<open>None\<close> for a null pointer.\<close>

definition spawn_workers ::
  "topology \<Rightarrow> system \<Rightarrow> nat set \<Rightarrow> bool \<Rightarrow> bool \<Rightarrow> ('w arg list \<times> nat set) option outcome"
where
  "spawn_workers topo sys cpuset include_hyperthreads do_binding =
     (let type = spawn_type include_hyperthreads
      in if \<not> malloc_threads sys then Inl ExitFailure
         else if \<not> malloc_array sys then Inl ExitFailure
         else case fold_res (spawn_one topo sys type cpuset do_binding) [0..<unat (nbobjs topo type)] ([], {}) of
             Inl Spawn_null \<Rightarrow> Inr None
           | Inl (Spawn_fail x) \<Rightarrow> Inl x
           | Inr (threads, allocated) \<Rightarrow>
               if card allocated = card cpuset then Inr (Some (threads, allocated)) else Inl AssertFailed)"

section \<open>Which threads there are\<close>

text \<open>
  What hwloc's documentation says: \<open>hwloc_bitmap_singlify\<close> keeps exactly one index of a set that
  is not empty, and the objects of one type share no CPU.
\<close>

definition topology_ok :: "topology \<Rightarrow> obj_type \<Rightarrow> bool" where
  "topology_ok topo type \<longleftrightarrow>
     (\<forall>s. s \<noteq> {} \<longrightarrow> (\<exists>c \<in> s. singlify topo s = {c})) \<and>
     (\<forall>i < unat (nbobjs topo type). \<exists>s. obj_cpuset topo type i = Some s \<and> s \<noteq> {} \<and>
        (\<forall>j < unat (nbobjs topo type). i \<noteq> j \<longrightarrow> s \<inter> the (obj_cpuset topo type j) = {}))"

definition system_ok :: "system \<Rightarrow> bool" where
  "system_ok sys \<longleftrightarrow> malloc_threads sys \<and> malloc_array sys \<and> (\<forall>i. \<not> create_fails sys i)"

text \<open>The CPU of an object, and the objects whose CPU is in the set.\<close>

definition obj_cpu :: "topology \<Rightarrow> obj_type \<Rightarrow> nat \<Rightarrow> nat" where
  "obj_cpu topo type i = nat (bitmap_first (singlify topo (the (obj_cpuset topo type i))))"

definition picked :: "topology \<Rightarrow> obj_type \<Rightarrow> nat set \<Rightarrow> nat \<Rightarrow> nat list" where
  "picked topo type cpuset n = filter (\<lambda>i. obj_cpu topo type i \<in> cpuset) [0..<n]"

definition the_threads :: "topology \<Rightarrow> system \<Rightarrow> obj_type \<Rightarrow> bool \<Rightarrow> nat list \<Rightarrow> 'w arg list" where
  "the_threads topo sys type do_binding objs =
     map (\<lambda>i. let c = obj_cpu topo type (objs ! i) in new_arg sys i {c} (of_nat c) do_binding) [0..<length objs]"

lemma topology_okD:
  assumes "topology_ok topo type" and "i < unat (nbobjs topo type)"
  obtains s where "obj_cpuset topo type i = Some s" "singlify topo s = {obj_cpu topo type i}"
    "obj_cpu topo type i \<in> s"
proof -
  obtain s where s: "obj_cpuset topo type i = Some s" "s \<noteq> {}"
    using assms(1) [unfolded topology_ok_def, THEN conjunct2, rule_format, OF assms(2)] by metis
  from assms(1) have "\<forall>s. s \<noteq> {} \<longrightarrow> (\<exists>c \<in> s. singlify topo s = {c})" by (simp add: topology_ok_def)
  with s(2) obtain c where c: "c \<in> s" "singlify topo s = {c}" by blast
  have "obj_cpu topo type i = c" using s(1) c(2) by (simp add: obj_cpu_def bitmap_first_def)
  with that [OF s(1)] c show ?thesis by simp
qed

lemma topology_ok_disjoint:
  assumes "topology_ok topo type" and "i < unat (nbobjs topo type)" and "j < unat (nbobjs topo type)" and "i \<noteq> j"
    and "obj_cpuset topo type i = Some s" and "obj_cpuset topo type j = Some t"
  shows "s \<inter> t = {}"
  using assms(1) [unfolded topology_ok_def, THEN conjunct2, rule_format, OF assms(2)] assms(3-6)
  by (metis option.sel option.inject)

lemma obj_cpu_inj:
  assumes "topology_ok topo type"
  shows "inj_on (obj_cpu topo type) {..<unat (nbobjs topo type)}"
proof (rule inj_onI)
  fix i j assume ij: "i \<in> {..<unat (nbobjs topo type)}" "j \<in> {..<unat (nbobjs topo type)}"
    "obj_cpu topo type i = obj_cpu topo type j"
  obtain s where s: "obj_cpuset topo type i = Some s" "obj_cpu topo type i \<in> s"
    using topology_okD [OF assms] ij(1) by (metis lessThan_iff)
  obtain t where t: "obj_cpuset topo type j = Some t" "obj_cpu topo type j \<in> t"
    using topology_okD [OF assms] ij(2) by (metis lessThan_iff)
  have "s \<inter> t = {}" if "i \<noteq> j"
    by (rule topology_ok_disjoint [OF assms _ _ that s(1) t(1)]) (use ij in simp_all)
  with s t ij(3) show "i = j" by auto
qed

lemma picked_Suc:
  "picked topo type cpuset (Suc n) =
    picked topo type cpuset n @ (if obj_cpu topo type n \<in> cpuset then [n] else [])"
  by (simp add: picked_def)

lemma the_threads_snoc:
  "the_threads topo sys type b (objs @ [n]) =
    the_threads topo sys type b objs @
      [new_arg sys (length objs) {obj_cpu topo type n} (of_nat (obj_cpu topo type n)) b]"
  by (simp add: the_threads_def nth_append Let_def)

lemma length_the_threads [simp]: "length (the_threads topo sys type b objs) = length objs"
  by (simp add: the_threads_def)

lemma length_picked: "length (picked topo type cpuset n) \<le> n"
  unfolding picked_def by (rule order_trans [OF length_filter_le]) simp

lemma spawn_loop:
  assumes "topology_ok topo type" and "system_ok sys" and "n \<le> unat (nbobjs topo type)"
  shows "fold_res (spawn_one topo sys type cpuset b) [0..<n] ([], {}) =
    Inr (the_threads topo sys type b (picked topo type cpuset n), obj_cpu topo type ` set (picked topo type cpuset n))"
  using assms(3)
proof (induction n)
  case 0
  then show ?case by (simp add: the_threads_def picked_def)
next
  case (Suc n)
  obtain s where s: "obj_cpuset topo type n = Some s" "singlify topo s = {obj_cpu topo type n}"
    using topology_okD [OF assms(1), of n] Suc.prems by (metis Suc_le_eq)
  have "length (picked topo type cpuset n) < unat (nbobjs topo type)"
    using length_picked [of topo type cpuset n] Suc.prems by simp
  then show ?case
    using Suc s assms(2)
    by (simp add: fold_res_upt_Suc spawn_one_def Let_def picked_Suc the_threads_snoc bitmap_first_def
        system_ok_def del: upt_Suc)
qed

lemma picked_cpus:
  assumes "topology_ok topo type" and "objs = picked topo type cpuset (unat (nbobjs topo type))"
  shows "distinct (map (obj_cpu topo type) objs)" and "set (map (obj_cpu topo type) objs) \<subseteq> cpuset"
  using obj_cpu_inj [OF assms(1)]
  by (auto simp: assms(2) picked_def distinct_map inj_on_def)

lemma card_picked:
  assumes "topology_ok topo type" and "objs = picked topo type cpuset (unat (nbobjs topo type))"
  shows "card (obj_cpu topo type ` set objs) = length objs"
  using distinct_card [OF picked_cpus(1) [OF assms]] by simp

lemma spawn_workers_eq:
  assumes "topology_ok topo (spawn_type ht)" and "system_ok sys"
    and "objs = picked topo (spawn_type ht) cpuset (unat (nbobjs topo (spawn_type ht)))"
    and "cpus = obj_cpu topo (spawn_type ht) ` set objs"
  shows "spawn_workers topo sys cpuset ht b =
    (if card cpus = card cpuset then Inr (Some (the_threads topo sys (spawn_type ht) b objs, cpus)) else Inl AssertFailed)"
  using assms(2)
  by (simp add: spawn_workers_def system_ok_def Let_def assms(3,4) spawn_loop [OF assms(1,2) order_refl])

lemma spawn_workers_all:
  fixes topo sys cpuset ht b
  defines "type \<equiv> spawn_type ht"
  defines "objs \<equiv> picked topo type cpuset (unat (nbobjs topo type))"
  defines "ths \<equiv> the_threads topo sys type b objs"
  assumes "topology_ok topo type" and "system_ok sys" and "finite cpuset" and "cpuset \<subseteq> {..<2 ^ 32}"
  shows "spawn_workers topo sys cpuset ht b =
      (if length objs = card cpuset then Inr (Some (ths, cpuset)) else Inl AssertFailed) \<and>
    distinct (map a_cpu ths) \<and>
    (\<forall>i < length ths. a_thread (ths ! i) = of_nat i \<and> (a_dirigent (ths ! i) \<longleftrightarrow> i = 0) \<and>
      mb_work (ths ! i) = None \<and> mb_s (ths ! i) = IDLE \<and> unat (a_cpu (ths ! i)) \<in> cpuset \<and>
      a_cpuset (ths ! i) = {unat (a_cpu (ths ! i))})"
proof (intro conjI)
  let ?c = "obj_cpu topo type"
  have sub: "?c ` set objs \<subseteq> cpuset"
    using picked_cpus(2) [OF assms(4), of objs cpuset] by (simp add: objs_def)
  have card: "card (?c ` set objs) = length objs"
    by (rule card_picked [OF assms(4)]) (simp add: objs_def)
  have "?c ` set objs = cpuset" if "length objs = card cpuset"
    using card_subset_eq [OF assms(6) sub] that card by simp
  moreover have "spawn_workers topo sys cpuset ht b =
      (if card (?c ` set objs) = card cpuset then Inr (Some (ths, ?c ` set objs)) else Inl AssertFailed)"
    unfolding ths_def objs_def type_def
    by (rule spawn_workers_eq [OF assms(4) [unfolded type_def] assms(5) refl refl])
  ultimately show "spawn_workers topo sys cpuset ht b =
      (if length objs = card cpuset then Inr (Some (ths, cpuset)) else Inl AssertFailed)"
    using card by simp
  have u: "unat (of_nat (?c i) :: u32) = ?c i" if "i \<in> set objs" for i
    using sub that assms(7) by (intro unat_of_nat32) auto
  have cs: "map a_cpu ths = map (of_nat \<circ> ?c) objs"
    by (intro nth_equalityI) (simp_all add: ths_def the_threads_def new_arg_def Let_def)
  have "inj_on (of_nat \<circ> ?c :: nat \<Rightarrow> u32) (set objs)"
  proof (rule inj_onI)
    fix i j assume ij: "i \<in> set objs" "j \<in> set objs" "(of_nat \<circ> ?c) i = ((of_nat \<circ> ?c) j :: u32)"
    then have "?c i = ?c j" using u by (metis comp_apply)
    with obj_cpu_inj [OF assms(4)] ij(1,2) show "i = j" by (auto simp: inj_on_def objs_def picked_def)
  qed
  then show "distinct (map a_cpu ths)"
    unfolding cs by (simp add: distinct_map objs_def picked_def)
  show "\<forall>i < length ths. a_thread (ths ! i) = of_nat i \<and> (a_dirigent (ths ! i) \<longleftrightarrow> i = 0) \<and>
      mb_work (ths ! i) = None \<and> mb_s (ths ! i) = IDLE \<and> unat (a_cpu (ths ! i)) \<in> cpuset \<and>
      a_cpuset (ths ! i) = {unat (a_cpu (ths ! i))}"
    using u sub by (auto simp: ths_def the_threads_def new_arg_def Let_def)
qed

text \<open>C8. The threads of \<open>spawn_workers\<close>: it asserts that there are as many as CPUs were asked for, and
if so returns them with just this set. They are numbered from 0, the first and no other is the
dirigent, every mailbox is empty, every thread has a CPU of the set to be bound to, and no two
have the same.\<close>

theorem spawn_workers_threads:
  fixes topo sys cpuset ht b
  defines "type \<equiv> spawn_type ht"
  defines "objs \<equiv> picked topo type cpuset (unat (nbobjs topo type))"
  defines "ths \<equiv> the_threads topo sys type b objs"
  assumes "topology_ok topo type" and "system_ok sys" and "finite cpuset" and "cpuset \<subseteq> {..<2 ^ 32}"
  shows "spawn_workers topo sys cpuset ht b =
      (if length objs = card cpuset then Inr (Some (ths, cpuset)) else Inl AssertFailed) \<and>
    distinct (map a_cpu ths) \<and>
    (\<forall>i < length ths. a_thread (ths ! i) = of_nat i \<and> (a_dirigent (ths ! i) \<longleftrightarrow> i = 0) \<and>
      mb_work (ths ! i) = None \<and> mb_s (ths ! i) = IDLE \<and> unat (a_cpu (ths ! i)) \<in> cpuset \<and>
      a_cpuset (ths ! i) = {unat (a_cpu (ths ! i))})"
  unfolding ths_def objs_def type_def
  by (rule spawn_workers_all [OF assms(4) [unfolded type_def] assms(5-7)])

text \<open>C21. The option \<open>--no-ht\<close>: with one thread for each processing unit every set of them can be had,
but with one for each core the assertion of \<open>spawn_workers\<close> fails as soon as the set contains two
processing units of one core, as the set of the whole machine does.\<close>

theorem spawn_workers_no_ht:
  fixes topo :: topology and sys :: system
  assumes "system_ok sys" and "finite cpuset"
    and "topology_ok topo HWLOC_OBJ_PU" and "topology_ok topo HWLOC_OBJ_CORE"
    and "\<forall>c \<in> cpuset. \<exists>i < unat (nbobjs topo HWLOC_OBJ_PU). obj_cpuset topo HWLOC_OBJ_PU i = Some {c}"
    and "i < unat (nbobjs topo HWLOC_OBJ_CORE)" and "obj_cpuset topo HWLOC_OBJ_CORE i = Some core"
    and "{x, y} \<subseteq> core \<inter> cpuset" and "x \<noteq> y"
  shows "(\<exists>ths. spawn_workers topo sys cpuset True b = Inr (Some (ths, cpuset))) \<and>
    spawn_workers topo sys cpuset False b = Inl AssertFailed"
proof
  let ?o = "picked topo HWLOC_OBJ_PU cpuset (unat (nbobjs topo HWLOC_OBJ_PU))"
  have "c \<in> obj_cpu topo HWLOC_OBJ_PU ` set ?o" if c: "c \<in> cpuset" for c
  proof -
    obtain j where j: "j < unat (nbobjs topo HWLOC_OBJ_PU)" "obj_cpuset topo HWLOC_OBJ_PU j = Some {c}"
      using bspec [OF assms(5) c] by blast
    then have "obj_cpu topo HWLOC_OBJ_PU j = c" using topology_okD [OF assms(3) j(1)] by (metis option.sel singletonD)
    with j(1) c show ?thesis by (force simp: picked_def)
  qed
  moreover have "obj_cpu topo HWLOC_OBJ_PU ` set ?o \<subseteq> cpuset" by (auto simp: picked_def)
  ultimately have "obj_cpu topo HWLOC_OBJ_PU ` set ?o = cpuset" by blast
  then show "\<exists>ths. spawn_workers topo sys cpuset True b = Inr (Some (ths, cpuset))"
    by (simp add: spawn_workers_eq [of topo True, unfolded spawn_types, OF assms(3,1) refl refl])
next
  let ?c = "obj_cpu topo HWLOC_OBJ_CORE"
  let ?o = "picked topo HWLOC_OBJ_CORE cpuset (unat (nbobjs topo HWLOC_OBJ_CORE))"
  obtain z where z: "z \<in> core" "z \<in> cpuset" "z \<noteq> ?c i" using assms(8,9) by blast
  have "z \<notin> ?c ` set ?o"
  proof
    assume "z \<in> ?c ` set ?o"
    then obtain j where j: "z = ?c j" "j < unat (nbobjs topo HWLOC_OBJ_CORE)" by (auto simp: picked_def)
    obtain t where t: "obj_cpuset topo HWLOC_OBJ_CORE j = Some t" "z \<in> t"
      using topology_okD [OF assms(4) j(2)] j(1) by metis
    have "j \<noteq> i" using z(3) j(1) by blast
    then have "core \<inter> t = {}"
      using topology_ok_disjoint [OF assms(4,6) j(2) _ assms(7) t(1)] by blast
    with t(2) z(1) show False by blast
  qed
  then have "?c ` set ?o \<subset> cpuset" using z(2) by (auto simp: picked_def)
  then have "card (?c ` set ?o) < card cpuset" by (rule psubset_card_mono [OF assms(2)])
  then show "spawn_workers topo sys cpuset False b = Inl AssertFailed"
    by (simp add: spawn_workers_eq [of topo False, unfolded spawn_types, OF assms(4,1) refl refl])
qed

section \<open>Witnesses\<close>

text \<open>A machine with two cores of two processing units each; 0 and 2 share a core.\<close>

definition demo_topology :: topology where
  "demo_topology =
     \<lparr>nbobjs = (\<lambda>t. if t = HWLOC_OBJ_PU then 4 else 2),
      obj_cpuset = (\<lambda>t i. if t = HWLOC_OBJ_PU then Some {i} else Some {i, i + 2}),
      singlify = (\<lambda>s. {LEAST c. c \<in> s})\<rparr>"

definition demo_system :: system where
  "demo_system = \<lparr>malloc_threads = True, malloc_array = True, stale_init = (\<lambda>_. False), create_fails = (\<lambda>_. False)\<rparr>"

lemma demo_topology_ok: "topology_ok demo_topology type" "system_ok demo_system"
proof -
  show "topology_ok demo_topology type"
    by (cases type) (auto simp: topology_ok_def demo_topology_def intro: LeastI)
qed (simp add: system_ok_def demo_system_def)

abbreviation "demo_threads \<equiv> the_threads demo_topology demo_system HWLOC_OBJ_PU True [2, 3]"

lemma demo_cpu: "obj_cpu demo_topology HWLOC_OBJ_PU i = i"
  by (simp add: obj_cpu_def demo_topology_def bitmap_first_def Least_equality)

lemma demo_picked: "picked demo_topology HWLOC_OBJ_PU {2, 3} (unat (nbobjs demo_topology HWLOC_OBJ_PU)) = [2, 3]"
  by (simp add: picked_def demo_cpu) (simp add: demo_topology_def upt_rec)

lemma demo_spawn: "spawn_workers demo_topology demo_system {2, 3} True True = Inr (Some (demo_threads, {2, 3}))"
  by (simp add: spawn_workers_eq [OF demo_topology_ok refl refl] spawn_types demo_picked demo_cpu)

theorem spawn_workers_threads_witness:
  "\<exists>ths :: unit arg list. spawn_workers demo_topology demo_system {2, 3} True True = Inr (Some (ths, {2, 3})) \<and>
    length ths = 2 \<and> a_dirigent (ths ! 0) \<and> \<not> a_dirigent (ths ! 1)"
proof (intro exI conjI)
  let ?ths = "demo_threads :: unit arg list"
  show "spawn_workers demo_topology demo_system {2, 3} True True = Inr (Some (?ths, {2, 3}))" by (rule demo_spawn)
  have "\<forall>i < length ?ths. (a_dirigent (?ths ! i) \<longleftrightarrow> i = 0)"
    using spawn_workers_threads [where 'a = unit, of demo_topology True demo_system "{2, 3}" True,
        unfolded spawn_types demo_picked] demo_topology_ok by simp
  then show "a_dirigent (?ths ! 0)" "\<not> a_dirigent (?ths ! 1)" by simp_all
qed simp

theorem spawn_workers_no_ht_witness:
  "spawn_workers demo_topology demo_system {0, 1, 2, 3} False True = (Inl AssertFailed :: (unit arg list \<times> nat set) option outcome)"
  by (rule spawn_workers_no_ht [of _ _ _ 0 "{0, 2}" 0 2, THEN conjunct2])
    (simp_all add: demo_topology_ok, auto simp: demo_topology_def)

end
