(* ===== verification/Results.thy ===== *)
theory Results
  imports CString Arrays
begin

text \<open>
  The results of a benchmark (\<open>src/main.cc\<close>): the array for the times and counters of all
  threads and repetitions, and the text that \<open>result_print\<close> makes of it.
\<close>

section \<open>The array\<close>

text \<open>The data is a null pointer or an array with whatever the memory holds.\<close>

record benchmark_result_t =
  r_data :: "u64 list option"
  r_threads :: u32
  r_repetitions :: u32
  r_counters :: u32

definition result_alloc :: "(u64 \<Rightarrow> u64 list option) \<Rightarrow> u32 \<Rightarrow> u32 \<Rightarrow> u32 \<Rightarrow> benchmark_result_t" where
  "result_alloc malloc threads repetitions num_counters =
     \<lparr>r_data = malloc (8 * ucast threads * ucast repetitions * ucast num_counters),
      r_threads = threads, r_repetitions = repetitions, r_counters = num_counters - 1\<rparr>"

section \<open>Printing\<close>

definition pad :: "nat \<Rightarrow> string \<Rightarrow> string" where
  "pad n s = replicate (n - length s) (CHR '' '') @ s"

text \<open>\<open>%d\<close>\<close>

definition decimal_int :: "int \<Rightarrow> string" where
  "decimal_int i = (if i < 0 then CHR ''-'' # decimal (nat (- i)) else decimal (nat i))"

definition newline :: char where "newline = CHR 0x0A"

definition print_cell :: "benchmark_result_t \<Rightarrow> u32 \<Rightarrow> u32 \<Rightarrow> nat \<Rightarrow> string \<Rightarrow> string outcome" where
  "print_cell result counter thread rep out =
     (case r_data result of None \<Rightarrow> Inl Undefined
      | Some data \<Rightarrow>
          and_then (load data (unat (thread * r_repetitions result * (r_counters result + 1) +
              (r_counters result + 1) * of_nat rep + counter)))
            (\<lambda>v. Inr (out @ pad 10 (decimal (unat v)) @ '' '')))"

text \<open>\<open>next_cpu\<close> is \<open>hwloc_bitmap_next\<close> on the cpuset; the state is the CPU and the output.\<close>

definition print_thread ::
  "(int \<Rightarrow> int) \<Rightarrow> benchmark_result_t \<Rightarrow> u32 \<Rightarrow> nat \<Rightarrow> int \<times> string \<Rightarrow> (int \<times> string) outcome"
where
  "print_thread next_cpu result counter thread s =
     (let cpu = next_cpu (fst s)
      in and_then (fold_res (print_cell result counter (of_nat thread)) [0..<unat (r_repetitions result)]
             (snd s @ pad 2 (decimal_int cpu) @ '' ''))
           (\<lambda>out. Inr (cpu, out @ [newline])))"

definition print_counter ::
  "(int \<Rightarrow> int) \<Rightarrow> benchmark_result_t \<Rightarrow> string list \<Rightarrow> u32 \<Rightarrow> nat \<Rightarrow> string \<Rightarrow> string outcome"
where
  "print_counter next_cpu result pmcs num_pmcs i out =
     (let counter = of_nat i :: u32
      in and_then
           (if counter \<noteq> 0 \<and> counter - 1 < num_pmcs
            then and_then (load pmcs (unat (counter - 1))) (\<lambda>nm. Inr (out @ ''# '' @ nm @ [newline]))
            else Inr out)
           (\<lambda>out1. and_then (fold_res (print_thread next_cpu result counter) [0..<unat (r_threads result)] (-1, out1))
              (\<lambda>s. Inr (snd s))))"

definition result_print ::
  "(int \<Rightarrow> int) \<Rightarrow> benchmark_result_t \<Rightarrow> string list \<Rightarrow> u32 \<Rightarrow> string outcome"
where
  "result_print next_cpu result pmcs num_pmcs =
     (if num_pmcs \<noteq> r_counters result then Inl AssertFailed
      else fold_res (print_counter next_cpu result pmcs num_pmcs) [0..<unat (r_counters result + 1)] [])"

section \<open>The table\<close>

text \<open>
  What is printed: for each counter its name, but for the time, and a line for each thread. The
  number of repetition \<open>r\<close> is the one at \<open>(t * R + r) * n + c\<close>.
\<close>

definition cell :: "u64 list \<Rightarrow> nat \<Rightarrow> nat \<Rightarrow> nat \<Rightarrow> nat \<Rightarrow> nat \<Rightarrow> nat" where
  "cell d R n t r c = unat (d ! ((t * R + r) * n + c))"

definition line :: "int \<Rightarrow> nat list \<Rightarrow> string" where
  "line cpu vs = pad 2 (decimal_int cpu) @ '' '' @ concat (map (\<lambda>v. pad 10 (decimal v) @ '' '') vs) @ [newline]"

definition lines_of :: "(int \<Rightarrow> int) \<Rightarrow> u64 list \<Rightarrow> nat \<Rightarrow> nat \<Rightarrow> nat \<Rightarrow> nat \<Rightarrow> string list" where
  "lines_of next_cpu d N R n c =
     map (\<lambda>t. line ((next_cpu ^^ Suc t) (-1)) (map (\<lambda>r. cell d R n t r c) [0..<R])) [0..<N]"

definition header :: "string list \<Rightarrow> nat \<Rightarrow> string list" where
  "header pmcs c = (if c = 0 then [] else [''# '' @ pmcs ! (c - 1) @ [newline]])"

definition result_ok :: "benchmark_result_t \<Rightarrow> u64 list \<Rightarrow> string list \<Rightarrow> nat \<Rightarrow> nat \<Rightarrow> nat \<Rightarrow> bool" where
  "result_ok result d pmcs N R n \<longleftrightarrow>
     r_data result = Some d \<and> r_threads result = of_nat N \<and> r_repetitions result = of_nat R \<and>
     r_counters result = of_nat (n - 1) \<and> 0 < n \<and> 0 < R \<and> 0 < N \<and> N * R * n < 2 ^ 32 \<and>
     N * R * n \<le> length d \<and> n - 1 \<le> length pmcs"

text \<open>The 32-bit index does not wrap.\<close>

lemma cell_index:
  assumes "t < N" and "r < R" and "c < (n :: nat)"
  shows "(t * R + r) * n + c < N * R * n"
proof -
  have "t * R + r < Suc t * R" using assms(2) by simp
  also have "\<dots> \<le> N * R" using assms(1) by (intro mult_le_mono1) simp
  finally have "Suc (t * R + r) * n \<le> N * R * n" by (intro mult_le_mono1) simp
  then show ?thesis using assms(3) by simp
qed

lemma result_ok_bounds:
  assumes "result_ok result d pmcs N R n"
  shows "N < 2 ^ 32" "R < 2 ^ 32" "n < 2 ^ 32"
proof -
  have p: "0 < N" "0 < R" "0 < n" and b: "N * R * n < 2 ^ 32" using assms by (auto simp: result_ok_def)
  have a: "N * 1 * 1 \<le> N * R * n" "1 * R * 1 \<le> N * R * n" "1 * 1 * n \<le> N * R * n"
    using p by (intro mult_le_mono, simp_all)+
  show "N < 2 ^ 32" using le_less_trans [OF a(1) b] by simp
  show "R < 2 ^ 32" using le_less_trans [OF a(2) b] by simp
  show "n < 2 ^ 32" using le_less_trans [OF a(3) b] by simp
qed

lemma print_cell_ok:
  assumes "result_ok result d pmcs N R n" and "t < N" and "r < R" and "c < n"
  shows "print_cell result (of_nat c) (of_nat t) r out = Inr (out @ pad 10 (decimal (cell d R n t r c)) @ '' '')"
proof -
  have n: "r_counters result + 1 = of_nat n" "r_repetitions result = of_nat R"
    using assms(1) by (auto simp: result_ok_def of_nat_diff Suc_le_eq)
  have "of_nat t * of_nat R * of_nat n + of_nat n * of_nat r + of_nat c = (of_nat ((t * R + r) * n + c) :: u32)"
    by (simp add: algebra_simps)
  moreover have i: "(t * R + r) * n + c < length d" and "(t * R + r) * n + c < 2 ^ 32"
    using cell_index [OF assms(2-4)] assms(1) by (auto simp: result_ok_def)
  then have "unat (of_nat ((t * R + r) * n + c) :: u32) = (t * R + r) * n + c" by (intro unat_of_nat32) linarith
  ultimately show ?thesis
    using assms(1) i by (simp add: print_cell_def n cell_def) (simp add: result_ok_def)
qed

lemma print_cells_ok:
  assumes "result_ok result d pmcs N R n" and "t < N" and "c < n" and "k \<le> R"
  shows "fold_res (print_cell result (of_nat c) (of_nat t)) [0..<k] out =
    Inr (out @ concat (map (\<lambda>r. pad 10 (decimal (cell d R n t r c)) @ '' '') [0..<k]))"
  using assms(4)
proof (induction k)
  case (Suc k)
  then show ?case
    using print_cell_ok [OF assms(1,2) _ assms(3), of k] by (simp add: fold_res_upt_Suc del: upt_Suc) simp
qed simp

lemma print_threads_ok:
  assumes "result_ok result d pmcs N R n" and "c < n" and "k \<le> N"
  shows "fold_res (print_thread next_cpu result (of_nat c)) [0..<k] (-1, out) =
    Inr ((next_cpu ^^ k) (-1), out @ concat (take k (lines_of next_cpu d N R n c)))"
  using assms(3)
proof (induction k)
  case (Suc k)
  have R: "unat (r_repetitions result) = R"
    using assms(1) result_ok_bounds [OF assms(1)] by (simp add: result_ok_def unat_of_nat32)
  have "take (Suc k) (lines_of next_cpu d N R n c) = take k (lines_of next_cpu d N R n c) @
      [line ((next_cpu ^^ Suc k) (-1)) (map (\<lambda>r. cell d R n k r c) [0..<R])]"
    using Suc.prems by (simp add: lines_of_def take_Suc_conv_app_nth)
  then show ?case
    using Suc print_cells_ok [OF assms(1) _ assms(2) order_refl, of k]
    by (simp add: fold_res_upt_Suc print_thread_def R line_def o_def Let_def del: upt_Suc)
qed simp

lemma print_counter_ok:
  assumes "result_ok result d pmcs N R n" and "c < n"
  shows "print_counter next_cpu result pmcs (of_nat (n - 1)) c out =
    Inr (out @ concat (header pmcs c) @ concat (lines_of next_cpu d N R n c))"
proof -
  note b = result_ok_bounds [OF assms(1)]
  have N: "unat (r_threads result) = N" using assms(1) b by (simp add: result_ok_def unat_of_nat32)
  have l: "n - 1 \<le> length pmcs" using assms(1) by (simp add: result_ok_def)
  have c: "unat (of_nat c :: u32) = c" using assms(2) b by (simp add: unat_of_nat32)
  have z: "(of_nat c :: u32) = 0 \<longleftrightarrow> c = 0" by (simp only: unat_eq_0 [symmetric] c)
  have m: "unat ((of_nat c :: u32) - 1) = c - 1" if "c \<noteq> 0"
    using that z unat_minus_one [of "of_nat c :: u32"] c by simp
  have "unat (of_nat (n - 1) :: u32) = n - 1" using b(3) by (intro unat_of_nat32) simp
  then have "(of_nat c :: u32) - 1 < of_nat (n - 1)" if "c \<noteq> 0"
    unfolding word_less_nat_alt m [OF that] using that assms(2) by simp
  then show ?thesis
    using print_threads_ok [OF assms order_refl, of next_cpu] l assms(2) m
    by (simp add: print_counter_def z header_def N Let_def) (simp add: lines_of_def)
qed

lemma result_print_eq:
  assumes "result_ok result d pmcs N R n"
  shows "result_print next_cpu result pmcs (of_nat (n - 1)) =
    Inr (concat (concat (map (\<lambda>c. header pmcs c @ lines_of next_cpu d N R n c) [0..<n])))"
proof -
  have r: "r_counters result + 1 = of_nat n" "r_counters result = of_nat (n - 1)"
    using assms by (auto simp: result_ok_def of_nat_diff Suc_le_eq)
  then have n: "unat (of_nat (n - 1) + 1 :: u32) = n"
    using result_ok_bounds(3) [OF assms] by (metis unat_of_nat32)
  have "k \<le> n \<Longrightarrow> fold_res (print_counter next_cpu result pmcs (of_nat (n - 1))) [0..<k] [] =
      Inr (concat (concat (map (\<lambda>c. header pmcs c @ lines_of next_cpu d N R n c) [0..<k])))" for k
  proof (induction k)
    case (Suc k)
    then show ?case using print_counter_ok [OF assms, of k] by (simp add: fold_res_upt_Suc del: upt_Suc) simp
  qed simp
  then show ?thesis unfolding result_print_def r(2) n by simp
qed

section \<open>Reading the output back\<close>

text \<open>
  A reader of the text: the lines that do not start with \<open>#\<close>, and on each line the numbers behind
  the first.
\<close>

definition read_numbers :: "string \<Rightarrow> nat list" where
  "read_numbers l = map (digits_value 10) (tl (strtok (CHR '' '') l))"

definition read_table :: "string \<Rightarrow> nat list list" where
  "read_table out = map read_numbers (filter (\<lambda>l. hd l \<noteq> CHR ''#'') (strtok newline out))"

lemma digit_neq: "k < 10 \<Longrightarrow> digit k \<noteq> CHR '' '' \<and> digit k \<noteq> CHR ''#'' \<and> digit k \<noteq> newline"
  by (auto simp: newline_def of_char_digit dest!: arg_cong [where f = "of_char :: char \<Rightarrow> nat"])

lemma decimal_chars: "CHR '' '' \<notin> set (decimal n)" "CHR ''#'' \<notin> set (decimal n)" "newline \<notin> set (decimal n)"
  using decimal_digits [of n] digit_neq by metis+

lemma decimal_int_chars:
  "decimal_int i \<noteq> []" "CHR '' '' \<notin> set (decimal_int i)" "CHR ''#'' \<notin> set (decimal_int i)"
  "newline \<notin> set (decimal_int i)"
  using decimal_chars by (auto simp: decimal_int_def newline_def)

lemma newline_neq: "newline \<noteq> CHR ''#''" "newline \<noteq> CHR '' ''"
  by (simp_all add: newline_def)

definition body :: "int \<Rightarrow> nat list \<Rightarrow> string" where
  "body cpu vs = pad 2 (decimal_int cpu) @ '' '' @ concat (map (\<lambda>v. pad 10 (decimal v) @ '' '') vs)"

lemma line_body: "line cpu vs = body cpu vs @ [newline]"
  by (simp add: line_def body_def)

lemma strtok_pad: "w \<noteq> [] \<Longrightarrow> CHR '' '' \<notin> set w \<Longrightarrow> strtok (CHR '' '') (pad n w @ '' '' @ rest) = w # strtok (CHR '' '') rest"
  by (simp add: pad_def strtok_skip strtok_field)

lemma read_body: "read_numbers (body cpu vs) = vs"
proof -
  have "strtok (CHR '' '') (concat (map (\<lambda>v. pad 10 (decimal v) @ '' '') vs)) = map decimal vs"
    by (induction vs) (simp_all add: strtok_pad [simplified] decimal_chars)
  then have "strtok (CHR '' '') (body cpu vs) = decimal_int cpu # map decimal vs"
    by (simp add: body_def strtok_pad [simplified] decimal_int_chars)
  then show ?thesis by (simp add: read_numbers_def o_def digits_value_decimal)
qed

lemma body_set:
  "set (body cpu vs) \<subseteq> insert (CHR '' '') (set (decimal_int cpu) \<union> (\<Union>v \<in> set vs. set (decimal v)))"
  by (auto simp: body_def pad_def)

lemma body_chars: "body cpu vs \<noteq> []" "newline \<notin> set (body cpu vs)" "hd (body cpu vs) \<noteq> CHR ''#''"
proof -
  have c: "x \<notin> set (body cpu vs)" if "x = newline \<or> x = CHR ''#''" for x
    using that subsetD [OF body_set [of cpu vs], of x] decimal_int_chars(3,4) [of cpu] decimal_chars(2,3)
    by (auto simp: newline_def)
  show n: "body cpu vs \<noteq> []" by (simp add: body_def)
  show "newline \<notin> set (body cpu vs)" using c by blast
  show "hd (body cpu vs) \<noteq> CHR ''#''" using c list.set_sel(1) [OF n] by metis
qed

text \<open>The output read back is the table of the numbers, counter by counter and thread by thread.\<close>

lemma result_print_table:
  assumes "result_ok result d pmcs N R n" and "\<forall>nm \<in> set pmcs. newline \<notin> set nm"
  shows "\<exists>out. result_print next_cpu result pmcs (of_nat (n - 1)) = Inr out \<and>
    read_table out = concat (map (\<lambda>c. map (\<lambda>t. map (\<lambda>r. cell d R n t r c) [0..<R]) [0..<N]) [0..<n])"
proof (intro exI conjI)
  let ?hd = "\<lambda>c. if c = 0 then [] else [''# '' @ pmcs ! (c - 1)]"
  let ?ls = "\<lambda>c. map (\<lambda>t. body ((next_cpu ^^ Suc t) (-1)) (map (\<lambda>r. cell d R n t r c) [0..<R])) [0..<N]"
  let ?ws = "concat (map (\<lambda>c. ?hd c @ ?ls c) [0..<n])"
  have "header pmcs c @ lines_of next_cpu d N R n c = map (\<lambda>w. w @ [newline]) (?hd c @ ?ls c)" for c
    by (simp add: header_def lines_of_def line_body)
  then show "result_print next_cpu result pmcs (of_nat (n - 1)) = Inr (concat (map (\<lambda>w. w @ [newline]) ?ws))"
    unfolding result_print_eq [OF assms(1)] by (simp only: map_concat map_map o_def)
  have "newline \<notin> set (pmcs ! (c - 1))" if "c < n" "c \<noteq> 0" for c
    using that assms by (auto simp: result_ok_def)
  then have "strtok newline (concat (map (\<lambda>w. w @ [newline]) ?ws)) = ?ws"
    by (intro strtok_lines) (auto simp: body_chars newline_neq)
  moreover have "filter (\<lambda>l. hd l \<noteq> CHR ''#'') (?hd c @ ?ls c) = ?ls c" for c
    by (simp add: body_chars)
  ultimately show "read_table (concat (map (\<lambda>w. w @ [newline]) ?ws)) =
      concat (map (\<lambda>c. map (\<lambda>t. map (\<lambda>r. cell d R n t r c) [0..<R]) [0..<N]) [0..<n])"
    unfolding read_table_def by (simp only: filter_concat map_concat map_map o_def read_body)
qed

text \<open>C10. The printed results can be read back: on an array of the size that \<open>result_alloc\<close> asked for
\<open>result_print\<close> reads nothing outside, and the numbers in its output are, counter by counter and
thread by thread, those of the array at \<open>(thread * repetitions + rep) * counters + counter\<close>, which
is where the workers store them.\<close>

theorem result_print_reads_back:
  assumes "result_ok result d pmcs N R n" and "\<forall>nm \<in> set pmcs. newline \<notin> set nm"
  shows "\<exists>out. result_print next_cpu result pmcs (of_nat (n - 1)) = Inr out \<and>
    read_table out = concat (map (\<lambda>c. map (\<lambda>t. map (\<lambda>r. cell d R n t r c) [0..<R]) [0..<N]) [0..<n])"
  using assms by (rule result_print_table)

text \<open>A number of the table by its counter, its thread and its repetition.\<close>

lemma table_nth:
  assumes "c < n" and "t < N" and "r < R"
  shows "concat (map (\<lambda>c. map (\<lambda>t. map (\<lambda>r. cell d R n t r c) [0..<R]) [0..<N]) [0..<n]) ! (c * N + t) ! r =
    unat (d ! ((t * R + r) * n + c))"
  using assms by (subst nth_concat_rows) (simp_all add: cell_def)

theorem result_print_reads_back_witness:
  "\<exists>out. result_print (\<lambda>i. i + 1) (result_alloc (\<lambda>n. Some (map of_nat [0..<8])) 2 2 2) [''MISSES''] 1 = Inr out \<and>
    read_table out = [[0, 2], [4, 6], [1, 3], [5, 7]]"
proof -
  have ok: "result_ok (result_alloc (\<lambda>n. Some (map of_nat [0..<8])) 2 2 2) (map of_nat [0..<8]) [''MISSES''] 2 2 2"
    by (simp add: result_ok_def result_alloc_def)
  show ?thesis
    using result_print_reads_back [OF ok, of "\<lambda>i. i + 1"] by (simp add: newline_def upt_rec cell_def)
qed

end
