(* ===== verification/Program.thy ===== *)
theory Program
  imports Main_Loop Threads Results
begin

text \<open>
  The program from the start of the workers on (\<open>main\<close> in \<open>src/main.cc\<close>, from line 807): the
  workers that \<open>spawn_workers\<close> returns, the empty benchmark that waits until all of them are
  there, the loop over the benchmarks, and the output.
\<close>

section \<open>The empty benchmark\<close>

definition null_thread :: "'a \<Rightarrow> 'e \<Rightarrow> 'e" where
  "null_thread _ e = e"

text \<open>\<open>null\<close> is the null pointer, which is the state of the benchmark.\<close>

definition null_ops :: "'a \<Rightarrow> ('a, 'e) benchmark_t" where
  "null_ops null =
     \<lparr>b_name = ''null'', b_init_arg = None, b_reset_arg = None, b_free_arg = None, b_call = null_thread,
      b_state = null\<rparr>"

definition synchronize_worker_init :: "'a \<Rightarrow> nat \<Rightarrow> u64 list \<Rightarrow> ('a, 'e) job" where
  "synchronize_worker_init null N d = parallel_job N (null_ops null) 1 [] 1 d"

section \<open>The workers at the start\<close>

text \<open>
  The threads run once \<open>spawn_workers\<close> has returned, but for the dirigent. The CPU of a thread is the
  one that \<open>bind_thread\<close> leaves in its \<open>struct arg\<close>.
\<close>

definition started :: "('a, 'e) work_t arg list \<Rightarrow> (nat \<Rightarrow> 'e) \<Rightarrow> ('a, 'e, 'p) sys" where
  "started threads env =
     \<lparr>y_mb = (\<lambda>i. if i < length threads then mailbox.truncate (threads ! i) else \<lparr>mb_work = None, mb_s = IDLE\<rparr>),
      y_pc = (\<lambda>i. if i < length threads \<and> \<not> a_dirigent (threads ! i) then Enter else Off),
      y_env = env, y_data = [], y_arrived = {}, y_script = [], y_failed = False\<rparr>"

definition thread_cpu :: "(nat \<Rightarrow> binding_env) \<Rightarrow> ('a, 'e) work_t arg list \<Rightarrow> nat \<Rightarrow> u32" where
  "thread_cpu benv threads i = a_cpu (fst (worker_enter ''none'' (benv i) (threads ! i)))"

section \<open>The output\<close>

text \<open>What \<open>main\<close> prints for one benchmark, \<open>names\<close> being the counters.\<close>

definition print_results :: "(int \<Rightarrow> int) \<Rightarrow> nat \<Rightarrow> u32 \<Rightarrow> string list \<Rightarrow> u32 \<Rightarrow> u64 list \<Rightarrow> string outcome" where
  "print_results next_cpu N R names num_pmcs d =
     result_print next_cpu (result_alloc (\<lambda>_. Some d) (of_nat N) R (num_pmcs + 1)) names num_pmcs"

text \<open>
  What a worker runs: the empty benchmark, with one repetition and no counters, on the array \<open>d0\<close>, and
  then the benchmarks in order, each on the array that was allocated for it.
\<close>

definition worker_items ::
  "'a \<Rightarrow> u64 list \<Rightarrow> ('a, 'e) benchmark_t list \<Rightarrow> u32 \<Rightarrow> string list \<Rightarrow> u32 \<Rightarrow> (nat \<Rightarrow> u64 list) \<Rightarrow> nat
    \<Rightarrow> (('a, 'e) work_t \<times> u64 list) list"
where
  "worker_items null d0 bs R names n alloc t =
     (work_item (null_ops null) 1 [] 1 t, d0) # map (\<lambda>k. (work_item (bs ! k) R names n t, alloc k)) [0..<length bs]"

text \<open>
  The numbers of thread \<open>t\<close> in the outputs are those of the arrays \<open>ds\<close>: the line of counter \<open>c\<close> and thread \<open>t\<close>
  is number \<open>c * N + t\<close>, and the repetitions stand on it.
\<close>

definition prints :: "nat \<Rightarrow> nat \<Rightarrow> nat \<Rightarrow> nat \<Rightarrow> string list \<Rightarrow> u64 list list \<Rightarrow> bool" where
  "prints N R n t outputs ds \<longleftrightarrow>
     (\<forall>k < length outputs. \<forall>c < n. \<forall>r < R.
        read_table (outputs ! k) ! (c * N + t) ! r = unat (ds ! k ! ((t * R + r) * n + c)))"

section \<open>The parts fit together\<close>

lemma the_threads_rest:
  assumes "ths = the_threads topo sys type b objs" and "length objs = N"
  shows "at_rest N (started ths env)"
proof -
  have "mb_work (ths ! i) = None \<and> mb_s (ths ! i) = IDLE \<and> (a_dirigent (ths ! i) \<longleftrightarrow> i = 0)" if "i < N" for i
    using that assms by (simp add: the_threads_def new_arg_def Let_def)
  moreover have "length ths = N" using assms by simp
  ultimately show ?thesis by (auto simp: at_rest_def started_def mailbox.truncate_def)
qed

text \<open>The threads of \<open>spawn_workers\<close>, when it returns some.\<close>

lemma spawned_rest:
  assumes "topology_ok topo (spawn_type ht)" and "system_ok sys"
    and sp: "spawn_workers topo sys cpuset ht b = Inr (Some (ths, cpus_set))" and "N = card cpus_set"
  shows "at_rest N (started ths env)" and "N < 2 ^ 32"
proof -
  let ?type = "spawn_type ht"
  let ?objs = "picked topo ?type cpuset (unat (nbobjs topo ?type))"
  have "ths = the_threads topo sys ?type b ?objs" "cpus_set = obj_cpu topo ?type ` set ?objs"
    using sp unfolding spawn_workers_eq [OF assms(1,2) refl refl] by (simp_all split: if_splits)
  moreover from this(2) have "length ?objs = N"
    using card_picked [OF assms(1) refl] assms(4) by simp
  ultimately show "at_rest N (started ths env)" by (intro the_threads_rest)
  have "N \<le> unat (nbobjs topo ?type)" using length_picked \<open>length ?objs = N\<close> by metis
  also have "\<dots> < 2 ^ 32" using unsigned_less [of "nbobjs topo ?type"] by simp
  finally show "N < 2 ^ 32" .
qed

lemma synchronize_fits:
  assumes "0 < N" and "N < 2 ^ 32" and "length d = N"
  shows "job_fits lib N cpus (synchronize_worker_init null N d)" and "collects_all N (synchronize_worker_init null N d)"
proof -
  have ok: "sizes_ok N 1 [] 1 (\<lambda>_. d)" using assms by (simp add: sizes_ok_def)
  from job_fits_policies(1,4) [OF ok]
  show "job_fits lib N cpus (synchronize_worker_init null N d)" "collects_all N (synchronize_worker_init null N d)"
    by (simp_all add: synchronize_worker_init_def)
qed

text \<open>What is printed for one array of results.\<close>

lemma array_prints:
  assumes "length d = N * unat R * unat (num + 1)" and sz: "sizes_ok N R names (num + 1) alloc"
    and R: "0 < R" and nm: "\<forall>nm \<in> set names. newline \<notin> set nm"
  shows "\<exists>shown. print_results next_cpu N R names num d = Inr shown \<and>
    (\<forall>t < N. \<forall>c < Suc (unat num). \<forall>r < unat R. read_table shown ! (c * N + t) ! r =
      unat (d ! ((t * unat R + r) * Suc (unat num) + c)))"
proof -
  let ?n = "Suc (unat num)" and ?R = "unat R"
  have n: "?n = unat (num + 1)"
    using sz row_length [of "num + 1"] unat_gt_0 [of "num + 1"] by (simp add: sizes_ok_def)
  have N: "0 < N" using sz by (simp add: sizes_ok_def)
  have ok: "result_ok (result_alloc (\<lambda>_. Some d) (of_nat N) R (num + 1)) d names N ?R ?n"
    using sz R N less_irrefl [of R] assms(1)
    by (auto simp: result_ok_def result_alloc_def sizes_ok_def n [symmetric] unat_gt_0 mult.assoc distrib_left)
  obtain shown where shown: "print_results next_cpu N R names num d = Inr shown"
    "read_table shown = concat (map (\<lambda>c. map (\<lambda>t. map (\<lambda>r. cell d ?R ?n t r c) [0..<?R]) [0..<N]) [0..<?n])"
    using result_print_table [OF ok nm, of next_cpu] by (auto simp: print_results_def)
  have "read_table shown ! (c * N + t) ! r = unat (d ! ((t * ?R + r) * ?n + c))"
    if "t < N" "c < ?n" "r < ?R" for t c r
    unfolding shown(2) by (rule table_nth [OF that(2,1,3)])
  with shown(1) show ?thesis by blast
qed

text \<open>A number in the part of thread \<open>t\<close>.\<close>

lemma nth_own_part:
  assumes "part (t * (R * n)) (R * n) d = part (t * (R * n)) (R * n) d2" and "length d = N * R * n" and "length d2 = N * R * n"
    and "t < N" and "c < n" and "r < R"
  shows "d ! ((t * R + r) * n + c) = d2 ! ((t * R + r) * n + c)"
proof -
  have le: "t * (R * n) + R * n \<le> N * R * n" using assms(4) mult_le_mono1 [of "Suc t" N "R * n"] by (simp add: mult.assoc)
  have i: "r * n + c < R * n" using assms(5,6) mult_le_mono1 [of "Suc r" R n] by simp
  have e: "(t * R + r) * n + c = t * (R * n) + (r * n + c)" by (simp add: algebra_simps)
  show ?thesis
    unfolding e nth_part [OF le [folded assms(2)] i, symmetric] nth_part [OF le [folded assms(3)] i, symmetric] assms(1) ..
qed

text \<open>
  The iterations that are done print what the workers produce alone. The first array is the one of the
  empty benchmark, which is not printed.
\<close>

lemma jobs_print:
  assumes fin: "jobs_done lib N cpus (synchronize_worker_init null N d0 # js) env out env1"
    and pol: "pol = PARALLEL \<or> pol = ONE_BY_ONE" and sz: "sizes_ok N R names (num + 1) alloc"
    and js: "main_jobs pol set1 N cpus bs R names (num + 1) alloc 0 = Inr js"
    and R: "0 < R" and nm: "\<forall>nm \<in> set names. newline \<notin> set nm"
  shows "\<exists>outputs. map (print_results next_cpu N R names num) (tl out) = map Inr outputs \<and>
    length outputs = length bs \<and>
    (\<forall>t < N. \<exists>d ds. alone (x86_arch lib) (cpus t) (worker_items null d0 bs R names (num + 1) alloc t) (env t) =
        Inr (d # ds, env1 t) \<and> prints N (unat R) (Suc (unat num)) t outputs ds)"
proof -
  let ?n = "Suc (unat num)" and ?R = "unat R"
  have n: "unat (num + 1) = ?n"
    using sz row_length [of "num + 1"] unat_gt_0 [of "num + 1"] by (simp add: sizes_ok_def)
  obtain d1 outs where out: "out = d1 # outs" and outs: "list_all2 (\<lambda>j d. length d = length (j_data j)) js outs"
    using fin by (cases out) (auto simp: jobs_done_def)
  note bs = main_jobs_fit(1) [OF pol sz js]
  have l: "length outs = length bs" using list_all2_lengthD [OF outs] bs by simp
  have len: "length (j_data (js ! k)) = N * ?R * unat (num + 1)" if "k < length bs" for k
    using policy_jobs(2) [OF pol js] that sz by (simp add: bs sizes_ok_def)
  have lo: "length (outs ! k) = N * ?R * unat (num + 1)" if "k < length bs" for k
    using list_all2_nthD [OF outs] len that by (simp add: bs)
  have "\<forall>k < length bs. \<exists>shown. print_results next_cpu N R names num (outs ! k) = Inr shown \<and>
      (\<forall>t < N. \<forall>c < ?n. \<forall>r < ?R. read_table shown ! (c * N + t) ! r = unat (outs ! k ! ((t * ?R + r) * ?n + c)))"
    using array_prints [OF lo sz R nm] by blast
  then obtain shown where shown: "\<forall>k < length bs. print_results next_cpu N R names num (outs ! k) = Inr (shown k) \<and>
      (\<forall>t < N. \<forall>c < ?n. \<forall>r < ?R. read_table (shown k) ! (c * N + t) ! r = unat (outs ! k ! ((t * ?R + r) * ?n + c)))"
    by metis
  let ?outputs = "map shown [0..<length bs]"
  have "\<exists>d ds. alone (x86_arch lib) (cpus t) (worker_items null d0 bs R names (num + 1) alloc t) (env t) =
      Inr (d # ds, env1 t) \<and> prints N ?R ?n t ?outputs ds" if t: "t < N" for t
  proof -
    let ?jobs = "synchronize_worker_init null N d0 # js"
    obtain dd where dd: "alone (x86_arch lib) (cpus t) (items_of t ?jobs) (env t) = Inr (dd, env1 t)"
      "list_all2 (\<lambda>j d. length d = length (j_data j)) ?jobs dd"
      "\<forall>k < length ?jobs. own_part (?jobs ! k) t (out ! k) = own_part (?jobs ! k) t (dd ! k)"
      using fin t by (auto simp: jobs_done_def)
    obtain d ds where d: "dd = d # ds" and ds: "list_all2 (\<lambda>j d. length d = length (j_data j)) js ds"
      using dd(2) by (cases dd) auto
    have it: "items_of t ?jobs = worker_items null d0 bs R names (num + 1) alloc t"
      using policy_items [OF pol js order_refl, of t] bs
      by (simp add: worker_items_def items_of_def synchronize_worker_init_def parallel_job_def)
    have "outs ! k ! ((t * ?R + r) * ?n + c) = ds ! k ! ((t * ?R + r) * ?n + c)"
      if k: "k < length bs" and cr: "c < ?n" "r < ?R" for k c r
    proof (rule nth_own_part [OF _ _ _ t cr])
      have "own_part (js ! k) t (outs ! k) = own_part (js ! k) t (ds ! k)"
        using dd(3) [rule_format, of "Suc k"] k bs by (simp add: out d)
      then show "part (t * (?R * ?n)) (?R * ?n) (outs ! k) = part (t * (?R * ?n)) (?R * ?n) (ds ! k)"
        using own_part_work_item [OF sz t policy_jobs(1) [OF pol js]] k bs by (simp add: n)
      show "length (outs ! k) = N * ?R * ?n" using lo [OF k] by (simp add: n)
      show "length (ds ! k) = N * ?R * ?n" using list_all2_nthD [OF ds] len [OF k] k bs by (simp add: n)
    qed
    then have "prints N ?R ?n t ?outputs ds" using shown t by (simp add: prints_def)
    then show ?thesis using dd(1) it d by (intro exI [of _ d] exI [of _ ds]) simp
  qed
  moreover have "map (print_results next_cpu N R names num) (tl out) = map Inr ?outputs"
    unfolding out by (rule nth_equalityI) (use shown l in simp_all)
  ultimately show ?thesis by (intro exI [of _ ?outputs]) simp
qed

end
