(* ===== verification/Selection.thy ===== *)
theory Selection
  imports Options
begin

text \<open>
  What \<open>main\<close> makes of the options before it starts the workers: the benchmarks and the
  counters by their names (with the registry of \<open>benchmarks/benchmark.c\<close>), and the checks of the
  cpusets. A benchmark is its index in the registry; an element of an array that was allocated and
  not yet written is \<open>None\<close>, as a null pointer is.
\<close>

section \<open>The registry of the benchmarks\<close>

definition registry :: "string list" where
  "registry =
    [''dgemm'', ''HACCmk'', ''sha256'', ''fwq'', ''hpccg'', ''minife'', ''capacity'',
     ''STREAM'', ''STREAM_Scale'', ''STREAM_Add'', ''STREAM_Triad'', ''STREAM_Copy'']"

definition number_benchmarks :: u32 where
  "number_benchmarks = of_nat (length registry)"

definition get_benchmark_name :: "string \<Rightarrow> nat option" where
  "get_benchmark_name nm = find (\<lambda>i. strcasecmp nm (registry ! i) = 0) [0..<unat number_benchmarks]"

definition get_benchmark_idx :: "u32 \<Rightarrow> nat outcome" where
  "get_benchmark_idx idx = (if idx < number_benchmarks then Inr (unat idx) else Inl AssertFailed)"

section \<open>The benchmarks of \<open>--benchmarks\<close>\<close>

text \<open>
  The loop over the results of \<open>strtok\<close>. The counter goes back by one for an unknown name; this
  can take it below zero, from where the increment of the loop brings it back.
\<close>

fun select_loop :: "u32 \<Rightarrow> string list \<Rightarrow> u32 \<Rightarrow> nat option list \<Rightarrow> (u32 \<times> nat option list) outcome" where
  "select_loop num [] i bs = Inr (i, bs)"
| "select_loop num (arg # args) i bs =
     (if i < num then
        and_then (store bs (unat i) (get_benchmark_name arg)) (\<lambda>bs1.
          let i1 = (if get_benchmark_name arg = None then i - 1 else i)
          in select_loop num args (i1 + 1) bs1)
      else Inr (i, bs))"

definition default_loop :: "u32 \<Rightarrow> nat option list \<Rightarrow> nat option list outcome" where
  "default_loop num =
     fold_res (\<lambda>i bs. and_then (get_benchmark_idx (of_nat i)) (\<lambda>b. store bs i (Some b))) [0..<unat num]"

text \<open>\<open>malloc\<close> says whether an allocation of so many bytes succeeds.\<close>

definition select_benchmarks ::
  "(u64 \<Rightarrow> bool) \<Rightarrow> string option \<Rightarrow> (u32 \<times> nat option list) outcome"
where
  "select_benchmarks malloc opt_benchmarks =
     (let num = (if opt_benchmarks = None then number_benchmarks else count_chars opt_benchmarks (CHR '','') + 1);
          bs = replicate (unat num) None
      in if \<not> malloc (8 * ucast num) then Inl ExitFailure
         else case opt_benchmarks of
             Some s \<Rightarrow> select_loop num (strtok (CHR '','') s) 0 bs
           | None \<Rightarrow> and_then (default_loop num bs) (\<lambda>bs1. Inr (num, bs1)))"

section \<open>The counters of \<open>--pmcs\<close>\<close>

definition pmcs_loop :: "u32 \<Rightarrow> string list \<Rightarrow> string option list \<Rightarrow> string option list outcome" where
  "pmcs_loop num args =
     fold_res (\<lambda>i pmcs. store pmcs i (Some (args ! i))) [0..<min (unat num) (length args)]"

definition select_pmcs :: "(u64 \<Rightarrow> bool) \<Rightarrow> string option \<Rightarrow> (u32 \<times> string option list) outcome" where
  "select_pmcs malloc opt_pmcs =
     (let have = (opt_pmcs \<noteq> None \<and> opt_pmcs \<noteq> Some []);
          num = (if have then 1 else 0) + count_chars opt_pmcs (CHR '','')
      in if \<not> have then Inr (num, [])
         else if \<not> malloc (8 * ucast num) then Inl ExitFailure
         else and_then (pmcs_loop num (strtok (CHR '','') (the opt_pmcs)) (replicate (unat num) None))
           (\<lambda>pmcs. Inr (num, pmcs)))"

section \<open>The cpusets\<close>

text \<open>
  The checks before the workers start, with the default for \<open>--cpuset-1\<close>; the result are the two
  sets and the set to run on. \<open>run_two_benchmarks\<close> makes its own checks.
\<close>

definition check_cpusets ::
  "policy \<Rightarrow> nat set \<Rightarrow> nat set \<Rightarrow> nat set \<Rightarrow> (nat set \<times> nat set \<times> nat set) outcome"
where
  "check_cpusets pol global cpuset1 cpuset2 =
     (if pol \<ge> NR_POLICIES then Inl ExitFailure
      else
        let set1 = (if cpuset1 = {} then global else cpuset1)
        in if \<not> set1 \<subseteq> global then Inl ExitFailure
           else if \<not> cpuset2 \<subseteq> global then Inl ExitFailure
           else if (pol = PAIR) \<noteq> (cpuset2 \<noteq> {}) then Inl AssertFailed
           else Inr (set1, cpuset2, set1 \<union> cpuset2))"

definition check_pair :: "nat set \<Rightarrow> nat set \<Rightarrow> nat set \<Rightarrow> nat outcome" where
  "check_pair set1 set2 workers =
     (if set1 \<inter> set2 \<noteq> {} then Inl AssertFailed
      else let cpuset = (set1 \<union> set2) \<inter> workers
        in if \<not> cpuset \<subseteq> workers then Inl AssertFailed
           else if \<not> 0 < card cpuset then Inl AssertFailed
           else Inr (card cpuset))"

section \<open>Properties\<close>

lemma count_chars_fold: "fold (\<lambda>x chars. if x = c then chars + 1 else chars) s (k :: u32) = k + of_nat (count_list s c)"
  by (induction s arbitrary: k) (simp_all add: algebra_simps)

lemma count_chars_eq: "count_chars (Some s) c = of_nat (count_list s c)"
  by (simp add: count_chars_def count_chars_fold)

text \<open>
  The loop, from a counter that has filled the front of the array: the unknown names are skipped,
  each benchmark goes to the next place.
\<close>

lemma select_loop_inv:
  assumes "unat i = length sel" and "length sel + length args \<le> unat num" and "length bs = unat num"
    and "take (length sel) bs = map Some sel"
  shows "\<exists>bs1. select_loop num args i bs =
      Inr (of_nat (length sel + length (List.map_filter get_benchmark_name args)), bs1) \<and>
    length bs1 = unat num \<and>
    take (length sel + length (List.map_filter get_benchmark_name args)) bs1 =
      map Some (sel @ List.map_filter get_benchmark_name args)"
  using assms
proof (induction args arbitrary: i sel bs)
  case Nil
  have "i = of_nat (length sel)" using Nil(1) by (metis of_nat_unat ucast_id)
  with Nil show ?case by (simp add: List.map_filter_def)
next
  case (Cons arg args)
  have i: "unat i < unat num" using Cons.prems(1,2) by simp
  show ?case
  proof (cases "get_benchmark_name arg")
    case None
    have "take (length sel) (bs[unat i := None]) = map Some sel" using Cons.prems(1,4) by simp
    with Cons.IH [of i sel "bs[unat i := None]"] Cons.prems i None
    show ?thesis by (simp add: word_less_nat_alt List.map_filter_simps)
  next
    case (Some b)
    have "unat num < 2 ^ 32" using unsigned_less [of num] by simp
    then have u: "unat (i + 1) = length (sel @ [b])"
      using i Cons.prems(1) by (simp add: unat_word_ariths)
    have "take (length (sel @ [b])) (bs[unat i := Some b]) = map Some (sel @ [b])"
      using Cons.prems i by (simp add: take_Suc_conv_app_nth)
    with Cons.IH [OF u, of "bs[unat i := Some b]"] Cons.prems(2,3) i Some
    show ?thesis by (simp add: word_less_nat_alt List.map_filter_simps)
  qed
qed

lemma unat_number_benchmarks: "unat number_benchmarks = 12"
  by (simp add: number_benchmarks_def registry_def)

lemma default_loop_all:
  "\<exists>bs. default_loop number_benchmarks (replicate 12 None) = Inr bs \<and> bs = map Some [0..<12]"
proof -
  have n: "number_benchmarks = 12" by (simp add: number_benchmarks_def registry_def)
  have "and_then (get_benchmark_idx (of_nat i)) (\<lambda>b. store bs i (Some b)) = store bs i (Some i)"
    if "i \<in> set [0..<12]" for i and bs :: "nat option list"
    using that by (simp add: get_benchmark_idx_def n unat_of_nat32 word_less_nat_alt)
  then have "default_loop number_benchmarks bs = fold_res (\<lambda>i bs. store bs i (Some i)) [0..<12] bs" for bs
    unfolding default_loop_def unat_number_benchmarks by (rule fold_res_cong) simp
  then show ?thesis using fill_loop [of 12 "replicate 12 None" Some] by simp
qed

lemma select_benchmarks_eq:
  assumes "\<forall>n. malloc n" and "\<forall>s. opt_benchmarks = Some s \<longrightarrow> Suc (count_list s (CHR '','')) < 2 ^ 32"
    and "sel = (case opt_benchmarks of None \<Rightarrow> [0..<12]
      | Some s \<Rightarrow> List.map_filter get_benchmark_name (strtok (CHR '','') s))"
  shows "\<exists>num bs. select_benchmarks malloc opt_benchmarks = Inr (num, bs) \<and> unat num = length sel \<and>
    length sel \<le> length bs \<and> take (length sel) bs = map Some sel"
proof (cases opt_benchmarks)
  case None
  with None assms default_loop_all unat_number_benchmarks show ?thesis by (simp add: select_benchmarks_def)
next
  case (Some s)
  let ?c = "count_list s (CHR '','')" and ?num = "of_nat (Suc (count_list s (CHR '',''))) :: u32"
  have n: "unat ?num = Suc ?c" by (rule unat_of_nat32) (use assms(2) Some in blast)
  have le: "length (strtok (CHR '','') s) \<le> unat ?num" unfolding n by (rule length_strtok_le)
  have sel: "sel = List.map_filter get_benchmark_name (strtok (CHR '','') s)" using assms(3) Some by simp
  have "length sel \<le> length (strtok (CHR '','') s)" unfolding sel by (simp add: List.map_filter_def)
  with le have l: "length sel \<le> unat ?num" by linarith
  moreover have "unat ?num < 2 ^ 32" using assms(2) Some n by simp
  ultimately have "unat (of_nat (length sel) :: u32) = length sel" by (intro unat_of_nat32) simp
  moreover obtain bs where "select_loop ?num (strtok (CHR '','') s) 0 (replicate (unat ?num) None) =
      Inr (of_nat (length sel), bs)" "length bs = unat ?num" "take (length sel) bs = map Some sel"
    using select_loop_inv [of 0 "[]" "strtok (CHR '','') s" ?num "replicate (unat ?num) None"] le sel by auto
  moreover have "count_chars (Some s) (CHR '','') + 1 = ?num" by (simp add: count_chars_eq)
  ultimately show ?thesis using assms(1) Some l by (simp add: select_benchmarks_def Let_def add.commute)
qed

text \<open>C19. The selection of the benchmarks stays inside its array. With \<open>--benchmarks\<close> the first
elements are the known ones among the names between the commas, in their order, and their number
is the one the program goes on with; without it they are all that there are.\<close>

theorem select_benchmarks_result:
  assumes "\<forall>n. malloc n" and "\<forall>s. opt_benchmarks = Some s \<longrightarrow> Suc (count_list s (CHR '','')) < 2 ^ 32"
    and "sel = (case opt_benchmarks of None \<Rightarrow> [0..<12]
      | Some s \<Rightarrow> List.map_filter get_benchmark_name (strtok (CHR '','') s))"
  shows "\<exists>num bs. select_benchmarks malloc opt_benchmarks = Inr (num, bs) \<and> unat num = length sel \<and>
    length sel \<le> length bs \<and> take (length sel) bs = map Some sel"
  using assms by (rule select_benchmarks_eq)

text \<open>The unknown name in front makes the counter go below zero and back.\<close>

theorem select_benchmarks_result_witness:
  "\<exists>num bs. select_benchmarks (\<lambda>_. True) (Some ''foo,FWQ,,dgemm'') = Inr (num, bs) \<and> unat num = 2 \<and>
    take 2 bs = [Some 3, Some 0]"
proof -
  have f: "strtok (CHR '','') ''foo,FWQ,,dgemm'' = [''foo'', ''FWQ'', ''dgemm'']" by simp
  have g: "get_benchmark_name ''foo'' = None" "get_benchmark_name ''FWQ'' = Some 3"
      "get_benchmark_name ''dgemm'' = Some 0"
    by (simp_all add: get_benchmark_name_def unat_number_benchmarks upt_rec registry_def strcasecmp_0
        tolower_def less_eq_char_def)
  have sel: "[3, 0] = List.map_filter get_benchmark_name (strtok (CHR '','') ''foo,FWQ,,dgemm'')"
    unfolding f by (simp add: List.map_filter_simps g)
  have "\<exists>num bs. select_benchmarks (\<lambda>_. True) (Some ''foo,FWQ,,dgemm'') = Inr (num, bs) \<and>
      unat num = length [3, 0 :: nat] \<and> length [3, 0 :: nat] \<le> length bs \<and>
      take (length [3, 0 :: nat]) bs = map Some [3, 0]"
    by (rule select_benchmarks_result) (simp, simp, simp only: sel option.case)
  then show ?thesis by (auto simp: numeral_2_eq_2)
qed

lemma select_pmcs_eq:
  assumes "\<forall>n. malloc n" and "s \<noteq> []" and "Suc (count_list s (CHR '','')) < 2 ^ 32"
    and "toks = strtok (CHR '','') s"
  shows "select_pmcs malloc (Some s) = Inr (of_nat (Suc (count_list s (CHR '',''))),
    map Some toks @ replicate (Suc (count_list s (CHR '','')) - length toks) None)"
proof -
  let ?n = "Suc (count_list s (CHR '',''))"
  have n: "unat (of_nat ?n :: u32) = ?n" using assms(3) by (rule unat_of_nat32)
  have le: "length toks \<le> ?n" unfolding assms(4) by (rule length_strtok_le)
  have "pmcs_loop (of_nat ?n) toks (replicate ?n None) =
      Inr (map (\<lambda>i. Some (toks ! i)) [0..<length toks] @ drop (length toks) (replicate ?n None))"
    unfolding pmcs_loop_def n using le by (subst fill_loop) (simp_all add: min_def)
  moreover have "map (\<lambda>i. Some (toks ! i)) [0..<length toks] = map Some toks"
    by (intro nth_equalityI) simp_all
  ultimately show ?thesis
    using assms n drop_replicate [of "length toks" ?n None]
    by (simp add: select_pmcs_def count_chars_eq)
qed

text \<open>C20. The counters of \<open>--pmcs\<close>: the array has one element for each field between the commas, but
only the fields that are not empty are written, to the front; as many elements as there are empty
fields stay uninitialised at the end, and the workers get all of them.\<close>

theorem select_pmcs_result:
  assumes "\<forall>n. malloc n" and "s \<noteq> []" and "Suc (count_list s (CHR '','')) < 2 ^ 32"
    and "toks = strtok (CHR '','') s"
  shows "select_pmcs malloc (Some s) = Inr (of_nat (Suc (count_list s (CHR '',''))),
    map Some toks @ replicate (Suc (count_list s (CHR '','')) - length toks) None)"
  using assms by (rule select_pmcs_eq)

theorem select_pmcs_result_witness:
  "\<exists>num. select_pmcs (\<lambda>_. True) (Some ''a,,b'') = Inr (num, [Some ''a'', Some ''b'', None])"
  using select_pmcs_result [of "\<lambda>_. True" "''a,,b''" "[''a'', ''b'']"] by simp

text \<open>What the checks of the cpusets let through: sets of CPUs of the machine, the second one not
empty exactly for the policy \<open>pair\<close>, and a set to run on that is not empty. But for \<open>pair\<close> without
\<open>--cpuset-1\<close> the default, the whole machine, overlaps with the second set, and every run of two
benchmarks fails its assertion.\<close>

lemma check_cpusets_result:
  "(\<forall>set1 set2 runset. check_cpusets pol global c1 c2 = Inr (set1, set2, runset) \<longrightarrow>
     set1 \<subseteq> global \<and> set2 \<subseteq> global \<and> runset = set1 \<union> set2 \<and> set2 = c2 \<and> (pol = PAIR \<longleftrightarrow> set2 \<noteq> {}) \<and>
     (global \<noteq> {} \<longrightarrow> runset \<noteq> {}) \<and>
     (pol = PAIR \<and> c1 = {} \<longrightarrow> (\<forall>workers. check_pair set1 set2 workers = Inl AssertFailed)))"
  by (auto simp: check_cpusets_def check_pair_def Let_def split: if_splits)

end
