(* ===== verification/Tuning.thy ===== *)
theory Tuning
  imports Worker CString Floating
begin

text \<open>
  Tuning the number of rounds of the benchmarks to a target time (\<open>tune_time\<close> and
  \<open>tune_benchmarks_time\<close> in \<open>src/main.cc\<close>). The clock is a function on the world, which each
  reading may change; the arithmetic on \<open>double\<close> rounds every single result.
\<close>

section \<open>Conversions\<close>

text \<open>An \<open>unsigned\<close> is always exact; a \<open>uint64_t\<close> is rounded.\<close>

definition double_of_u32 :: "u32 \<Rightarrow> double" where
  "double_of_u32 n = Finite (of_nat (unat n))"

definition double_of_u64 :: "u64 \<Rightarrow> double" where
  "double_of_u64 n = fl (of_nat (unat n))"

fun nearbyint :: "double \<Rightarrow> double" where
  "nearbyint (Finite x) = Finite (of_int (round_even x))"
| "nearbyint NaN = NaN"
| "nearbyint (Infinite s) = Infinite s"

text \<open>The conversion to \<open>unsigned\<close> cuts the fraction off and is undefined out of range.\<close>

fun to_unsigned :: "double \<Rightarrow> u32 outcome" where
  "to_unsigned (Finite x) =
     (if -1 < x \<and> x < 2 ^ 32 then Inr (of_int (if 0 \<le> x then \<lfloor>x\<rfloor> else \<lceil>x\<rceil>)) else Inl Undefined)"
| "to_unsigned NaN = Inl Undefined"
| "to_unsigned (Infinite _) = Inl Undefined"

section \<open>The clock\<close>

text \<open>
  What the C library's functions for the time answer: seconds and nanoseconds, or microseconds,
  or \<open>None\<close> for an error. The product is one of 64 bits.
\<close>

datatype 'e clock =
    Clock_gettime "'e \<Rightarrow> (u64 \<times> u64) option \<times> 'e"
  | Gettimeofday "'e \<Rightarrow> (u64 \<times> u64) option \<times> 'e"

fun get_time :: "'e clock \<Rightarrow> 'e \<Rightarrow> (u64 \<times> 'e) outcome" where
  "get_time (Clock_gettime f) e =
     (case f e of (None, _) \<Rightarrow> Inl ExitFailure
      | (Some (tv_sec, tv_nsec), e1) \<Rightarrow> Inr (tv_sec * 1000 * 1000 * 1000 + tv_nsec, e1))"
| "get_time (Gettimeofday f) e =
     (case f e of (None, _) \<Rightarrow> Inl ExitFailure
      | (Some (tv_sec, tv_usec), e1) \<Rightarrow> Inr (tv_sec * 1000 * 1000 * 1000 + tv_usec * 1000, e1))"

section \<open>One benchmark\<close>

definition one_call :: "('a, 'e) benchmark_t \<Rightarrow> 'a \<Rightarrow> 'e \<Rightarrow> 'e" where
  "one_call b a e = b_call b a (case b_reset_arg b of None \<Rightarrow> e | Some reset \<Rightarrow> reset a e)"

partial_function (option) tune_loop ::
  "'e clock \<Rightarrow> ('e \<Rightarrow> 'e) \<Rightarrow> u64 \<Rightarrow> u32 \<Rightarrow> 'e \<Rightarrow> (u32 \<times> 'e) outcome option"
where
  "tune_loop clk call limit rep e =
     (case get_time clk e of Inl x \<Rightarrow> Some (Inl x)
      | Inr r \<Rightarrow>
          if fst r < limit then tune_loop clk call limit (rep + 1) (call (snd r)) else Some (Inr (rep, snd r)))"

text \<open>
  The number of rounds, and the time they are said to take. The quotient of the rounds and the
  product with the duration are computed on integers.
\<close>

definition tune_rounds :: "double \<Rightarrow> u32 \<Rightarrow> u32 \<Rightarrow> u64 \<Rightarrow> (u32 \<times> double) outcome" where
  "tune_rounds target_seconds rep init_rounds duration =
     (let rounds = ddiv (dmul (dmul (dmul target_seconds (Finite (10 ^ 9))) (double_of_u32 rep)) (double_of_u32 init_rounds))
            (double_of_u64 duration)
      in if \<not> dle rounds (Finite 4294967295) then Inl AssertFailed
         else and_then (to_unsigned (nearbyint rounds)) (\<lambda>n.
           let ret = (if n < 1 then 1 else n)
           in if rep = 0 then Inl Undefined
              else Inr (ret, ddiv (ddiv (double_of_u64 (ucast (ret div rep) * duration)) (Finite (10 ^ 9)))
                (double_of_u32 init_rounds))))"

text \<open>\<open>None\<close>: the loop does not end. Without \<open>init_arg\<close> the argument is a null pointer, \<open>null\<close>.\<close>

definition tune_time ::
  "'e clock \<Rightarrow> 'a \<Rightarrow> ('a, 'e) benchmark_t \<Rightarrow> double \<Rightarrow> u32 \<Rightarrow> 'e \<Rightarrow> (u32 \<times> double \<times> 'e) outcome option"
where
  "tune_time clk null b target_seconds init_rounds e =
     (let (a, e0) = (case b_init_arg b of None \<Rightarrow> (null, e) | Some f \<Rightarrow> f (b_state b) e)
      in case get_time clk e0 of Inl x \<Rightarrow> Some (Inl x)
         | Inr (start, e1) \<Rightarrow>
             (case tune_loop clk (one_call b a) (start + 1000 * 1000 * 1000) 0 e1 of None \<Rightarrow> None
              | Some r \<Rightarrow>
                  Some (and_then r (\<lambda>(rep, e2).
                    and_then (get_time clk e2) (\<lambda>(stop, e3).
                      and_then (tune_rounds target_seconds rep init_rounds (stop - start)) (\<lambda>(ret, runtime).
                        Inr (ret, runtime, e3)))))))"

section \<open>All benchmarks\<close>

definition rounds_option :: "string \<Rightarrow> u32 \<Rightarrow> string" where
  "rounds_option nm rounds = ''--'' @ nm @ ''-rounds='' @ decimal (unat rounds)"

fun tune_all ::
  "'e clock \<Rightarrow> 'a \<Rightarrow> double \<Rightarrow> ('a, 'e) benchmark_t list \<Rightarrow> string list \<Rightarrow> 'e \<Rightarrow> (string list \<times> 'e) outcome option"
where
  "tune_all clk null time [] argv e = Some (Inr (argv, e))"
| "tune_all clk null time (b # bs) argv e =
     (case tune_time clk null b time 10 e of None \<Rightarrow> None
      | Some (Inl x) \<Rightarrow> Some (Inl x)
      | Some (Inr (ret, _, e1)) \<Rightarrow> tune_all clk null time bs (argv @ [rounds_option (b_name b) ret]) e1)"

text \<open>
  \<open>init_benchmarks\<close> parses the options of the benchmarks; the strings that \<open>tune_benchmarks_time\<close>
  leaves in \<open>argv\<close> are the result.
\<close>

definition tune_benchmarks_time ::
  "'e clock \<Rightarrow> 'a \<Rightarrow> (string list \<Rightarrow> 'e \<Rightarrow> 'e) \<Rightarrow> ('a, 'e) benchmark_t list \<Rightarrow> string list \<Rightarrow> double \<Rightarrow> 'e
    \<Rightarrow> (string list \<times> 'e) outcome option"
where
  "tune_benchmarks_time clk null init_benchmarks bs argv time e =
     tune_all clk null time bs argv (init_benchmarks (argv @ map (\<lambda>b. rounds_option (b_name b) 10) bs) e)"

section \<open>The loop ends\<close>

text \<open>
  A run of the loop: \<open>world k\<close> is the world before the reading of the clock in round \<open>k\<close>, \<open>after k\<close>
  the one behind it, \<open>time k\<close> what was read.
\<close>

lemma tune_loop_hit:
  assumes "\<forall>k \<le> n. get_time clk (world k) = Inr (time k, after k)"
    and "\<forall>k < n. world (Suc k) = call (after k) \<and> time k < limit" and "limit \<le> time n"
  shows "tune_loop clk call limit rep (world 0) = Some (Inr (rep + of_nat n, after n))"
  using assms
proof (induction n arbitrary: rep world time after)
  case 0
  then have "\<not> time 0 < limit" by (simp add: not_less)
  with 0 show ?case by (subst tune_loop.simps) simp
next
  case (Suc n)
  have "tune_loop clk call limit (rep + 1) (world (Suc 0)) = Some (Inr (rep + 1 + of_nat n, after (Suc n)))"
    by (rule Suc.IH [of "\<lambda>k. world (Suc k)" "\<lambda>k. time (Suc k)" "\<lambda>k. after (Suc k)"])
      (use Suc.prems Suc_le_mono Suc_less_eq in blast)+
  moreover have "get_time clk (world 0) = Inr (time 0, after 0)" "time 0 < limit" "world (Suc 0) = call (after 0)"
    using Suc.prems by simp_all
  ultimately show ?case by (subst tune_loop.simps) (simp add: add_ac)
qed

section \<open>The error\<close>

text \<open>The relative error of one rounding, and a number that is \<open>k\<close> roundings away from another.\<close>

definition eps :: rat where
  "eps = 1 / 2 ^ 53"

lemma eps_bounds: "0 < eps" "eps < 1"
  by (simp_all add: eps_def)

lemma eps_powers:
  "1 / 2 \<le> (1 - eps) ^ 4" "(1 + eps) ^ 4 \<le> 2"
  "1 - 1 / 2 ^ 50 \<le> (1 - eps) ^ 4 / (1 + eps)" "(1 + eps) ^ 4 / (1 - eps) \<le> 1 + 1 / 2 ^ 50"
  "1 / 2 \<le> (1 - eps) ^ 3 / (1 + eps)" "(1 + eps) ^ 3 / (1 - eps) \<le> 2"
  by (simp_all add: eps_def power_divide)

definition near :: "nat \<Rightarrow> rat \<Rightarrow> rat \<Rightarrow> bool" where
  "near k x y \<longleftrightarrow> x * (1 - eps) ^ k \<le> y \<and> y \<le> x * (1 + eps) ^ k"

lemma near_exact: "near 0 x x"
  by (simp add: near_def)

lemma near_range:
  assumes "near k x y" and "k \<le> 4" and "0 < x"
  shows "x / 2 \<le> y" and "y \<le> 2 * x"
proof -
  have "(1 - eps) ^ 4 \<le> (1 - eps) ^ k" using assms(2) eps_bounds by (intro power_decreasing) simp_all
  with eps_powers(1) have "1 / 2 \<le> (1 - eps) ^ k" by linarith
  then have "x * (1 / 2) \<le> x * (1 - eps) ^ k" using assms(3) by (intro mult_left_mono) simp_all
  with assms(1) show "x / 2 \<le> y" unfolding near_def by linarith
  have "(1 + eps) ^ k \<le> (1 + eps) ^ 4" using assms(2) eps_bounds by (intro power_increasing) simp_all
  with eps_powers(2) have "(1 + eps) ^ k \<le> 2" by linarith
  then have "x * (1 + eps) ^ k \<le> x * 2" using assms(3) by (intro mult_left_mono) simp_all
  with assms(1) show "y \<le> 2 * x" unfolding near_def by linarith
qed

lemma fl_near:
  assumes "near k x y" and "in_range y"
  shows "\<exists>z. fl y = Finite z \<and> near (Suc k) x z"
proof -
  obtain z where z: "fl y = Finite z" "y * (1 - eps) \<le> z" "z \<le> y * (1 + eps)"
    using fl_error [OF assms(2)] unfolding eps_def by blast
  have "x * (1 - eps) ^ k * (1 - eps) \<le> y * (1 - eps)"
    by (rule mult_right_mono) (use assms(1) eps_bounds in \<open>simp_all add: near_def\<close>)
  moreover have "y * (1 + eps) \<le> x * (1 + eps) ^ k * (1 + eps)"
    by (rule mult_right_mono) (use assms(1) eps_bounds in \<open>simp_all add: near_def\<close>)
  ultimately show ?thesis using z by (auto simp: near_def power_Suc2 mult.assoc simp del: power_Suc)
qed

lemma near_times:
  assumes "near k x y" and "0 < c"
  shows "near k (x * c) (y * c)"
proof -
  have "x * (1 - eps) ^ k * c \<le> y * c" and "y * c \<le> x * (1 + eps) ^ k * c"
    using assms by (simp_all add: near_def)
  then show ?thesis by (simp add: near_def mult_ac)
qed

text \<open>One multiplication, and the division, with an exact result in the range.\<close>

definition mid_range :: "rat \<Rightarrow> bool" where
  "mid_range x \<longleftrightarrow> 1 / 2 ^ 199 \<le> x \<and> x \<le> 2 ^ 199"

lemma mid_range_pos: "mid_range x \<Longrightarrow> 0 < x"
  unfolding mid_range_def by (rule less_le_trans [of _ "1 / 2 ^ 199"]) simp_all

lemma in_range_mid:
  assumes "mid_range x" and "x / 2 \<le> y" and "y \<le> 2 * x"
  shows "in_range y"
proof -
  have "(1 / 2 ^ 200 :: rat) = 1 / 2 ^ 199 / 2" by simp
  also have "\<dots> \<le> x / 2" using assms(1) unfolding mid_range_def by (intro divide_right_mono) simp_all
  finally have "1 / 2 ^ 200 \<le> y" using assms(2) by (rule order_trans)
  have "2 * x \<le> 2 * 2 ^ 199" using assms(1) unfolding mid_range_def by (intro mult_left_mono) simp_all
  also have "\<dots> = (2 ^ 200 :: rat)" by simp
  finally have "y \<le> 2 ^ 200" by (rule order_trans [OF assms(3)])
  with \<open>1 / 2 ^ 200 \<le> y\<close> show ?thesis unfolding in_range_def ..
qed

lemma dmul_near:
  assumes "near k x y" and "k \<le> 3" and "0 < c" and "mid_range (x * c)"
  shows "\<exists>z. dmul (Finite y) (Finite c) = Finite z \<and> near (Suc k) (x * c) z"
proof -
  have n: "near k (x * c) (y * c)" by (rule near_times [OF assms(1,3)])
  have k: "k \<le> 4" using assms(2) by simp
  have "in_range (y * c)" by (rule in_range_mid [OF assms(4) near_range [OF n k mid_range_pos [OF assms(4)]]])
  with fl_near [OF n] show ?thesis by simp
qed

lemma ddiv_near:
  assumes "near 3 x y" and "near 1 d dd" and "0 < x" and "0 < d" and "mid_range (x / d)"
  shows "\<exists>z. ddiv (Finite y) (Finite dd) = Finite z \<and> x / d * (1 - 1 / 2 ^ 50) \<le> z \<and> z \<le> x / d * (1 + 1 / 2 ^ 50)"
proof -
  have dd: "0 < dd" "d * (1 - eps) \<le> dd" "dd \<le> d * (1 + eps)"
    using near_range(1) [OF assms(2) _ assms(4)] assms(2,4) by (simp_all add: near_def)
  have y: "0 \<le> y" "x * (1 - eps) ^ 3 \<le> y" "y \<le> x * (1 + eps) ^ 3"
    using near_range(1) [OF assms(1) _ assms(3)] assms(1,3) by (simp_all add: near_def)
  have e: "0 < 1 - eps" "0 < 1 + eps" using eps_bounds by simp_all
  have "x * (1 - eps) ^ 3 / (d * (1 + eps)) \<le> y / dd"
    using y dd assms(3,4) e by (intro frac_le) simp_all
  then have lo: "x / d * ((1 - eps) ^ 3 / (1 + eps)) \<le> y / dd" by simp
  have "y / dd \<le> x * (1 + eps) ^ 3 / (d * (1 - eps))"
    using y dd assms(3,4) e by (intro frac_le) simp_all
  then have hi: "y / dd \<le> x / d * ((1 + eps) ^ 3 / (1 - eps))" by simp
  have E: "0 < x / d" using assms(3,4) by simp
  have f: "(1 - eps) ^ 3 / (1 + eps) * (1 - eps) = (1 - eps) ^ 4 / (1 + eps)"
    "(1 + eps) ^ 3 / (1 - eps) * (1 + eps) = (1 + eps) ^ 4 / (1 - eps)"
    by (simp_all add: numeral_eq_Suc)
  have "x / d * (1 / 2) \<le> x / d * ((1 - eps) ^ 3 / (1 + eps))"
    by (rule mult_left_mono [OF eps_powers(5)]) (use E in simp)
  from order_trans [OF this lo] have lo2: "x / d / 2 \<le> y / dd" by simp
  have "x / d * ((1 + eps) ^ 3 / (1 - eps)) \<le> x / d * 2"
    by (rule mult_left_mono [OF eps_powers(6)]) (use E in simp)
  from order_trans [OF hi this] have "y / dd \<le> 2 * (x / d)" by (simp only: mult.commute)
  with lo2 have "in_range (y / dd)" by (rule in_range_mid [OF assms(5)])
  then obtain z where z: "fl (y / dd) = Finite z" "y / dd * (1 - eps) \<le> z" "z \<le> y / dd * (1 + eps)"
    using fl_error unfolding eps_def by blast
  have "x / d * (1 - 1 / 2 ^ 50) \<le> x / d * ((1 - eps) ^ 3 / (1 + eps) * (1 - eps))"
    unfolding f by (rule mult_left_mono [OF eps_powers(3)]) (use E in simp)
  also have "\<dots> \<le> y / dd * (1 - eps)"
    unfolding mult.assoc [symmetric] by (rule mult_right_mono [OF lo]) (use e in simp)
  finally have "x / d * (1 - 1 / 2 ^ 50) \<le> z" using z(2) by linarith
  moreover have "y / dd * (1 + eps) \<le> x / d * ((1 + eps) ^ 3 / (1 - eps) * (1 + eps))"
    unfolding mult.assoc [symmetric] by (rule mult_right_mono [OF hi]) (use e in simp)
  then have "y / dd * (1 + eps) \<le> x / d * ((1 + eps) ^ 4 / (1 - eps))" unfolding f .
  moreover have "x / d * ((1 + eps) ^ 4 / (1 - eps)) \<le> x / d * (1 + 1 / 2 ^ 50)"
    by (rule mult_left_mono [OF eps_powers(4)]) (use E in simp)
  ultimately show ?thesis using z(1,3) dd(1) by auto
qed

section \<open>The number of rounds\<close>

definition exact_rounds :: "rat \<Rightarrow> u32 \<Rightarrow> u32 \<Rightarrow> u64 \<Rightarrow> rat" where
  "exact_rounds T rep init_rounds duration =
     T * 10 ^ 9 * of_nat (unat rep) * of_nat (unat init_rounds) / of_nat (unat duration)"

definition sensible :: "rat \<Rightarrow> bool" where
  "sensible T \<longleftrightarrow> 1 / 2 ^ 20 \<le> T \<and> T \<le> 2 ^ 40"

lemma mid_rangeI: "1 / 2 ^ 64 \<le> x \<Longrightarrow> x \<le> 2 ^ 134 \<Longrightarrow> mid_range x"
  unfolding mid_range_def by (auto elim: order_trans [rotated] order_trans)

lemma mid_range_ge1:
  assumes "1 \<le> y" and "y \<le> 2 ^ m" and "m \<le> 134"
  shows "mid_range y"
proof (rule mid_rangeI)
  have "1 / 2 ^ 64 \<le> (1 :: rat)" by simp
  then show "1 / 2 ^ 64 \<le> y" using assms(1) by (rule order_trans)
  show "y \<le> 2 ^ 134" using assms(2) power_increasing [OF assms(3), of "2 :: rat"] by (rule order_trans) simp
qed

lemma word_rat:
  assumes "0 < (w :: 'a::len word)"
  shows "1 \<le> (of_nat (unat w) :: rat)" and "of_nat (unat w) \<le> (2 ^ LENGTH('a) :: rat)"
proof -
  have "1 \<le> unat w" using assms by (simp add: unat_gt_0 Suc_le_eq)
  then show "1 \<le> (of_nat (unat w) :: rat)" by (metis of_nat_1 of_nat_le_iff)
  have "unat w \<le> 2 ^ LENGTH('a)" using unsigned_less [of w] by (rule less_imp_le)
  then show "of_nat (unat w) \<le> (2 ^ LENGTH('a) :: rat)" by (metis of_nat_le_iff of_nat_numeral of_nat_power)
qed

lemma scale_bounds:
  assumes "1 \<le> x" and "x \<le> 2 ^ k" and "1 \<le> c" and "c \<le> 2 ^ m"
  shows "1 \<le> x * (c :: rat)" and "x * c \<le> 2 ^ (k + m)"
  using mult_mono [OF assms(1,3)] mult_mono [OF assms(2,4)] assms(1,3) by (simp_all add: power_add)

text \<open>The numbers that are rounded before the others.\<close>

lemma seconds_near:
  assumes "sensible T"
  shows "1 \<le> T * 10 ^ 9" and "T * 10 ^ 9 \<le> 2 ^ 70"
    and "\<exists>y. dmul (Finite T) (Finite (10 ^ 9)) = Finite y \<and> near 1 (T * 10 ^ 9) y"
proof -
  have "1 / 2 ^ 20 * 10 ^ 9 \<le> T * 10 ^ 9" and "T * 10 ^ 9 \<le> 2 ^ 40 * 10 ^ 9"
    using assms unfolding sensible_def by (intro mult_right_mono; simp)+
  moreover have "1 \<le> (1 / 2 ^ 20 * 10 ^ 9 :: rat)" "2 ^ 40 * 10 ^ 9 \<le> (2 ^ 70 :: rat)" by simp_all
  ultimately show b: "1 \<le> T * 10 ^ 9" "T * 10 ^ 9 \<le> 2 ^ 70" by (blast intro: order_trans)+
  have "mid_range (T * 10 ^ 9)" by (rule mid_rangeI) (use b in simp_all)
  then show "\<exists>y. dmul (Finite T) (Finite (10 ^ 9)) = Finite y \<and> near 1 (T * 10 ^ 9) y"
    using dmul_near [OF near_exact, of "10 ^ 9" T] by auto
qed

lemma duration_near:
  assumes "0 < duration"
  shows "\<exists>dd. double_of_u64 duration = Finite dd \<and> near 1 (of_nat (unat duration)) dd"
proof -
  let ?d = "of_nat (unat duration) :: rat"
  have d: "1 \<le> ?d" "?d \<le> 2 ^ 64" using word_rat [OF assms] by simp_all
  have "mid_range ?d" by (rule mid_rangeI) (use d in simp_all)
  then have "in_range ?d" by (rule in_range_mid) (use d(1) in simp_all)
  from fl_near [OF near_exact this] show ?thesis by (simp add: double_of_u64_def)
qed

lemma quotient_near:
  assumes "sensible T" and "0 < rep" and "0 < init_rounds" and "0 < duration"
  shows "\<exists>r. ddiv (dmul (dmul (dmul (Finite T) (Finite (10 ^ 9))) (double_of_u32 rep)) (double_of_u32 init_rounds))
      (double_of_u64 duration) = Finite r \<and>
    exact_rounds T rep init_rounds duration * (1 - 1 / 2 ^ 50) \<le> r \<and>
    r \<le> exact_rounds T rep init_rounds duration * (1 + 1 / 2 ^ 50)"
proof -
  let ?n = "of_nat (unat rep) :: rat" and ?i = "of_nat (unat init_rounds) :: rat" and ?d = "of_nat (unat duration) :: rat"
  have n: "1 \<le> ?n" "?n \<le> 2 ^ 32" and i: "1 \<le> ?i" "?i \<le> 2 ^ 32" and d: "1 \<le> ?d" "?d \<le> 2 ^ 64"
    using word_rat [OF assms(2)] word_rat [OF assms(3)] word_rat [OF assms(4)] by simp_all
  note b1 = seconds_near(1,2) [OF assms(1)]
  note b2 = scale_bounds [OF b1 n]
  note b3 = scale_bounds [OF b2 i]
  let ?x = "T * 10 ^ 9 * ?n * ?i"
  have pos: "0 < ?x" "0 < ?d" "0 < ?n" "0 < ?i" using b3(1) d(1) n(1) i(1) by linarith+
  obtain y1 where y1: "dmul (Finite T) (Finite (10 ^ 9)) = Finite y1" "near 1 (T * 10 ^ 9) y1"
    using seconds_near(3) [OF assms(1)] by blast
  obtain y2 where y2: "dmul (Finite y1) (Finite ?n) = Finite y2" "near 2 (T * 10 ^ 9 * ?n) y2"
    using dmul_near [OF y1(2) _ pos(3) mid_range_ge1 [OF b2]] by (auto simp: numeral_2_eq_2)
  obtain y3 where y3: "dmul (Finite y2) (Finite ?i) = Finite y3" "near 3 ?x y3"
    using dmul_near [OF y2(2) _ pos(4) mid_range_ge1 [OF b3]] by (auto simp: numeral_3_eq_3)
  obtain dd where dd: "double_of_u64 duration = Finite dd" "near 1 ?d dd"
    using duration_near [OF assms(4)] by blast
  have "mid_range (?x / ?d)"
  proof (rule mid_rangeI)
    have "1 / 2 ^ 64 \<le> 1 / ?d" using d by (intro divide_left_mono) simp_all
    also have "\<dots> \<le> ?x / ?d" using b3(1) d(1) by (intro divide_right_mono) simp_all
    finally show "1 / 2 ^ 64 \<le> ?x / ?d" .
    have "?x / ?d \<le> ?x / 1" using d(1) pos by (intro divide_left_mono) simp_all
    then have "?x / ?d \<le> ?x" by simp
    also have "\<dots> \<le> 2 ^ 134" using b3(2) by simp
    finally show "?x / ?d \<le> 2 ^ 134" .
  qed
  from ddiv_near [OF y3(2) dd(2) pos(1,2) this] show ?thesis
    unfolding exact_rounds_def by (simp only: y1(1) y2(1) y3(1) dd(1) double_of_u32_def)
qed

lemma eps_number: "E * (1 - 1 / 2 ^ 50) = E - E / 2 ^ 50" "E * (1 + 1 / 2 ^ 50) = E + E / (2 ^ 50 :: rat)"
  by (simp_all add: right_diff_distrib distrib_left)

text \<open>Rounding to an integer, from a number that is close to \<open>E\<close>.\<close>

lemma rounds_word:
  assumes "0 \<le> r" and "r \<le> 4294967295" and "E - E / 2 ^ 50 \<le> r" and "r \<le> E + E / 2 ^ 50" and "0 < E"
    and "n = (of_int (round_even r) :: u32)" and "ret = (if n < 1 then 1 else n)"
  shows "to_unsigned (nearbyint (Finite r)) = Inr n" and "1 \<le> unat ret"
    and "\<bar>of_nat (unat ret) - E\<bar> \<le> 1 / 2 + E / 2 ^ 50 \<or> unat ret = 1 \<and> E < 1"
proof -
  let ?k = "round_even r"
  have b: "\<bar>of_int ?k - r\<bar> \<le> 1 / 2" by (rule round_even_bounds)
  have k0: "0 \<le> ?k" by (rule round_even_nonneg [OF assms(1)])
  have "(of_int ?k :: rat) < 4294967296" using abs_le_D1 [OF b] assms(2) by linarith
  then have k1: "?k < 4294967296" by (metis of_int_less_iff of_int_numeral)
  have k: "unat n = nat ?k"
    using k0 k1 unat_of_nat32 [of "nat ?k"] by (simp add: assms(6))
  show "to_unsigned (nearbyint (Finite r)) = Inr n" using k0 k1 by (simp add: assms(6))
  have one: "unat ret = (if ?k = 0 then 1 else nat ?k)"
    using k k0 by (auto simp: assms(7) word_less_nat_alt)
  show "1 \<le> unat ret" using one k0 by (cases "?k = 0") (simp_all add: Suc_le_eq)
  show "\<bar>of_nat (unat ret) - E\<bar> \<le> 1 / 2 + E / 2 ^ 50 \<or> unat ret = 1 \<and> E < 1"
  proof (cases "?k = 0")
    case True
    have "E / 2 ^ 50 \<le> E / 4" using assms(5) by (simp add: field_simps)
    then have "E < 1" using abs_le_D2 [OF b] assms(3,5) True by simp
    with one True show ?thesis by simp
  next
    case False
    then have "(of_nat (unat ret) :: rat) = of_int ?k" using one k0 by simp
    moreover have "\<bar>of_int ?k - E\<bar> \<le> 1 / 2 + E / 2 ^ 50"
      using abs_le_D1 [OF b] abs_le_D2 [OF b] assms(3,4) by (intro abs_leI) linarith+
    ultimately show ?thesis by simp
  qed
qed

lemma tune_rounds_result:
  assumes "sensible T" and "0 < rep" and "0 < init_rounds" and "0 < duration"
    and E: "E = exact_rounds T rep init_rounds duration"
  shows "E \<le> 4294967294 \<Longrightarrow> \<exists>ret runtime. tune_rounds (Finite T) rep init_rounds duration = Inr (ret, runtime) \<and>
      1 \<le> unat ret \<and> (\<bar>of_nat (unat ret) - E\<bar> \<le> 1 / 2 + E / 2 ^ 50 \<or> unat ret = 1 \<and> E < 1)"
    and "4294967296 \<le> E \<Longrightarrow> tune_rounds (Finite T) rep init_rounds duration = Inl AssertFailed"
proof -
  obtain r where r: "ddiv (dmul (dmul (dmul (Finite T) (Finite (10 ^ 9))) (double_of_u32 rep)) (double_of_u32 init_rounds))
      (double_of_u64 duration) = Finite r" "E - E / 2 ^ 50 \<le> r" "r \<le> E + E / 2 ^ 50"
    using quotient_near [OF assms(1-4)] unfolding E eps_number by blast
  have "0 < T" using assms(1) unfolding sensible_def by (auto intro: less_le_trans [of _ "1 / 2 ^ 20"])
  moreover have "0 < (of_nat (unat rep) :: rat)" "0 < (of_nat (unat init_rounds) :: rat)" "0 < (of_nat (unat duration) :: rat)"
    using word_rat(1) [OF assms(2)] word_rat(1) [OF assms(3)] word_rat(1) [OF assms(4)] by linarith+
  ultimately have E0: "0 < E" unfolding E exact_rounds_def by simp
  have e: "0 < E / 2 ^ 50" "E / 2 ^ 50 \<le> E" using E0 by (simp_all add: field_simps)
  show "tune_rounds (Finite T) rep init_rounds duration = Inl AssertFailed" if "4294967296 \<le> E"
  proof -
    have "E * (4294967295 / 4294967296) < E * (1 - 1 / 2 ^ 50)" using E0 by (intro mult_strict_left_mono) simp_all
    then have "4294967295 < r" using r(2) that unfolding eps_number by linarith
    then show ?thesis unfolding tune_rounds_def r(1) by simp
  qed
  assume le: "E \<le> 4294967294"
  have "E / 2 ^ 50 \<le> 1 / 2" using le by simp
  then have "r \<le> 4294967295" using r(3) le by linarith
  moreover have "0 \<le> r" using r(2) e by linarith
  moreover define n where "n = (of_int (round_even r) :: u32)"
  ultimately have w: "to_unsigned (nearbyint (Finite r)) = Inr n" "1 \<le> unat (if n < 1 then 1 else n)"
    "\<bar>of_nat (unat (if n < 1 then 1 else n)) - E\<bar> \<le> 1 / 2 + E / 2 ^ 50 \<or> unat (if n < 1 then 1 else n) = 1 \<and> E < 1"
    using rounds_word [OF _ _ r(2,3) E0 n_def refl] by blast+
  have "rep \<noteq> 0" using assms(2) by auto
  then show "\<exists>ret runtime. tune_rounds (Finite T) rep init_rounds duration = Inr (ret, runtime) \<and>
      1 \<le> unat ret \<and> (\<bar>of_nat (unat ret) - E\<bar> \<le> 1 / 2 + E / 2 ^ 50 \<or> unat ret = 1 \<and> E < 1)"
    using w \<open>r \<le> 4294967295\<close> unfolding tune_rounds_def r(1)
    by (simp add: Let_def del: nearbyint.simps to_unsigned.simps)
qed

lemma tune_rounds_none:
  assumes "sensible T" and "0 < duration"
  shows "tune_rounds (Finite T) 0 init_rounds duration = Inl Undefined"
proof -
  obtain y where y: "dmul (Finite T) (Finite (10 ^ 9)) = Finite y" using seconds_near(3) [OF assms(1)] by blast
  obtain dd where dd: "double_of_u64 duration = Finite dd" "near 1 (of_nat (unat duration)) dd"
    using duration_near [OF assms(2)] by blast
  have "0 < dd" using near_range(1) [OF dd(2)] word_rat(1) [OF assms(2)] by simp
  then have q: "ddiv (dmul (dmul (dmul (Finite T) (Finite (10 ^ 9))) (double_of_u32 0)) (double_of_u32 init_rounds))
      (double_of_u64 duration) = Finite 0"
    by (simp only: y dd(1)) (simp add: double_of_u32_def fl_def)
  show ?thesis unfolding tune_rounds_def q by (simp add: round_even_def)
qed

text \<open>C11. Tuning returns when the clock comes to the end of its second, and the number of rounds is the
exact quotient, rounded: off by at most one half and a rounding error of the arithmetic, and never
below 1. If the quotient does not fit into \<open>unsigned\<close>, an assertion fails. When already the first
reading of the clock is late, so that nothing was measured, the program divides by zero.\<close>

theorem tune_time_rounds:
  assumes "(case b_init_arg b of None \<Rightarrow> (null, e) | Some f \<Rightarrow> f (b_state b) e) = (a, e0)"
    and "get_time clk e0 = Inr (start, world 0)"
    and "\<forall>k \<le> n. get_time clk (world k) = Inr (time k, after k)"
    and "\<forall>k < n. world (Suc k) = one_call b a (after k) \<and> time k < start + 1000000000" and "start + 1000000000 \<le> time n"
    and "n < 2 ^ 32" and "get_time clk (after n) = Inr (stop, e3)" and "start < stop"
    and "sensible T" and "0 < init_rounds"
    and "E = exact_rounds T (of_nat n) init_rounds (stop - start)"
  shows "(n = 0 \<longrightarrow> tune_time clk null b (Finite T) init_rounds e = Some (Inl Undefined)) \<and>
    (0 < n \<and> E \<le> 4294967294 \<longrightarrow> (\<exists>ret runtime.
       tune_time clk null b (Finite T) init_rounds e = Some (Inr (ret, runtime, e3)) \<and> 1 \<le> unat ret \<and>
       (\<bar>of_nat (unat ret) - E\<bar> \<le> 1 / 2 + E / 2 ^ 50 \<or> unat ret = 1 \<and> E < 1))) \<and>
    (0 < n \<and> 4294967296 \<le> E \<longrightarrow> tune_time clk null b (Finite T) init_rounds e = Some (Inl AssertFailed))"
proof -
  let ?rounds = "tune_rounds (Finite T) (of_nat n) init_rounds (stop - start)"
  have "tune_loop clk (one_call b a) (start + 1000000000) 0 (world 0) = Some (Inr (0 + of_nat n, after n))"
    by (rule tune_loop_hit [OF assms(3-5)])
  then have t: "tune_time clk null b (Finite T) init_rounds e =
      Some (and_then ?rounds (\<lambda>(ret, runtime). Inr (ret, runtime, e3)))"
    using assms(1,2,7) by (simp add: tune_time_def)
  have d: "0 < stop - start" using assms(8) by (simp add: word_gt_0)
  have n: "0 < (of_nat n :: u32)" if "0 < n" using that unat_of_nat32 [OF assms(6)] by (simp add: word_less_nat_alt)
  have "?rounds = Inl Undefined" if "n = 0"
    using tune_rounds_none [OF assms(9) d] that by simp
  with tune_rounds_result [OF assms(9) n assms(10) d assms(11)] show ?thesis unfolding t by auto
qed

text \<open>Every call takes half a second: in one second there are two of ten rounds each.\<close>

definition demo_clock :: "nat clock" where
  "demo_clock = Clock_gettime (\<lambda>e. (Some (of_nat (e div 2), of_nat (e mod 2 * 500000000)), e))"

definition demo_tuned :: "(unit, nat) benchmark_t" where
  "demo_tuned = \<lparr>b_name = ''demo'', b_init_arg = None, b_reset_arg = None, b_free_arg = None, b_call = (\<lambda>_. Suc), b_state = ()\<rparr>"

theorem tune_time_rounds_witness:
  "\<exists>ret runtime. tune_time demo_clock () demo_tuned (Finite 1) 10 0 = Some (Inr (ret, runtime, 2)) \<and> unat ret = 20"
proof -
  have E: "exact_rounds 1 (of_nat 2) 10 (1000000000 - 0) = 20" by (simp add: exact_rounds_def)
  define time :: "nat \<Rightarrow> u64" where "time k = of_nat (k div 2) * 1000 * 1000 * 1000 + of_nat (k mod 2 * 500000000)" for k
  have g: "get_time demo_clock k = Inr (time k, k)" for k by (simp add: demo_clock_def time_def)
  have t: "time 0 = 0" "time 1 = 500000000" "time 2 = 1000000000" by (simp_all add: time_def)
  have h1: "(case b_init_arg demo_tuned of None \<Rightarrow> ((), 0 :: nat) | Some f \<Rightarrow> f (b_state demo_tuned) 0) = ((), 0)"
    by (simp add: demo_tuned_def)
  have h2: "get_time demo_clock 0 = Inr (0, id 0)" using g t(1) by simp
  have h3: "\<forall>k \<le> 2. get_time demo_clock (id k) = Inr (time k, k)" using g by simp
  have h4: "\<forall>k < 2. id (Suc k) = one_call demo_tuned () k \<and> time k < 0 + 1000000000"
  proof (intro allI impI)
    fix k :: nat assume "k < 2"
    then have "k = 0 \<or> k = 1" by linarith
    then show "id (Suc k) = one_call demo_tuned () k \<and> time k < 0 + 1000000000"
      using t by (auto simp: one_call_def demo_tuned_def)
  qed
  have h5: "0 + 1000000000 \<le> time 2" using t(3) by simp
  have h7: "get_time demo_clock 2 = Inr (1000000000, 2)" using g t(3) by simp
  have h9: "sensible 1" by (simp add: sensible_def)
  obtain ret runtime
    where ret: "tune_time demo_clock () demo_tuned (Finite 1) 10 0 = Some (Inr (ret, runtime, 2))"
      "\<bar>of_nat (unat ret) - 20\<bar> \<le> 1 / 2 + 20 / (2 ^ 50 :: rat)"
    using tune_time_rounds [OF h1 h2 h3 h4 h5 _ h7 _ h9 _ E [symmetric]] by simp blast
  have "1 / 2 + 20 / 2 ^ 50 < (1 :: rat)" by simp
  with ret(2) have "\<bar>of_nat (unat ret) - 20\<bar> < (1 :: rat)" by (rule le_less_trans)
  then have "(of_nat (unat ret) :: rat) < of_nat 21" "of_nat 19 < (of_nat (unat ret) :: rat)"
    unfolding abs_less_iff by simp_all
  then have "unat ret < 21" "19 < unat ret" by (simp_all only: of_nat_less_iff)
  with ret(1) show ?thesis by auto
qed

end
