(* ===== verification/Startup.thy ===== *)
theory Startup
  imports Selection Tuning Threads
begin

text \<open>
  The first part of \<open>main\<close> (\<open>src/main.cc\<close>): what it finds out about the cache, the options, the
  selection of benchmarks and counters, the tuning and initialisation of the benchmarks, and the
  checks of the cpusets, in this order. It gives the configuration that the workers are started
  with.
\<close>

section \<open>The cache\<close>

text \<open>
  The attributes of the cache that hwloc finds above the first processing unit, and whether its
  type is that of a first-level cache (before version 2 of hwloc, of any cache).
\<close>

record cache =
  l1_type :: bool
  l1_depth :: u32
  l1_size :: u64
  l1_linesize :: u32

definition l1_attributes :: "int \<Rightarrow> cache option \<Rightarrow> cache outcome" where
  "l1_attributes depth covering =
     (if depth < 0 then Inl ExitFailure
      else case covering of None \<Rightarrow> Inl AssertFailed
        | Some cache \<Rightarrow>
            if \<not> l1_type cache then Inl AssertFailed
            else if l1_depth cache \<noteq> 1 then Inl AssertFailed
            else Inr cache)"

section \<open>The configuration\<close>

record benchmark_config =
  c_size :: u64
  c_fill_factor :: double
  c_line_size :: u64
  c_verbose :: bool

text \<open>
  What the machine answers: the depth of the processing units, the cache, all CPUs, and whether an
  allocation succeeds.
\<close>

record machine =
  pu_depth :: int
  l1_covering :: "cache option"
  global_cpuset :: "nat set"
  malloc_ok :: "u64 \<Rightarrow> bool"

text \<open>The benchmarks and the counters, with their numbers, and the configuration of the benchmarks.\<close>

record selection =
  s_options :: options
  s_num_benchmarks :: u32
  s_benchmarks :: "nat option list"
  s_num_pmcs :: u32
  s_pmcs :: "string option list"
  s_config :: benchmark_config

definition select :: "environment \<Rightarrow> machine \<Rightarrow> opt list \<Rightarrow> selection outcome" where
  "select env mach opts =
     and_then (l1_attributes (pu_depth mach) (l1_covering mach)) (\<lambda>l1.
     and_then (parse_options env (l1_size l1) opts) (\<lambda>o1.
     and_then (select_benchmarks (malloc_ok mach) (o_benchmarks o1)) (\<lambda>(nb, bs).
     and_then (select_pmcs (malloc_ok mach) (o_pmcs o1)) (\<lambda>(np, pmcs).
       Inr \<lparr>s_options = o1, s_num_benchmarks = nb, s_benchmarks = bs, s_num_pmcs = np, s_pmcs = pmcs,
         s_config = \<lparr>c_size = o_size o1, c_fill_factor = o_fill o1, c_line_size = ucast (l1_linesize l1), c_verbose = True\<rparr>\<rparr>))))"

text \<open>
  The initialisation of the benchmarks, with the options of the program or with tuned ones; with
  \<open>--tune\<close> the program ends here. \<open>None\<close>: the tuning does not come to its end.
\<close>

datatype 'e ready = Ready 'e | Tuned 'e

definition prepare_benchmarks ::
  "'e clock \<Rightarrow> 'a \<Rightarrow> (benchmark_config \<Rightarrow> string list \<Rightarrow> 'e \<Rightarrow> 'e) \<Rightarrow> selection \<Rightarrow> ('a, 'e) benchmark_t list \<Rightarrow>
    string list \<Rightarrow> 'e \<Rightarrow> 'e ready outcome option"
where
  "prepare_benchmarks clk null init_benchmarks sel bs argv e =
     (let config = s_config sel; time = o_time (s_options sel)
      in if o_tune (s_options sel) then
           map_option (\<lambda>r. and_then r (\<lambda>(_, e1). Inr (Tuned e1)))
             (tune_benchmarks_time clk null (init_benchmarks config) bs [''''] time e)
         else if o_auto_tune (s_options sel) then
           map_option (\<lambda>r. and_then r (\<lambda>(argv1, e1). Inr (Ready (init_benchmarks (config\<lparr>c_verbose := False\<rparr>) argv1 e1))))
             (tune_benchmarks_time clk null (init_benchmarks config) bs argv time e)
         else Some (Inr (Ready (init_benchmarks config argv e))))"

text \<open>The sets of CPUs, and then the workers.\<close>

definition start_workers ::
  "topology \<Rightarrow> system \<Rightarrow> machine \<Rightarrow> selection \<Rightarrow> (nat set \<times> nat set \<times> ('w arg list \<times> nat set) option) outcome"
where
  "start_workers topo sys mach sel =
     (let o1 = s_options sel
      in and_then (check_cpusets (o_policy o1) (global_cpuset mach) (o_cpuset1 o1) (o_cpuset2 o1)) (\<lambda>(set1, set2, runset).
         and_then (spawn_workers topo sys runset (o_use_hyperthreads o1) (o_do_binding o1)) (\<lambda>workers.
           Inr (set1, set2, workers))))"

section \<open>Properties\<close>

definition usable :: "double \<Rightarrow> bool" where
  "usable x \<longleftrightarrow> (\<exists>q \<ge> 0. x = Finite q)"

lemma usable_Finite [simp]: "usable (Finite q) \<longleftrightarrow> 0 \<le> q"
  by (simp add: usable_def)

definition options_ok :: "options \<Rightarrow> bool" where
  "options_ok o1 \<longleftrightarrow> o_policy o1 \<noteq> NR_POLICIES \<and> usable (o_fill o1) \<and> usable (o_time o1) \<and>
     (\<forall>s. o_benchmarks o1 = Some s \<or> o_pmcs o1 = Some s \<longrightarrow> Suc (count_list s (CHR '','')) < 2 ^ 32)"

definition short_option :: "opt \<Rightarrow> bool" where
  "short_option x \<longleftrightarrow> (\<forall>c s. x = Opt c s \<longrightarrow> Suc (count_list s (CHR '','')) < 2 ^ 32)"

lemma parse_double_usable: "parse_double env s True = Inr x \<Longrightarrow> usable x"
  by (cases x) (auto simp: parse_double_def usable_def isnan_def isinf_def split: prod.splits if_splits)

lemma options_ok_update:
  assumes "options_ok o1"
  shows "p \<noteq> NR_POLICIES \<Longrightarrow> options_ok (o1\<lparr>o_policy := p\<rparr>)" "usable x \<Longrightarrow> options_ok (o1\<lparr>o_fill := x\<rparr>)"
    "usable x \<Longrightarrow> options_ok (o1\<lparr>o_time := x\<rparr>)" "options_ok (o1\<lparr>o_iterations := i\<rparr>)" "options_ok (o1\<lparr>o_size := z\<rparr>)"
    "options_ok (o1\<lparr>o_output := f\<rparr>)" "options_ok (set_flag g o1)"
    "options_ok (o1\<lparr>o_cpuset1 := c\<rparr>)" "options_ok (o1\<lparr>o_cpuset2 := c\<rparr>)"
    "Suc (count_list s (CHR '','')) < 2 ^ 32 \<Longrightarrow> options_ok (o1\<lparr>o_benchmarks := Some s\<rparr>)"
    "Suc (count_list s (CHR '','')) < 2 ^ 32 \<Longrightarrow> options_ok (o1\<lparr>o_pmcs := Some s\<rparr>)"
  using assms by (simp_all add: options_ok_def) (cases g; simp)

lemma parse_policy_real: "parse_policy s = Inr p \<Longrightarrow> p \<noteq> NR_POLICIES"
  by (auto simp: parse_policy_def split: if_splits)

lemma handle_char_ok:
  assumes "handle_char env c s o1 = Inr o2" and "options_ok o1" and "Suc (count_list s (CHR '','')) < 2 ^ 32"
  shows "options_ok o2"
proof -
  note ok = options_ok_update [OF assms(2)] parse_double_usable parse_policy_real
    options_ok_update(10,11) [OF assms(2,3)]
  show ?thesis
    using assms(1,2) unfolding handle_char_def by (auto simp: and_then_Inr_iff ok split: if_split_asm)
qed

lemma handle_option_ok:
  assumes "handle_option env x o1 = Inr o2" and "options_ok o1" and "short_option x"
  shows "options_ok o2"
proof (cases x)
  case (Opt c s)
  with assms show ?thesis by (auto simp: short_option_def intro: handle_char_ok)
next
  case (Opt_flag f)
  with assms show ?thesis by (auto simp: options_ok_update)
qed (use assms in \<open>auto simp: options_ok_update split: option.splits\<close>)

lemma parse_options_ok:
  assumes "parse_options env n opts = Inr o1" and "\<forall>x \<in> set opts. short_option x"
  shows "options_ok o1"
  using assms(1) unfolding parse_options_def
proof (rule fold_res_inv)
  show "options_ok (default_options n)" by (simp add: options_ok_def default_options_def)
qed (use assms(2) in \<open>auto intro: handle_option_ok\<close>)

lemma get_benchmark_name_bound: "get_benchmark_name nm = Some b \<Longrightarrow> b < 12"
  unfolding get_benchmark_name_def unat_number_benchmarks find_Some_iff by auto

lemma length_registry: "length registry = 12"
  by (simp add: registry_def)

definition selection_ok :: "selection \<Rightarrow> bool" where
  "selection_ok sel \<longleftrightarrow> options_ok (s_options sel) \<and>
     unat (s_num_benchmarks sel) \<le> length (s_benchmarks sel) \<and>
     (\<forall>i < unat (s_num_benchmarks sel). \<exists>b < length registry. s_benchmarks sel ! i = Some b) \<and>
     length (s_pmcs sel) = unat (s_num_pmcs sel)"

lemma select_benchmarks_ok:
  assumes "select_benchmarks (malloc_ok mach) (o_benchmarks o1) = Inr (nb, bs)" and "options_ok o1"
  shows "unat nb \<le> length bs \<and> (\<forall>i < unat nb. \<exists>b < length registry. bs ! i = Some b)"
proof -
  let ?sel = "case o_benchmarks o1 of None \<Rightarrow> [0..<12] | Some s \<Rightarrow> List.map_filter get_benchmark_name (strtok (CHR '','') s)"
  have b: "\<forall>x \<in> set ?sel. x < 12"
    by (auto simp: List.map_filter_def split: option.splits dest: get_benchmark_name_bound)
  have "select_benchmarks (\<lambda>_. True) (o_benchmarks o1) = Inr (nb, bs)"
    using assms(1) by (auto simp: select_benchmarks_def Let_def split: if_splits)
  moreover have "\<forall>s. o_benchmarks o1 = Some s \<longrightarrow> Suc (count_list s (CHR '','')) < 2 ^ 32"
    using assms(2) by (simp add: options_ok_def)
  ultimately have r: "unat nb = length ?sel" "length ?sel \<le> length bs" "take (length ?sel) bs = map Some ?sel"
    using select_benchmarks_eq [of "\<lambda>_. True" "o_benchmarks o1" ?sel] by auto
  have "\<exists>b < length registry. bs ! i = Some b" if i: "i < unat nb" for i
  proof -
    have i: "i < length ?sel" using i r(1) by simp
    have "take (length ?sel) bs ! i = map Some ?sel ! i" by (simp only: r(3))
    then have "bs ! i = Some (?sel ! i)" unfolding nth_take [OF i] nth_map [OF i] .
    moreover have "?sel ! i < length registry" unfolding length_registry by (rule b [rule_format, OF nth_mem [OF i]])
    ultimately show ?thesis by blast
  qed
  moreover have "unat nb \<le> length bs" using r(1,2) by (rule ord_eq_le_trans)
  ultimately show ?thesis by blast
qed

lemma select_pmcs_ok:
  assumes "select_pmcs (malloc_ok mach) (o_pmcs o1) = Inr (np, pmcs)" and "options_ok o1"
  shows "length pmcs = unat np"
proof (cases "o_pmcs o1 = None \<or> o_pmcs o1 = Some []")
  case True
  then show ?thesis using assms(1) by (auto simp: select_pmcs_def count_chars_def)
next
  case False
  then obtain s where s: "o_pmcs o1 = Some s" "s \<noteq> []" by (cases "o_pmcs o1") auto
  have "select_pmcs (\<lambda>_. True) (Some s) = Inr (np, pmcs)"
    using assms(1) s by (auto simp: select_pmcs_def Let_def split: if_splits)
  moreover have c: "Suc (count_list s (CHR '','')) < 2 ^ 32" using assms(2) s by (simp add: options_ok_def)
  ultimately show ?thesis
    using select_pmcs_eq [OF _ s(2) c refl, of "\<lambda>_. True"] length_strtok_le [of "CHR '',''" s] unat_of_nat32 [OF c] by auto
qed

text \<open>C7. Whatever the options, the selection that the program goes on with is well formed: the policy is
one of the three, the fill factor and the time are numbers and not negative, every benchmark that will
be run is one of the registry, and there is an element for each counter.\<close>

theorem select_well_formed:
  assumes "select env mach opts = Inr sel" and "\<forall>x \<in> set opts. short_option x"
  shows "selection_ok sel"
proof -
  have "\<exists>n. parse_options env n opts = Inr (s_options sel)"
    and "select_benchmarks (malloc_ok mach) (o_benchmarks (s_options sel)) = Inr (s_num_benchmarks sel, s_benchmarks sel)"
    and "select_pmcs (malloc_ok mach) (o_pmcs (s_options sel)) = Inr (s_num_pmcs sel, s_pmcs sel)"
    using assms(1) by (auto simp: select_def and_then_Inr_iff)
  with parse_options_ok [OF _ assms(2)] select_benchmarks_ok select_pmcs_ok show ?thesis
    unfolding selection_ok_def by blast
qed

definition demo_environment :: environment where
  "demo_environment =
     \<lparr>list_sscanf = (\<lambda>_. None), stat_errno = (\<lambda>_. Some ENOENT), fopen_w = (\<lambda>_. True), strtod = (\<lambda>_. (NaN, False))\<rparr>"

definition demo_machine :: machine where
  "demo_machine =
     \<lparr>pu_depth = 3, l1_covering = Some \<lparr>l1_type = True, l1_depth = 1, l1_size = 32768, l1_linesize = 64\<rparr>,
      global_cpuset = {0, 1, 2, 3}, malloc_ok = (\<lambda>_. True)\<rparr>"

theorem select_well_formed_witness:
  "\<exists>sel. select demo_environment demo_machine [Opt (CHR ''p'') ''pair'', Opt (CHR ''m'') ''a,b''] = Inr sel \<and>
    selection_ok sel \<and> o_policy (s_options sel) = PAIR"
proof -
  let ?opts = "[Opt (CHR ''p'') ''pair'', Opt (CHR ''m'') ''a,b'']"
  obtain bs where b: "select_benchmarks (\<lambda>_. True) None = Inr (number_benchmarks, bs)"
    using default_loop_all by (auto simp: select_benchmarks_def unat_number_benchmarks)
  have "\<exists>sel. select demo_environment demo_machine ?opts = Inr sel \<and> o_policy (s_options sel) = PAIR"
    using b select_pmcs_eq [of "\<lambda>_. True" "''a,b''"]
    by (simp add: select_def demo_machine_def l1_attributes_def parse_options_def handle_char_def parse_policy_def default_options_def)
  moreover have "\<forall>x \<in> set ?opts. short_option x" by (simp add: short_option_def)
  ultimately show ?thesis using select_well_formed by blast
qed

text \<open>C6. The workers that the program starts, when it gets that far: they are on the CPUs of the two sets,
which are CPUs of the machine, one worker for each; and the second set is empty unless the policy is
\<open>pair\<close>. But for \<open>pair\<close> without \<open>--cpuset-1\<close> the first set is the whole machine, and every run of two
benchmarks on these workers fails its assertion that the sets have no CPU in common.\<close>

theorem start_workers_result:
  fixes ths :: "'w arg list"
  assumes "start_workers topo sys mach sel = Inr (set1, set2, Some (ths, cpus))"
    and "topology_ok topo (spawn_type (o_use_hyperthreads (s_options sel)))" and "system_ok sys"
    and "finite (global_cpuset mach)" and "global_cpuset mach \<subseteq> {..<2 ^ 32}"
  shows "cpus = set1 \<union> set2 \<and> cpus \<subseteq> global_cpuset mach \<and> length ths = card cpus \<and>
    (\<lambda>a. unat (a_cpu a)) ` set ths = cpus \<and> (o_policy (s_options sel) = PAIR \<longleftrightarrow> set2 \<noteq> {}) \<and>
    (o_policy (s_options sel) = PAIR \<and> o_cpuset1 (s_options sel) = {} \<longrightarrow> check_pair set1 set2 cpus = Inl AssertFailed)"
proof -
  let ?o = "s_options sel" and ?type = "spawn_type (o_use_hyperthreads (s_options sel))"
  obtain runset where c: "check_cpusets (o_policy ?o) (global_cpuset mach) (o_cpuset1 ?o) (o_cpuset2 ?o) = Inr (set1, set2, runset)"
    and sp: "spawn_workers topo sys runset (o_use_hyperthreads ?o) (o_do_binding ?o) = Inr (Some (ths, cpus))"
    using assms(1) by (auto simp: start_workers_def Let_def and_then_Inr_iff)
  note r = check_cpusets_result [rule_format, OF c]
  have sub: "runset \<subseteq> global_cpuset mach" using r by blast
  have fin: "finite runset" "runset \<subseteq> {..<2 ^ 32}"
    using sub assms(4,5) by (blast intro: finite_subset)+
  let ?objs = "picked topo ?type runset (unat (nbobjs topo ?type))"
  note all = spawn_workers_all [where 'a = 'w, OF assms(2,3) fin, of "o_do_binding ?o"]
  have t: "length ?objs = card runset" "ths = the_threads topo sys ?type (o_do_binding ?o) ?objs" "cpus = runset"
    using all sp by (auto split: if_splits)
  have len: "length ths = card runset" using t(1,2) by simp
  have "distinct (map a_cpu ths)" using all t(2) by simp
  then have "distinct (map unat (map a_cpu ths))"
    unfolding distinct_map [of unat] by (simp add: inj_on_def word_unat_eq_iff)
  from distinct_card [OF this] have "card ((\<lambda>a. unat (a_cpu a)) ` set ths) = card runset"
    using len by (simp add: image_image)
  moreover have "(\<lambda>a. unat (a_cpu a)) ` set ths \<subseteq> runset"
    using all unfolding t(2) [symmetric] by (auto simp: in_set_conv_nth)
  ultimately have "(\<lambda>a. unat (a_cpu a)) ` set ths = runset" using fin(1) by (simp add: card_subset_eq)
  with r sub len t(3) show ?thesis by blast
qed

theorem start_workers_result_witness:
  "\<exists>ths :: unit arg list. start_workers demo_topology demo_system demo_machine
      \<lparr>s_options = (default_options 0)\<lparr>o_cpuset1 := {2, 3}\<rparr>, s_num_benchmarks = 0, s_benchmarks = [], s_num_pmcs = 0, s_pmcs = [],
       s_config = \<lparr>c_size = 0, c_fill_factor = NaN, c_line_size = 64, c_verbose = True\<rparr>\<rparr> =
      Inr ({2, 3}, {}, Some (ths, {2, 3})) \<and>
    length ths = 2 \<and> (\<lambda>a. unat (a_cpu a)) ` set ths = {2, 3}"
proof (intro exI conjI)
  let ?ths = "demo_threads :: unit arg list"
  let ?sel = "\<lparr>s_options = (default_options 0)\<lparr>o_cpuset1 := {2, 3}\<rparr>, s_num_benchmarks = 0, s_benchmarks = [], s_num_pmcs = 0,
       s_pmcs = [], s_config = \<lparr>c_size = 0, c_fill_factor = NaN, c_line_size = 64, c_verbose = True\<rparr>\<rparr>"
  show s: "start_workers demo_topology demo_system demo_machine ?sel = Inr ({2, 3}, {}, Some (?ths, {2, 3}))"
    by (simp add: start_workers_def check_cpusets_def default_options_def demo_machine_def demo_spawn less_eq_policy_def Let_def)
  have "length ?ths = card {2, 3 :: nat} \<and> (\<lambda>a. unat (a_cpu a)) ` set ?ths = {2, 3}"
    using start_workers_result [OF s] demo_topology_ok by (auto simp: demo_machine_def)
  then show "length ?ths = 2" "(\<lambda>a. unat (a_cpu a)) ` set ?ths = {2, 3}" by simp_all
qed

end
