(* ===== verification/Sizing.thy ===== *)
theory Sizing
  imports Startup
begin

text \<open>
  The initialisation of the benchmarks and the size of their data (\<open>init_benchmarks\<close> and \<open>tune_size\<close>
  in \<open>src/benchmarks/benchmark.c\<close>): as many elements as fill the given part of the cache, in whole
  cache lines. \<open>pow\<close> of the C library is the parameter \<open>cpow\<close>.
\<close>

section \<open>The code\<close>

text \<open>The functions \<open>init\<close> of the benchmarks in the order of the registry, \<open>None\<close> a null pointer.\<close>

definition init_benchmarks ::
  "(benchmark_config \<Rightarrow> string list \<Rightarrow> 'e \<Rightarrow> 'e) option list \<Rightarrow> benchmark_config \<Rightarrow> string list \<Rightarrow> 'e \<Rightarrow> 'e"
where
  "init_benchmarks inits config argv e =
     fold (\<lambda>i e. case inits ! i of None \<Rightarrow> e | Some init \<Rightarrow> init config argv e) [0..<unat (number_benchmarks - 4)] e"

text \<open>The four benchmarks that are left out are the kernels of STREAM, which its own \<open>init\<close> has seen to.\<close>

lemma init_benchmarks_reached:
  "map (\<lambda>i. registry ! i) [0..<unat (number_benchmarks - 4)] =
    filter (\<lambda>nm. take 7 nm \<noteq> ''STREAM_'') registry"
  by (simp add: number_benchmarks_def registry_def upt_rec)

text \<open>
  \<open>pwr\<close> (\<open>power\<close>) and \<open>datasets\<close> are \<open>uint16_t\<close>. The quotient of the elements and the elements per line is
  computed in 64 bits, the number of lines and of the bytes is cut to 32.
\<close>

definition size_elems ::
  "(double \<Rightarrow> double \<Rightarrow> double) \<Rightarrow> benchmark_config \<Rightarrow> u32 \<Rightarrow> u16 \<Rightarrow> u16 \<Rightarrow> u32 outcome"
where
  "size_elems cpow config data_size datasets pwr =
     (let cache_size = dmul (double_of_u64 (c_size config)) (c_fill_factor config);
          elems_per_set = ddiv (ddiv cache_size (Finite (of_nat (unat datasets)))) (double_of_u32 data_size);
          elems_per_dim = cpow elems_per_set (ddiv (Finite 1) (Finite (of_nat (unat pwr))))
      in and_then (to_unsigned elems_per_dim) (\<lambda>m.
           if data_size = 0 then Inl Undefined
           else
             let per_line = c_line_size config div ucast data_size
             in if per_line = 0 then Inl Undefined
                else
                  let num_lines = ucast (ucast m div per_line) :: u32;
                      bytes = ucast (ucast num_lines * c_line_size config) :: u32
                  in Inr (bytes div data_size)))"

text \<open>With \<open>verbose\<close> the bytes of all datasets are reported, as an \<open>unsigned\<close>.\<close>

definition tune_size ::
  "(double \<Rightarrow> double \<Rightarrow> double) \<Rightarrow> benchmark_config \<Rightarrow> u32 \<Rightarrow> u16 \<Rightarrow> u16 \<Rightarrow> u32 outcome"
where
  "tune_size cpow config data_size datasets pwr =
     and_then (size_elems cpow config data_size datasets pwr) (\<lambda>n.
       let bytes = dmul (dmul (cpow (double_of_u32 n) (Finite (of_nat (unat pwr)))) (double_of_u32 data_size))
             (Finite (of_nat (unat datasets)))
       in if c_verbose config then and_then (to_unsigned bytes) (\<lambda>_. Inr n) else Inr n)"

section \<open>The number of elements\<close>

text \<open>Division by a small number, which is exact.\<close>

lemma ddiv_exact_near:
  assumes "near k x y" and "k \<le> 3" and "0 < c" and "mid_range (x / c)"
  shows "\<exists>z. ddiv (Finite y) (Finite c) = Finite z \<and> near (Suc k) (x / c) z"
proof -
  have n: "near k (x / c) (y / c)" using near_times [OF assms(1), of "1 / c"] assms(3) by simp
  have k: "k \<le> 4" using assms(2) by simp
  have "in_range (y / c)" by (rule in_range_mid [OF assms(4) near_range [OF n k mid_range_pos [OF assms(4)]]])
  from fl_near [OF n this] show ?thesis using assms(3) by simp
qed

lemma near4:
  assumes "near 4 x z" and "0 < x"
  shows "x * (1 - 1 / 2 ^ 50) \<le> z" and "z \<le> x * (1 + 1 / 2 ^ 50)"
proof -
  have e: "1 - 1 / 2 ^ 50 \<le> (1 - eps) ^ 4" "(1 + eps) ^ 4 \<le> 1 + 1 / 2 ^ 50"
    by (simp_all add: eps_def power_divide)
  have "x * (1 - 1 / 2 ^ 50) \<le> x * (1 - eps) ^ 4" by (rule mult_left_mono [OF e(1)]) (use assms(2) in simp)
  with assms(1) show "x * (1 - 1 / 2 ^ 50) \<le> z" unfolding near_def by (blast intro: order_trans)
  have "x * (1 + eps) ^ 4 \<le> x * (1 + 1 / 2 ^ 50)" by (rule mult_left_mono [OF e(2)]) (use assms(2) in simp)
  with assms(1) show "z \<le> x * (1 + 1 / 2 ^ 50)" unfolding near_def by (blast intro: order_trans)
qed

lemma fl_one: "fl 1 = Finite 1"
  by (simp add: fl_def quantum_def expo_def round_even_def Let_def power_int_minus)

definition exact_elems :: "u64 \<Rightarrow> rat \<Rightarrow> u16 \<Rightarrow> u32 \<Rightarrow> rat" where
  "exact_elems sz F datasets data_size =
     of_nat (unat sz) * F / of_nat (unat datasets) / of_nat (unat data_size)"

lemma elems_near:
  assumes "0 < sz" and "0 < datasets" and "0 < data_size" and "1 / 2 ^ 20 \<le> F" and "F \<le> 2 ^ 20"
  shows "\<exists>z. ddiv (ddiv (dmul (double_of_u64 sz) (Finite F)) (Finite (of_nat (unat datasets)))) (double_of_u32 data_size) = Finite z \<and>
    exact_elems sz F datasets data_size * (1 - 1 / 2 ^ 50) \<le> z \<and> z \<le> exact_elems sz F datasets data_size * (1 + 1 / 2 ^ 50)"
proof -
  let ?s = "of_nat (unat sz) :: rat" and ?n = "of_nat (unat datasets) :: rat" and ?d = "of_nat (unat data_size) :: rat"
  have s: "1 \<le> ?s" "?s \<le> 2 ^ 64" and n: "1 \<le> ?n" "?n \<le> 2 ^ 16" and d: "1 \<le> ?d" "?d \<le> 2 ^ 32"
    using word_rat [OF assms(1)] word_rat [OF assms(2)] word_rat [OF assms(3)] by simp_all
  have pos: "0 < ?n" "0 < ?d" "0 < F" using n(1) d(1) less_le_trans [OF _ assms(4)] by simp_all
  have "1 * (1 / 2 ^ 20) \<le> ?s * F" using s(1) assms(4) by (intro mult_mono) simp_all
  then have x1: "1 / 2 ^ 20 \<le> ?s * F" by simp
  have "?s * F \<le> 2 ^ 64 * 2 ^ 20" using s assms(5) pos(3) by (intro mult_mono) simp_all
  then have x2: "?s * F \<le> 2 ^ 84" by simp
  have sF: "0 < ?s * F" by (rule less_le_trans [OF _ x1]) simp
  have "1 / 2 ^ 20 / 2 ^ 16 \<le> ?s * F / ?n" by (rule frac_le) (use x1 n sF pos in simp_all)
  then have y1: "1 / 2 ^ 36 \<le> ?s * F / ?n" by simp
  have "?s * F / ?n \<le> ?s * F / 1" by (rule divide_left_mono) (use n sF pos in simp_all)
  then have y2: "?s * F / ?n \<le> 2 ^ 84" using x2 by simp
  have sFn: "0 < ?s * F / ?n" using sF pos by simp
  have "1 / 2 ^ 36 / 2 ^ 32 \<le> ?s * F / ?n / ?d" by (rule frac_le) (use y1 d sFn pos in simp_all)
  then have z1: "1 / 2 ^ 68 \<le> ?s * F / ?n / ?d" by simp
  have "?s * F / ?n / ?d \<le> ?s * F / ?n / 1" by (rule divide_left_mono) (use d sFn pos in simp_all)
  then have z2: "?s * F / ?n / ?d \<le> 2 ^ 84" using y2 by simp
  have mid: "mid_range y" if "1 / 2 ^ 68 \<le> y" "y \<le> 2 ^ 84" for y
    unfolding mid_range_def
    by (intro conjI order_trans [OF _ that(1)] order_trans [OF that(2)]) (simp_all)
  have mx: "mid_range (?s * F)" by (rule mid [OF order_trans [OF _ x1] x2]) simp
  have my: "mid_range (?s * F / ?n)" by (rule mid [OF order_trans [OF _ y1] y2]) simp
  obtain a where a: "double_of_u64 sz = Finite a" "near 1 ?s a" using duration_near [OF assms(1)] by blast
  obtain b where b: "dmul (Finite a) (Finite F) = Finite b" "near 2 (?s * F) b"
    using dmul_near [OF a(2) _ pos(3) mx, unfolded Suc_1] by auto
  obtain c where c: "ddiv (Finite b) (Finite ?n) = Finite c" "near 3 (?s * F / ?n) c"
    using ddiv_exact_near [OF b(2) _ pos(1) my] by (simp del: ddiv.simps add: numeral_3_eq_3) blast
  obtain z where z: "ddiv (Finite c) (Finite ?d) = Finite z" "near (Suc 3) (?s * F / ?n / ?d) z"
    using ddiv_exact_near [OF c(2) _ pos(2) mid [OF z1 z2]] by (simp del: ddiv.simps) blast
  have "near 4 (?s * F / ?n / ?d) z" using z(2) by (simp only: numeral_eq_Suc pred_numeral_simps BitM.simps)
  moreover have "0 < ?s * F / ?n / ?d" by (rule divide_pos_pos [OF sFn pos(2)])
  ultimately show ?thesis
    using near4 unfolding exact_elems_def a(1) b(1) c(1) z(1) double_of_u32_def double.inject by blast
qed

text \<open>Whole lines, with the widths of the code.\<close>

lemma aligned_words:
  fixes d m :: u32 and L :: u64
  assumes "0 < d" and "unat d dvd unat L" and "0 < L" and "unat L < 2 ^ 32"
  shows "L div ucast d \<noteq> 0" and "unat (ucast (ucast m div (L div ucast d)) :: u32) = unat m div (unat L div unat d)"
    and "unat (ucast (ucast (ucast (ucast m div (L div ucast d)) :: u32) * L) :: u32) =
      (unat m div (unat L div unat d) * unat L) mod 2 ^ 32"
proof -
  let ?q = "unat L div unat d" and ?lines = "ucast (ucast m div (L div ucast d)) :: u32"
  have d: "0 < unat d" "0 < unat L" using assms(1,3) by (simp_all add: word_less_nat_alt)
  then have q: "0 < ?q" using dvd_imp_le [OF assms(2)] by (simp add: div_greater_zero_iff)
  have qw: "unat (L div ucast d) = ?q" by (simp add: unat_div unat_up)
  with q show "L div ucast d \<noteq> 0" by (metis unat_0 less_irrefl)
  have m: "unat m < 2 ^ 32" using unsigned_less [of m] by simp
  have le: "unat m div ?q \<le> unat m" by (rule div_le_dividend)
  have "unat (ucast m div (L div ucast d)) = unat m div ?q" by (simp only: unat_div qw unat_up)
  then have "unat ?lines = (unat m div ?q) mod 2 ^ 32" by (simp add: unsigned_ucast_eq take_bit_eq_mod)
  also have "\<dots> = unat m div ?q" by (rule mod_less [OF le_less_trans [OF le m]])
  finally show l: "unat ?lines = unat m div ?q" .
  have "unat m div ?q * unat L < 2 ^ 32 * 2 ^ 32" 
    using le_less_trans [OF le m] assms(4) by (intro mult_strict_mono) simp_all
  then have "unat (ucast ?lines * L) = unat m div ?q * unat L" by (simp add: unat_word_ariths unat_up l)
  then show "unat (ucast (ucast ?lines * L) :: u32) = (unat m div ?q * unat L) mod 2 ^ 32"
    by (simp add: unsigned_ucast_eq take_bit_eq_mod)
qed

lemma to_unsigned_floor:
  assumes "0 \<le> z" and "z < 2 ^ 32"
  shows "\<exists>m. to_unsigned (Finite z) = Inr m \<and> unat m = nat \<lfloor>z\<rfloor>"
proof -
  have "0 \<le> \<lfloor>z\<rfloor>" and "\<lfloor>z\<rfloor> < 2 ^ 32" using assms by (simp_all add: floor_less_iff)
  then have "unat (of_int \<lfloor>z\<rfloor> :: u32) = nat \<lfloor>z\<rfloor>" using unat_of_nat32 [of "nat \<lfloor>z\<rfloor>"] by (simp add: nat_less_iff)
  with assms show ?thesis by simp
qed

lemma size_elems_eq:
  assumes "\<forall>x. cpow x (Finite 1) = x"
    and "ddiv (ddiv (dmul (double_of_u64 (c_size config)) (c_fill_factor config)) (Finite (of_nat (unat datasets))))
      (double_of_u32 d) = Finite z"
    and "0 < d" and "unat d dvd unat (c_line_size config)" and "0 < c_line_size config" and "unat (c_line_size config) < 2 ^ 32"
    and "0 \<le> z"
  shows "z < 2 ^ 32 \<Longrightarrow> \<exists>n. size_elems cpow config d datasets 1 = Inr n \<and>
      unat n = (nat \<lfloor>z\<rfloor> div (unat (c_line_size config) div unat d) * unat (c_line_size config)) mod 2 ^ 32 div unat d"
    and "2 ^ 32 \<le> z \<Longrightarrow> size_elems cpow config d datasets 1 = Inl Undefined"
proof -
  have one: "cpow (Finite z) (ddiv (Finite 1) (Finite (of_nat (unat (1 :: u16))))) = Finite z"
    using assms(1) by (simp add: fl_one)
  have d0: "d \<noteq> 0" using assms(3) by auto
  note w = aligned_words [OF assms(3-6)]
  show "\<exists>n. size_elems cpow config d datasets 1 = Inr n \<and>
      unat n = (nat \<lfloor>z\<rfloor> div (unat (c_line_size config) div unat d) * unat (c_line_size config)) mod 2 ^ 32 div unat d"
    if z: "z < 2 ^ 32"
  proof -
    obtain m where m: "to_unsigned (Finite z) = Inr m" "unat m = nat \<lfloor>z\<rfloor>"
      using to_unsigned_floor [OF assms(7) z] by blast
    let ?lines = "ucast (ucast m div (c_line_size config div ucast d)) :: u32"
    have "size_elems cpow config d datasets 1 = Inr (ucast (ucast ?lines * c_line_size config) div d)"
      by (simp only: size_elems_def Let_def assms(2) one m(1) and_then.simps d0 w(1) if_False)
    moreover have "unat (ucast (ucast ?lines * c_line_size config) div d) =
        (nat \<lfloor>z\<rfloor> div (unat (c_line_size config) div unat d) * unat (c_line_size config)) mod 2 ^ 32 div unat d"
      by (simp only: unat_div w(3) m(2))
    ultimately show ?thesis by blast
  qed
  show "size_elems cpow config d datasets 1 = Inl Undefined" if "2 ^ 32 \<le> z"
    unfolding size_elems_def Let_def assms(2) one using that by simp
qed

text \<open>The report.\<close>

lemma bytes_near:
  assumes "of_nat (unat n) * of_nat (unat d) * of_nat (unat ds) * (1 + 1 / 2 ^ 50) < (2 ^ 32 :: rat)" and "0 < d" and "0 < ds"
  shows "\<exists>m. to_unsigned (dmul (dmul (double_of_u32 n) (double_of_u32 d)) (Finite (of_nat (unat (ds :: u16))))) = Inr m"
proof (cases "n = 0")
  case True
  then show ?thesis by (simp add: double_of_u32_def fl_def)
next
  case False
  let ?n = "of_nat (unat n) :: rat" and ?d = "of_nat (unat d) :: rat" and ?s = "of_nat (unat ds) :: rat"
  have "0 < n" using False by (simp add: word_neq_0_conv)
  then have n: "1 \<le> ?n" "?n \<le> 2 ^ 32" and d: "1 \<le> ?d" "?d \<le> 2 ^ 32" and s: "1 \<le> ?s" "?s \<le> 2 ^ 16"
    using word_rat [of n] word_rat [OF assms(2)] word_rat [OF assms(3)] by simp_all
  note b = scale_bounds [OF n d]
  note c = scale_bounds [OF b s]
  have pos: "0 < ?d" "0 < ?s" using d(1) s(1) by linarith+
  obtain y where y: "dmul (Finite ?n) (Finite ?d) = Finite y" "near 1 (?n * ?d) y"
    using dmul_near [OF near_exact _ pos(1) mid_range_ge1 [OF b]] by auto
  obtain w where w: "dmul (Finite y) (Finite ?s) = Finite w" "near 2 (?n * ?d * ?s) w"
    using dmul_near [OF y(2) _ pos(2) mid_range_ge1 [OF c], unfolded Suc_1] by auto
  have X: "0 < ?n * ?d * ?s" by (rule less_le_trans [OF _ c(1)]) simp
  have "(1 + eps) ^ 2 \<le> 1 + 1 / 2 ^ 50" by (simp add: eps_def power_divide)
  then have "?n * ?d * ?s * (1 + eps) ^ 2 \<le> ?n * ?d * ?s * (1 + 1 / 2 ^ 50)" by (rule mult_left_mono) (use X in simp)
  then have "w < 2 ^ 32" using w(2) assms(1) unfolding near_def by (blast intro: le_less_trans order_trans)
  moreover have "0 \<le> w" using near_range(1) [OF w(2) _ X] X by simp
  ultimately show ?thesis
    using to_unsigned_floor unfolding double_of_u32_def y(1) w(1) by blast
qed

text \<open>Whole lines, on numbers: \<open>q\<close> elements per line.\<close>

lemma whole_lines:
  fixes z :: rat
  assumes "0 < d" and "L = q * d" and "0 < q" and "0 \<le> z" and "z * of_nat d < 2 ^ 32"
    and "n = (nat \<lfloor>z\<rfloor> div q * L) mod 2 ^ 32 div d"
  shows "L dvd n * d" and "of_nat n \<le> z" and "z < of_nat (n + q)"
proof -
  let ?m = "nat \<lfloor>z\<rfloor>"
  let ?l = "?m div q"
  have m: "of_nat ?m \<le> z" "z < of_nat ?m + 1" using assms(4) by simp_all linarith
  have lq: "?l * q \<le> ?m" "?m < ?l * q + q"
    using div_mult_mod_eq [of ?m q] mod_less_divisor [OF assms(3), of ?m] by linarith+
  have "(of_nat (?l * q * d) :: rat) \<le> of_nat (?m * d)" using lq(1) by (intro of_nat_mono mult_le_mono1)
  also have "\<dots> \<le> z * of_nat d" using m(1) by (simp add: mult_right_mono)
  finally have "(of_nat (?l * q * d) :: rat) < of_nat (2 ^ 32)" using assms(5) by simp
  then have "?l * L < 2 ^ 32" unfolding assms(2) of_nat_less_iff by (simp only: mult.assoc)
  then have n: "n = ?l * q" unfolding assms(6) assms(2) using assms(1) by (simp add: mult.assoc [symmetric])
  show "L dvd n * d" by (simp add: n assms(2) mult.assoc)
  have "(of_nat n :: rat) \<le> of_nat ?m" unfolding n by (rule of_nat_mono [OF lq(1)])
  with m(1) show "of_nat n \<le> z" by (rule order_trans [rotated])
  have "(of_nat ?m + 1 :: rat) = of_nat (Suc ?m)" by simp
  also have "\<dots> \<le> of_nat (n + q)" unfolding n by (rule of_nat_mono) (use lq(2) in simp)
  finally show "z < of_nat (n + q)" by (rule less_le_trans [OF m(2)])
qed

text \<open>C12. The size that \<open>tune_size\<close> finds for one-dimensional data. While all datasets together stay a
little below 4 GiB, they are whole cache lines, and the elements are those that fit into the given
part of the cache, up to less than one line and a relative rounding error of 2^-50. The number of
bytes of one dataset is cut to 32 bits, so that a dataset never gets 4 GiB, whatever was asked for; and
when it would have 2^32 elements the conversion of their number is undefined.\<close>

theorem tune_size_result:
  assumes "\<forall>x. cpow x (Finite 1) = x" and "c_fill_factor config = Finite F" and "1 / 2 ^ 20 \<le> F" and "F \<le> 2 ^ 20"
    and "0 < c_size config" and "0 < datasets" and "0 < d"
    and "unat d dvd unat (c_line_size config)" and "0 < c_line_size config" and "unat (c_line_size config) < 2 ^ 32"
    and "E = exact_elems (c_size config) F datasets d"
  shows "(of_nat (unat (c_size config)) * F * (1 + 1 / 2 ^ 48) < 2 ^ 32 \<longrightarrow> (\<exists>n. tune_size cpow config d datasets 1 = Inr n \<and>
       unat (c_line_size config) dvd unat n * unat d \<and> of_nat (unat n) \<le> E * (1 + 1 / 2 ^ 50) \<and>
       E * (1 - 1 / 2 ^ 50) < of_nat (unat n + unat (c_line_size config) div unat d))) \<and>
    (\<forall>n. tune_size cpow config d datasets 1 = Inr n \<longrightarrow> unat n * unat d < 2 ^ 32) \<and>
    (2 ^ 32 \<le> E * (1 - 1 / 2 ^ 50) \<longrightarrow> tune_size cpow config d datasets 1 = Inl Undefined)"
proof -
  let ?S = "of_nat (unat (c_size config)) :: rat" and ?d = "of_nat (unat d) :: rat" and ?s = "of_nat (unat datasets) :: rat"
  obtain z where z: "ddiv (ddiv (dmul (double_of_u64 (c_size config)) (c_fill_factor config)) (Finite ?s)) (double_of_u32 d) = Finite z"
    "E * (1 - 1 / 2 ^ 50) \<le> z" "z \<le> E * (1 + 1 / 2 ^ 50)"
    using elems_near [OF assms(5-7,3,4)] unfolding assms(2,11) by blast
  have d: "1 \<le> ?d" and s: "1 \<le> ?s" using word_rat(1) [OF assms(7)] word_rat(1) [OF assms(6)] by simp_all
  have "0 \<le> F" by (rule order_trans [OF _ assms(3)]) simp
  then have sf: "0 \<le> ?S * F" by (rule mult_nonneg_nonneg [OF of_nat_0_le_iff])
  then have E: "E * ?d * ?s = ?S * F" "0 \<le> E" using d s by (simp_all add: assms(11) exact_elems_def)
  have "0 \<le> E * (1 - 1 / 2 ^ 50)" using E(2) by simp
  then have z0: "0 \<le> z" using z(2) by (rule order_trans)
  note eq = size_elems_eq [where cpow = cpow and config = config, OF assms(1) z(1) assms(7-10) z0]
  let ?L = "unat (c_line_size config)"
  let ?q = "?L div unat d"
  have dn: "0 < unat d" and L: "?L = ?q * unat d" using assms(7,8) by (simp_all add: word_less_nat_alt)
  have q: "0 < ?q" using L assms(9) by (simp add: word_less_nat_alt) (metis mult_is_0 neq0_conv)
  have elems: "size_elems cpow config d datasets 1 = Inr n" if "tune_size cpow config d datasets 1 = Inr n" for n
    using that by (auto simp: tune_size_def and_then_Inr_iff Let_def split: if_splits)
  have "\<exists>n. tune_size cpow config d datasets 1 = Inr n \<and> ?L dvd unat n * unat d \<and> of_nat (unat n) \<le> E * (1 + 1 / 2 ^ 50) \<and>
      E * (1 - 1 / 2 ^ 50) < of_nat (unat n + ?q)" if small: "?S * F * (1 + 1 / 2 ^ 48) < 2 ^ 32"
  proof -
    have zd: "z * ?d * ?s \<le> ?S * F * (1 + 1 / 2 ^ 50)"
    proof -
      have "z * (?d * ?s) \<le> E * (1 + 1 / 2 ^ 50) * (?d * ?s)" by (rule mult_right_mono [OF z(3)]) (use d s in simp)
      also have "E * (1 + 1 / 2 ^ 50) * (?d * ?s) = E * ?d * ?s * (1 + 1 / 2 ^ 50)" by (simp only: mult_ac)
      finally show ?thesis unfolding E(1) mult.assoc [of z] .
    qed
    have "?S * F * (1 + 1 / 2 ^ 50) \<le> ?S * F * (1 + 1 / 2 ^ 48)" by (rule mult_left_mono [OF _ sf]) simp
    with zd small have zds: "z * ?d * ?s < 2 ^ 32" by linarith
    have "z * ?d * 1 \<le> z * ?d * ?s" using z0 d s by (intro mult_left_mono) simp_all
    with zds have zd1: "z * ?d < 2 ^ 32" by simp
    have "z * 1 \<le> z * ?d" using z0 d by (intro mult_left_mono) simp_all
    with zd1 have "z < 2 ^ 32" by simp
    then obtain n where n: "size_elems cpow config d datasets 1 = Inr n"
      "unat n = (nat \<lfloor>z\<rfloor> div ?q * ?L) mod 2 ^ 32 div unat d" using eq(1) by blast
    note w = whole_lines [OF dn L q z0 zd1 n(2)]
    have "of_nat (unat n) * ?d * ?s \<le> z * ?d * ?s" using w(2) d s by (intro mult_right_mono) simp_all
    then have "of_nat (unat n) * ?d * ?s \<le> ?S * F * (1 + 1 / 2 ^ 50)" using zd by (rule order_trans)
    then have "of_nat (unat n) * ?d * ?s * (1 + 1 / 2 ^ 50) \<le> ?S * F * (1 + 1 / 2 ^ 50) * (1 + 1 / 2 ^ 50)"
      by (rule mult_right_mono) simp
    also have "\<dots> = ?S * F * ((1 + 1 / 2 ^ 50) * (1 + 1 / 2 ^ 50))" by (rule mult.assoc)
    also have "\<dots> \<le> ?S * F * (1 + 1 / 2 ^ 48)" by (rule mult_left_mono [OF _ sf]) simp
    finally have "of_nat (unat n) * ?d * ?s * (1 + 1 / 2 ^ 50) < 2 ^ 32" using small by (rule le_less_trans)
    from bytes_near [OF this assms(7,6)] assms(1) n(1)
    have "tune_size cpow config d datasets 1 = Inr n" by (auto simp: tune_size_def Let_def)
    moreover have "of_nat (unat n) \<le> E * (1 + 1 / 2 ^ 50)" using w(2) z(3) by (rule order_trans)
    moreover have "E * (1 - 1 / 2 ^ 50) < of_nat (unat n + ?q)" using z(2) w(3) by (rule le_less_trans)
    ultimately show ?thesis using w(1) by blast
  qed
  moreover have "unat n * unat d < 2 ^ 32" if n: "tune_size cpow config d datasets 1 = Inr n" for n
  proof -
    have "z < 2 ^ 32" using eq(2) elems [OF n] by (cases "z < 2 ^ 32") simp_all
    then have "unat n = (nat \<lfloor>z\<rfloor> div ?q * ?L) mod 2 ^ 32 div unat d" using eq(1) elems [OF n] by auto
    then have "unat n * unat d \<le> (nat \<lfloor>z\<rfloor> div ?q * ?L) mod 2 ^ 32" by (simp only: div_times_less_eq_dividend)
    also have "\<dots> < 2 ^ 32" by simp
    finally show ?thesis .
  qed
  moreover have "tune_size cpow config d datasets 1 = Inl Undefined" if "2 ^ 32 \<le> E * (1 - 1 / 2 ^ 50)"
    using eq(2) [OF order_trans [OF that z(2)]] by (simp add: tune_size_def)
  ultimately show ?thesis by blast
qed

text \<open>Three vectors of \<open>double\<close> in three quarters of 32 KiB.\<close>

theorem tune_size_result_witness:
  "\<exists>n. tune_size (\<lambda>x _. x) \<lparr>c_size = 32768, c_fill_factor = Finite (3 / 4), c_line_size = 64, c_verbose = True\<rparr> 8 3 1 = Inr n \<and>
    8 dvd unat n \<and> unat n \<le> 1024 \<and> 1016 \<le> unat n"
proof -
  let ?c = "\<lparr>c_size = 32768, c_fill_factor = Finite (3 / 4), c_line_size = 64, c_verbose = True\<rparr>"
  have E: "exact_elems 32768 (3 / 4) 3 8 = 1024" by (simp add: exact_elems_def)
  have r: "\<exists>n. tune_size (\<lambda>x _. x) ?c 8 3 1 = Inr n \<and> 64 dvd unat n * 8 \<and>
      of_nat (unat n) \<le> (1024 :: rat) * (1 + 1 / 2 ^ 50) \<and> (1024 :: rat) * (1 - 1 / 2 ^ 50) < of_nat (unat n + 8)"
    using tune_size_result [of "\<lambda>x _. x" ?c "3 / 4" 3 8 1024] E by simp
  then obtain n where n: "tune_size (\<lambda>x _. x) ?c 8 3 1 = Inr n" "64 dvd unat n * 8"
    "of_nat (unat n) \<le> (1024 :: rat) * (1 + 1 / 2 ^ 50)" "(1024 :: rat) * (1 - 1 / 2 ^ 50) < of_nat (unat n + 8)" by blast
  have "(of_nat (unat n) :: rat) < of_nat 1025" by (rule le_less_trans [OF n(3)]) simp
  then have "unat n \<le> 1024" unfolding of_nat_less_iff by simp
  moreover have "(of_nat 1023 :: rat) < of_nat (unat n + 8)" by (rule less_trans [OF _ n(4)]) simp
  then have "1016 \<le> unat n" unfolding of_nat_less_iff by simp
  moreover have "8 dvd unat n" using n(2) by presburger
  ultimately show ?thesis using n(1) by blast
qed

end
