(* ===== verification/Shutdown.thy ===== *)
theory Shutdown
  imports Threads Arch_X86
begin

text \<open>
  The end of the workers (\<open>stop_workers\<close> in \<open>src/main.cc\<close>): each worker but the dirigent gets an item
  whose call is \<open>stop_thread\<close>, which clears the flag \<open>run\<close> of the worker's own \<open>struct arg\<close>, and is then
  joined. All the items are for the one step that \<open>init_step (1)\<close> allocates, so every worker comes to the
  same barrier. The main thread and the workers run interleaved, from a state in which the workers are in
  the loop of \<open>worker\<close>.
\<close>

section \<open>The item\<close>

text \<open>
  The world of the item is the one of the thread, and beside it the flags \<open>run\<close> of the threads, which the
  functions of \<open>arch.h\<close> do not touch.
\<close>

definition beside :: "'e outcome \<Rightarrow> 'f \<Rightarrow> ('e \<times> 'f) outcome" where
  "beside m f = and_then m (\<lambda>e. Inr (e, f))"

definition lift_arch :: "('e, 'p) arch \<Rightarrow> ('e \<times> 'f, 'p) arch" where
  "lift_arch arch =
     \<lparr>arch_pmu_init = (\<lambda>names n cp (e, f). and_then (arch_pmu_init arch names n cp e) (\<lambda>(p, e1). Inr (p, e1, f))),
      arch_pmu_free = (\<lambda>p (e, f). beside (arch_pmu_free arch p e) f),
      arch_pmu_begin = (\<lambda>p k (d, e, f). and_then (arch_pmu_begin arch p k (d, e)) (\<lambda>(d1, e1). Inr (d1, e1, f))),
      arch_pmu_end = (\<lambda>p k (d, e, f). and_then (arch_pmu_end arch p k (d, e)) (\<lambda>(d1, e1). Inr (d1, e1, f))),
      arch_timestamp_begin = (\<lambda>(e, f). case arch_timestamp_begin arch e of (t, e1) \<Rightarrow> (t, e1, f)),
      arch_timestamp_end = (\<lambda>(e, f). case arch_timestamp_end arch e of (t, e1) \<Rightarrow> (t, e1, f))\<rparr>"

text \<open>
  The argument points to the \<open>struct arg\<close> of a thread, here its number, or is a null pointer, which
  \<open>stop_thread\<close> is not called with.
\<close>

fun stop_thread :: "nat option \<Rightarrow> 'e \<times> (nat \<Rightarrow> bool) \<Rightarrow> 'e \<times> (nat \<Rightarrow> bool)" where
  "stop_thread (Some i) (e, run) = (e, run(i := False))"
| "stop_thread None s = s"

definition stop_ops :: "(nat option, 'e \<times> (nat \<Rightarrow> bool)) benchmark_t" where
  "stop_ops =
     \<lparr>b_name = ''stop'', b_init_arg = None, b_reset_arg = None, b_free_arg = None, b_call = stop_thread, b_state = None\<rparr>"

type_synonym 'e stop_work = "(nat option, 'e \<times> (nat \<Rightarrow> bool)) work_t"

definition stop_item :: "nat \<Rightarrow> 'e stop_work" where
  "stop_item i =
     \<lparr>w_ops = stop_ops, w_arg = Some i, w_result = None, w_reps = 1, w_pmcs = [], w_num_pmcs = 0\<rparr>"

section \<open>The main thread and the workers\<close>

text \<open>What the main thread does: queue the item of a worker, wait until it is done, join the thread.\<close>

datatype stop_cmd = Stop_queue nat | Stop_wait nat | Stop_join nat

definition stop_single_worker :: "nat \<Rightarrow> stop_cmd list" where
  "stop_single_worker i = [Stop_queue i, Stop_wait i, Stop_join i]"

definition stop_workers :: "nat \<Rightarrow> (nat \<Rightarrow> 'w arg) \<Rightarrow> stop_cmd list" where
  "stop_workers cpus args =
     concat (map (\<lambda>i. if a_dirigent (args i) then [] else stop_single_worker i) [0..<cpus])"

text \<open>
  Where a worker is: not in \<open>worker\<close> (the dirigent), about to enter \<open>wait_for_work\<close>, in the loop there,
  with an item in hand, before \<open>pthread_barrier_wait\<close>, held back in it since the given phase, before its
  next repetition, at the test of \<open>run\<close>, or returned from \<open>worker\<close>.
\<close>

datatype ('e, 'p) stop_pc =
    T_out | T_enter | T_wait
  | T_got "'e stop_work"
  | T_come "'e stop_work" "nat option" 'p
  | T_held "'e stop_work" "nat option" 'p u64
  | T_rep "'e stop_work" "nat option" 'p nat
  | T_test | T_exit

record ('e, 'p) stop_state =
  sp_arg :: "nat \<Rightarrow> 'e stop_work arg"
  sp_pc :: "nat \<Rightarrow> ('e, 'p) stop_pc"
  sp_env :: "nat \<Rightarrow> 'e"
  sp_step :: "step option"        \<comment> \<open>\<open>step\<close>, or a null pointer\<close>
  sp_script :: "stop_cmd list"    \<comment> \<open>what the main thread has still to do\<close>
  sp_err :: bool                  \<comment> \<open>\<open>err\<close> is not 0\<close>
  sp_failed :: bool

definition flags :: "(nat \<Rightarrow> 'w arg) \<Rightarrow> nat \<Rightarrow> bool" where
  "flags args i = a_run (args i)"

definition set_flags :: "(nat \<Rightarrow> bool) \<Rightarrow> (nat \<Rightarrow> 'w arg) \<Rightarrow> nat \<Rightarrow> 'w arg" where
  "set_flags run args i = (args i)\<lparr>a_run := run i\<rparr>"

text \<open>
  The steps. A call on a step that is a null pointer, or at a barrier that was not initialised, is
  undefined; \<open>pthread_barrier_wait\<close> arrives as in the theory of the barrier, and lets a thread go when it
  was the last to arrive or when the phase has changed. A worker whose \<open>run\<close> is not cleared waits for
  work again. \<open>join_err\<close> are the results of \<open>pthread_join\<close>.
\<close>

inductive stop_step ::
  "('e, 'p) arch \<Rightarrow> (nat \<Rightarrow> int) \<Rightarrow> ('e, 'p) stop_state \<Rightarrow> ('e, 'p) stop_state \<Rightarrow> bool"
  for arch join_err
where
  s_queue: "sp_script s = Stop_queue i # cs \<Longrightarrow> sp_step s \<noteq> None \<Longrightarrow> queue_work (stop_item i) (sp_arg s i) = Inr x \<Longrightarrow>
    stop_step arch join_err s (s\<lparr>sp_arg := (sp_arg s)(i := x), sp_script := cs\<rparr>)"
| s_queue_fail: "sp_script s = Stop_queue i # cs \<Longrightarrow> sp_step s = None \<or> queue_work (stop_item i) (sp_arg s i) = Inl err \<Longrightarrow>
    stop_step arch join_err s (s\<lparr>sp_failed := True\<rparr>)"
| s_collect: "sp_script s = Stop_wait i # cs \<Longrightarrow> wait_until_done (sp_arg s i) = Some (w, x) \<Longrightarrow>
    stop_step arch join_err s (s\<lparr>sp_arg := (sp_arg s)(i := x), sp_script := cs\<rparr>)"
| s_join: "sp_script s = Stop_join i # cs \<Longrightarrow> sp_pc s i = T_exit \<Longrightarrow>
    stop_step arch join_err s (s\<lparr>sp_script := cs, sp_err := (sp_err s \<or> join_err i \<noteq> 0)\<rparr>)"
| s_enter: "sp_pc s i = T_enter \<Longrightarrow> wait_for_work_enter (sp_arg s i) = Inr u \<Longrightarrow>
    stop_step arch join_err s (s\<lparr>sp_pc := (sp_pc s)(i := T_wait)\<rparr>)"
| s_enter_fail: "sp_pc s i = T_enter \<Longrightarrow> wait_for_work_enter (sp_arg s i) = Inl err \<Longrightarrow>
    stop_step arch join_err s (s\<lparr>sp_failed := True\<rparr>)"
| s_take: "sp_pc s i = T_wait \<Longrightarrow> wait_for_work (sp_arg s i) = Some (Some w, x) \<Longrightarrow>
    stop_step arch join_err s (s\<lparr>sp_arg := (sp_arg s)(i := x), sp_pc := (sp_pc s)(i := T_got w)\<rparr>)"
| s_take_fail: "sp_pc s i = T_wait \<Longrightarrow> wait_for_work (sp_arg s i) = Some (None, x) \<Longrightarrow>
    stop_step arch join_err s (s\<lparr>sp_failed := True\<rparr>)"
| s_prepare: "sp_pc s i = T_got w \<Longrightarrow>
    item_prepare (lift_arch arch) (a_cpu (sp_arg s i)) w (sp_env s i, flags (sp_arg s)) = Inr (a, p, e, run) \<Longrightarrow>
    stop_step arch join_err s (s\<lparr>sp_arg := set_flags run (sp_arg s), sp_env := (sp_env s)(i := e),
      sp_pc := (sp_pc s)(i := T_come w a p)\<rparr>)"
| s_prepare_fail: "sp_pc s i = T_got w \<Longrightarrow>
    item_prepare (lift_arch arch) (a_cpu (sp_arg s i)) w (sp_env s i, flags (sp_arg s)) = Inl err \<Longrightarrow>
    stop_step arch join_err s (s\<lparr>sp_failed := True\<rparr>)"
| s_arrive: "sp_pc s i = T_come w a p \<Longrightarrow> sp_step s = Some st \<Longrightarrow> st_barrier st = Some b \<Longrightarrow>
    barrier_arrive b = (final, b1) \<Longrightarrow>
    stop_step arch join_err s (s\<lparr>sp_step := Some (st\<lparr>st_barrier := Some b1\<rparr>),
      sp_pc := (sp_pc s)(i := (if final then T_rep w a p 0 else T_held w a p (phase b1)))\<rparr>)"
| s_arrive_fail: "sp_pc s i = T_come w a p \<Longrightarrow>
    sp_step s = None \<or> (\<exists>st. sp_step s = Some st \<and> st_barrier st = None) \<Longrightarrow>
    stop_step arch join_err s (s\<lparr>sp_failed := True\<rparr>)"
| s_release: "sp_pc s i = T_held w a p ph \<Longrightarrow> sp_step s = Some st \<Longrightarrow> st_barrier st = Some b \<Longrightarrow> phase b \<noteq> ph \<Longrightarrow>
    stop_step arch join_err s (s\<lparr>sp_pc := (sp_pc s)(i := T_rep w a p 0)\<rparr>)"
| s_rep: "sp_pc s i = T_rep w a p r \<Longrightarrow> r < unat (w_reps w) \<Longrightarrow>
    run_rep (lift_arch arch) w p a (of_nat r) ([], sp_env s i, flags (sp_arg s)) = Inr (d, e, run) \<Longrightarrow>
    stop_step arch join_err s (s\<lparr>sp_arg := set_flags run (sp_arg s), sp_env := (sp_env s)(i := e),
      sp_pc := (sp_pc s)(i := T_rep w a p (Suc r))\<rparr>)"
| s_rep_fail: "sp_pc s i = T_rep w a p r \<Longrightarrow> r < unat (w_reps w) \<Longrightarrow>
    run_rep (lift_arch arch) w p a (of_nat r) ([], sp_env s i, flags (sp_arg s)) = Inl err \<Longrightarrow>
    stop_step arch join_err s (s\<lparr>sp_failed := True\<rparr>)"
| s_finish: "sp_pc s i = T_rep w a p r \<Longrightarrow> \<not> r < unat (w_reps w) \<Longrightarrow> arch_pmu_free arch p (sp_env s i) = Inr e \<Longrightarrow>
    return_finished_work (Some w) (sp_arg s i) = Inr x \<Longrightarrow>
    stop_step arch join_err s (s\<lparr>sp_arg := (sp_arg s)(i := x), sp_env := (sp_env s)(i := e),
      sp_pc := (sp_pc s)(i := T_test)\<rparr>)"
| s_finish_fail: "sp_pc s i = T_rep w a p r \<Longrightarrow> \<not> r < unat (w_reps w) \<Longrightarrow>
    arch_pmu_free arch p (sp_env s i) = Inl err \<or> return_finished_work (Some w) (sp_arg s i) = Inl err \<Longrightarrow>
    stop_step arch join_err s (s\<lparr>sp_failed := True\<rparr>)"
| s_test: "sp_pc s i = T_test \<Longrightarrow>
    stop_step arch join_err s (s\<lparr>sp_pc := (sp_pc s)(i := (if a_run (sp_arg s i) then T_enter else T_exit))\<rparr>)"

text \<open>
  The start: the allocation of the step succeeds or not, \<open>mrc\<close> and \<open>crc\<close> are the results of the
  initialisations in its barrier, and the workers are where the last policy left them.
\<close>

definition stop_begin ::
  "bool \<Rightarrow> bool \<Rightarrow> int \<Rightarrow> int \<Rightarrow> nat \<Rightarrow> (nat \<Rightarrow> 'e stop_work arg) \<Rightarrow> (nat \<Rightarrow> ('e, 'p) stop_pc) \<Rightarrow> (nat \<Rightarrow> 'e)
    \<Rightarrow> ('e, 'p) stop_state"
where
  "stop_begin malloc_step malloc_work mrc crc cpus args pcs env =
     \<lparr>sp_arg = args, sp_pc = pcs, sp_env = env, sp_step = init_step malloc_step malloc_work mrc crc 1,
      sp_script = stop_workers cpus args, sp_err = False, sp_failed = False\<rparr>"

section \<open>The invariant\<close>

text \<open>Without counters and without results the item of a worker runs through on x86.\<close>

abbreviation "frees lib p \<equiv> \<forall>e. \<exists>e1. x86_pmu_free lib p e = Inr e1"

lemma stop_prepare:
  "\<exists>p e1. item_prepare (lift_arch (x86_arch lib)) cp (stop_item i) (e, run) = Inr (Some i, p, e1, run) \<and> frees lib p"
proof -
  obtain g e0 where g: "rdmsr lib IA32_PERF_GLOBAL_CTRL (-1) e = (g, e0)" by fastforce
  then have "\<exists>p e1. x86_pmu_init lib [] 0 cp e = Inr (p, e1)"
    by (simp add: x86_pmu_init_def x86_events_def active_mask_def)
  then obtain p e1 where p: "x86_pmu_init lib [] 0 cp e = Inr (p, e1)" by blast
  with x86_free_ok [OF p] show ?thesis
    by (simp add: item_prepare_def stop_item_def stop_ops_def lift_arch_def)
qed

lemma stop_rep:
  "\<exists>e1. run_rep (lift_arch (x86_arch lib)) (stop_item i) p (Some i) r ([], e, run) = Inr ([], e1, run(i := False))"
proof -
  obtain t e2 where t: "x86_timestamp_begin lib e = (t, e2)" by fastforce
  obtain u e3 where u: "x86_timestamp_end lib e2 = (u, e3)" by fastforce
  show ?thesis using t u by (simp add: run_rep_def stop_item_def stop_ops_def lift_arch_def)
qed

lemma set_flags_same: "set_flags (flags args) args = args"
  by (rule ext) (simp add: set_flags_def flags_def)

lemma set_flags_one: "set_flags ((flags args)(i := False)) args = args(i := (args i)\<lparr>a_run := False\<rparr>)"
  by (rule ext) (simp add: set_flags_def flags_def)

text \<open>A script that queues, waits for and joins a worker in this order, and once.\<close>

fun stop_script :: "stop_cmd list \<Rightarrow> bool" where
  "stop_script [] = True"
| "stop_script (Stop_queue i # cs) =
     (Stop_queue i \<notin> set cs \<and> Stop_wait i \<in> set cs \<and> Stop_join i \<in> set cs \<and> stop_script cs)"
| "stop_script (Stop_wait i # cs) =
     (Stop_queue i \<notin> set cs \<and> Stop_wait i \<notin> set cs \<and> Stop_join i \<in> set cs \<and> stop_script cs)"
| "stop_script (Stop_join i # cs) =
     (Stop_queue i \<notin> set cs \<and> Stop_wait i \<notin> set cs \<and> Stop_join i \<notin> set cs \<and> stop_script cs)"

lemma stop_workers_cmds:
  "Stop_queue i \<in> set (stop_workers n args) \<longleftrightarrow> i < n \<and> \<not> a_dirigent (args i)"
  "Stop_wait i \<in> set (stop_workers n args) \<longleftrightarrow> i < n \<and> \<not> a_dirigent (args i)"
  "Stop_join i \<in> set (stop_workers n args) \<longleftrightarrow> i < n \<and> \<not> a_dirigent (args i)"
  by (auto simp: stop_workers_def stop_single_worker_def split: if_splits)

lemma stop_workers_script: "stop_script (stop_workers n args)"
proof -
  have "k \<le> n \<Longrightarrow> stop_script (concat (map (\<lambda>i. if a_dirigent (args i) then [] else stop_single_worker i) [k..<n]))" for k
  proof (induction "n - k" arbitrary: k)
    case (Suc x)
    then have "[k..<n] = k # [Suc k..<n]" by (simp add: upt_conv_Cons)
    with Suc show ?case by (auto simp: stop_single_worker_def split: if_splits)
  qed simp
  then show ?thesis unfolding stop_workers_def by blast
qed

text \<open>
  A worker \<open>i\<close> whose \<open>struct arg\<close> was \<open>x0\<close> at the start and is \<open>x\<close> now, when the main thread has still
  \<open>cs\<close> to do. No worker is ever held back at the barrier.
\<close>

definition in_loop :: "'w arg \<Rightarrow> ('e, 'p) stop_pc \<Rightarrow> bool" where
  "in_loop x pc \<longleftrightarrow> pc = T_enter \<or> pc = T_wait \<or> pc = T_test \<and> a_run x"

definition at_item :: "('attr, 'ctx, 'e) x86_lib \<Rightarrow> nat \<Rightarrow> 'e stop_work arg \<Rightarrow> ('e, 'ctx x86_pmu) stop_pc \<Rightarrow> bool" where
  "at_item lib i x pc \<longleftrightarrow>
     (case pc of
        T_got w \<Rightarrow> w = stop_item i
      | T_come w a p \<Rightarrow> w = stop_item i \<and> a = Some i \<and> frees lib p
      | T_rep w a p r \<Rightarrow> w = stop_item i \<and> a = Some i \<and> frees lib p \<and> (r = 0 \<or> r = 1 \<and> \<not> a_run x)
      | _ \<Rightarrow> False)"

definition stop_ok ::
  "('attr, 'ctx, 'e) x86_lib \<Rightarrow> nat \<Rightarrow> stop_cmd list \<Rightarrow> 'e stop_work arg \<Rightarrow> 'e stop_work arg \<Rightarrow> ('e, 'ctx x86_pmu) stop_pc
    \<Rightarrow> bool"
where
  "stop_ok lib i cs x0 x pc \<longleftrightarrow> x\<lparr>mb_work := None, mb_s := IDLE, a_run := False\<rparr> = x0\<lparr>a_run := False\<rparr> \<and>
     (if Stop_queue i \<in> set cs then mb_work x = None \<and> mb_s x = IDLE \<and> in_loop x pc
      else if Stop_wait i \<in> set cs then
        (case mb_s x of
           IDLE \<Rightarrow> False
         | QUEUED \<Rightarrow> mb_work x = Some (stop_item i) \<and> in_loop x pc
         | WORKING \<Rightarrow> mb_work x = None \<and> at_item lib i x pc
         | DONE \<Rightarrow> mb_work x = Some (stop_item i) \<and> \<not> a_run x \<and> (pc = T_test \<or> pc = T_exit))
      else mb_work x = None \<and> mb_s x = IDLE \<and> \<not> a_run x \<and>
        (if Stop_join i \<in> set cs then pc = T_test \<or> pc = T_exit else pc = T_exit))"

text \<open>Any thread: the dirigent, and what is behind the threads, is left alone.\<close>

definition each_ok ::
  "('attr, 'ctx, 'e) x86_lib \<Rightarrow> nat \<Rightarrow> (nat \<Rightarrow> 'e stop_work arg) \<Rightarrow> nat \<Rightarrow> stop_cmd list \<Rightarrow> 'e stop_work arg
    \<Rightarrow> ('e, 'ctx x86_pmu) stop_pc \<Rightarrow> bool"
where
  "each_ok lib n args i cs x pc \<longleftrightarrow>
     (if i < n \<and> \<not> a_dirigent (args i) then stop_ok lib i cs (args i) x pc else x = args i \<and> pc = T_out)"

definition step_ready :: "('e, 'p) stop_state \<Rightarrow> bool" where
  "step_ready s \<longleftrightarrow> (\<exists>st b. sp_step s = Some st \<and> st_barrier st = Some b \<and> limit b = 1 \<and> count b = 0)"

definition stop_inv ::
  "('attr, 'ctx, 'e) x86_lib \<Rightarrow> (nat \<Rightarrow> int) \<Rightarrow> nat \<Rightarrow> (nat \<Rightarrow> 'e stop_work arg) \<Rightarrow> ('e, 'ctx x86_pmu) stop_state \<Rightarrow> bool"
where
  "stop_inv lib join_err n args s \<longleftrightarrow> \<not> sp_failed s \<and> step_ready s \<and> stop_script (sp_script s) \<and>
     set (sp_script s) \<subseteq> set (stop_workers n args) \<and>
     (\<forall>i. each_ok lib n args i (sp_script s) (sp_arg s i) (sp_pc s i)) \<and>
     (sp_err s \<longleftrightarrow> (\<exists>i < n. \<not> a_dirigent (args i) \<and> Stop_join i \<notin> set (sp_script s) \<and> join_err i \<noteq> 0))"

definition ready_workers :: "nat \<Rightarrow> (nat \<Rightarrow> 'e stop_work arg) \<Rightarrow> (nat \<Rightarrow> ('e, 'p) stop_pc) \<Rightarrow> bool" where
  "ready_workers n args pcs \<longleftrightarrow>
     (\<forall>i. if i < n \<and> \<not> a_dirigent (args i) then mb_work (args i) = None \<and> mb_s (args i) = IDLE \<and> in_loop (args i) (pcs i)
        else pcs i = T_out)"

lemma stop_begin_inv:
  assumes "ready_workers n args pcs" and "0 \<le> mrc" and "0 \<le> crc"
  shows "stop_inv lib join_err n args (stop_begin True True mrc crc n args pcs env)"
  using assms
  by (auto simp: stop_inv_def stop_begin_def stop_workers_script stop_workers_cmds step_ready_def init_step_def
      pthread_barrier_init_def ready_workers_def each_ok_def stop_ok_def)

lemma stop_invD:
  assumes "stop_inv lib join_err n args s"
  shows "sp_pc s i \<noteq> T_out \<Longrightarrow> i < n \<and> \<not> a_dirigent (args i)"
    and "i < n \<Longrightarrow> \<not> a_dirigent (args i) \<Longrightarrow> stop_ok lib i (sp_script s) (args i) (sp_arg s i) (sp_pc s i)"
    and "c \<in> set (sp_script s) \<Longrightarrow> c = Stop_queue i \<or> c = Stop_wait i \<or> c = Stop_join i \<Longrightarrow> i < n \<and> \<not> a_dirigent (args i)"
  using assms by (auto simp: stop_inv_def each_ok_def stop_workers_cmds split: if_splits)

text \<open>A step of one worker, and one of the main thread about it.\<close>

lemma stop_inv_worker:
  assumes inv: "stop_inv lib join_err n args s" and i: "i < n" "\<not> a_dirigent (args i)"
    and "sp_script t = sp_script s" "sp_err t = sp_err s" "\<not> sp_failed t" "step_ready t"
    and "\<And>j. j \<noteq> i \<Longrightarrow> sp_arg t j = sp_arg s j \<and> sp_pc t j = sp_pc s j"
    and "stop_ok lib i (sp_script s) (args i) (sp_arg t i) (sp_pc t i)"
  shows "stop_inv lib join_err n args t"
proof -
  have "each_ok lib n args j (sp_script s) (sp_arg t j) (sp_pc t j)" for j
    using inv i assms(8) [of j] assms(9) by (cases "j = i") (simp_all add: stop_inv_def each_ok_def)
  then show ?thesis using inv assms(4-7) by (simp add: stop_inv_def)
qed

lemma stop_inv_main:
  assumes inv: "stop_inv lib join_err n args s"
    and c: "sp_script s = c # cs" "c = Stop_queue i \<or> c = Stop_wait i \<or> c = Stop_join i"
    and t: "t = s\<lparr>sp_arg := (sp_arg s)(i := x), sp_script := cs, sp_err := err\<rparr>"
    and ok: "stop_ok lib i cs (args i) x (sp_pc s i)"
    and err: "err \<longleftrightarrow> sp_err s \<or> c = Stop_join i \<and> join_err i \<noteq> 0"
  shows "stop_inv lib join_err n args t"
proof -
  have i: "i < n" "\<not> a_dirigent (args i)" using stop_invD(3) [OF inv, of c i] c by simp_all
  have "each_ok lib n args j cs (sp_arg t j) (sp_pc t j)" for j
  proof (cases "j = i")
    case False
    then have "Stop_queue j \<in> set (c # cs) \<longleftrightarrow> Stop_queue j \<in> set cs" "Stop_wait j \<in> set (c # cs) \<longleftrightarrow> Stop_wait j \<in> set cs"
      "Stop_join j \<in> set (c # cs) \<longleftrightarrow> Stop_join j \<in> set cs"
      using c(2) by auto
    then have "each_ok lib n args j (c # cs) x pc = each_ok lib n args j cs x pc" for x pc
      by (simp only: each_ok_def stop_ok_def)
    moreover have "each_ok lib n args j (c # cs) (sp_arg s j) (sp_pc s j)" using inv c(1) by (simp add: stop_inv_def)
    ultimately show ?thesis using False t by simp
  qed (use i ok t in \<open>simp add: each_ok_def\<close>)
  moreover have "stop_script (c # cs)" "set cs \<subseteq> set (stop_workers n args)" using inv c(1) by (simp_all add: stop_inv_def)
  moreover have "stop_script cs" using \<open>stop_script (c # cs)\<close> by (cases c) simp_all
  moreover have "err \<longleftrightarrow> (\<exists>j < n. \<not> a_dirigent (args j) \<and> Stop_join j \<notin> set cs \<and> join_err j \<noteq> 0)"
  proof -
    have "c = Stop_join i \<Longrightarrow> Stop_join i \<notin> set cs" using \<open>stop_script (c # cs)\<close> by auto
    moreover have "Stop_join j \<in> set (c # cs) \<longleftrightarrow> Stop_join j \<in> set cs \<or> c = Stop_join i \<and> j = i" for j
      using c(2) by auto
    moreover have "sp_err s \<longleftrightarrow> (\<exists>j < n. \<not> a_dirigent (args j) \<and> Stop_join j \<notin> set (c # cs) \<and> join_err j \<noteq> 0)"
      using inv c(1) by (simp add: stop_inv_def)
    ultimately show ?thesis using err i by blast
  qed
  ultimately show ?thesis using inv t unfolding stop_inv_def step_ready_def by simp
qed

text \<open>What the place of a worker says.\<close>

lemma stop_place:
  assumes "stop_inv lib join_err n args s" and "sp_pc s i = pc" "pc \<noteq> T_out"
  shows "i < n" and "\<not> a_dirigent (args i)"
    and "stop_ok lib i (sp_script s) (args i) (sp_arg s i) pc"
  using stop_invD(1,2) [OF assms(1), of i] assms(2,3) by simp_all

lemma stop_working:
  assumes "stop_ok lib i cs x0 x pc" and "\<exists>w a p ph r. pc \<in> {T_got w, T_come w a p, T_held w a p ph, T_rep w a p r}"
  shows "Stop_queue i \<notin> set cs" and "Stop_wait i \<in> set cs" and "mb_s x = WORKING" and "mb_work x = None" and "at_item lib i x pc"
    and "x\<lparr>mb_work := None, mb_s := IDLE, a_run := False\<rparr> = x0\<lparr>a_run := False\<rparr>"
  using assms by (auto simp: stop_ok_def in_loop_def split: if_splits state.splits)

lemma stop_workingI:
  assumes "Stop_queue i \<notin> set cs" and "Stop_wait i \<in> set cs" and "mb_s x = WORKING" and "mb_work x = None"
    and "at_item lib i x pc" and "x\<lparr>mb_work := None, mb_s := IDLE, a_run := False\<rparr> = x0\<lparr>a_run := False\<rparr>"
  shows "stop_ok lib i cs x0 x pc"
  using assms by (simp add: stop_ok_def)

text \<open>The steps of the main thread.\<close>

lemma stop_queue_inv:
  assumes inv: "stop_inv lib join_err n args s" and c: "sp_script s = Stop_queue i # cs"
  shows "\<exists>x. queue_work (stop_item i) (sp_arg s i) = Inr x \<and>
    stop_inv lib join_err n args (s\<lparr>sp_arg := (sp_arg s)(i := x), sp_script := cs\<rparr>)"
proof -
  have i: "i < n" "\<not> a_dirigent (args i)" using stop_invD(3) [OF inv, of "Stop_queue i"] c by auto
  have sc: "Stop_queue i \<notin> set cs" "Stop_wait i \<in> set cs" using inv c by (simp_all add: stop_inv_def)
  note ok = stop_invD(2) [OF inv i, unfolded c]
  let ?x = "(sp_arg s i)\<lparr>mb_work := Some (stop_item i), mb_s := QUEUED\<rparr>"
  have "queue_work (stop_item i) (sp_arg s i) = Inr ?x" using ok by (simp add: stop_ok_def queue_work_def)
  moreover have "stop_ok lib i cs (args i) ?x (sp_pc s i)" using ok sc by (auto simp: stop_ok_def in_loop_def)
  ultimately show ?thesis using stop_inv_main [OF inv c, where i = i and x = ?x and err = "sp_err s"] by simp
qed

lemma stop_collect_inv:
  assumes inv: "stop_inv lib join_err n args s" and c: "sp_script s = Stop_wait i # cs"
    and w: "wait_until_done (sp_arg s i) = Some (w, x)"
  shows "stop_inv lib join_err n args (s\<lparr>sp_arg := (sp_arg s)(i := x), sp_script := cs\<rparr>)"
proof -
  have i: "i < n" "\<not> a_dirigent (args i)" using stop_invD(3) [OF inv, of "Stop_wait i"] c by auto
  have sc: "Stop_queue i \<notin> set cs" "Stop_wait i \<notin> set cs" "Stop_join i \<in> set cs" using inv c by (simp_all add: stop_inv_def)
  note ok = stop_invD(2) [OF inv i, unfolded c]
  have x: "mb_s (sp_arg s i) = DONE" "x = (sp_arg s i)\<lparr>mb_work := None, mb_s := IDLE\<rparr>"
    using w by (auto simp: wait_until_done_def split: if_splits)
  have "stop_ok lib i cs (args i) x (sp_pc s i)" using ok sc x by (simp add: stop_ok_def)
  then show ?thesis using stop_inv_main [OF inv c, where i = i and x = x and err = "sp_err s"] by simp
qed

lemma stop_join_inv:
  assumes inv: "stop_inv lib join_err n args s" and c: "sp_script s = Stop_join i # cs" and e: "sp_pc s i = T_exit"
  shows "stop_inv lib join_err n args (s\<lparr>sp_script := cs, sp_err := (sp_err s \<or> join_err i \<noteq> 0)\<rparr>)"
proof -
  have i: "i < n" "\<not> a_dirigent (args i)" using stop_invD(3) [OF inv, of "Stop_join i"] c by auto
  have sc: "Stop_queue i \<notin> set cs" "Stop_wait i \<notin> set cs" "Stop_join i \<notin> set cs" using inv c by (simp_all add: stop_inv_def)
  note ok = stop_invD(2) [OF inv i, unfolded c]
  have "stop_ok lib i cs (args i) (sp_arg s i) (sp_pc s i)" using ok sc e by (simp add: stop_ok_def)
  note ok = this
  have t: "s\<lparr>sp_script := cs, sp_err := (sp_err s \<or> join_err i \<noteq> 0)\<rparr> =
      s\<lparr>sp_arg := (sp_arg s)(i := sp_arg s i), sp_script := cs, sp_err := (sp_err s \<or> join_err i \<noteq> 0)\<rparr>"
    by (cases s) simp
  show ?thesis by (rule stop_inv_main [OF inv c _ t ok]) simp_all
qed

text \<open>The steps of a worker.\<close>

lemma stop_enter_inv:
  assumes inv: "stop_inv lib join_err n args s" and pc: "sp_pc s i = T_enter"
  shows "wait_for_work_enter (sp_arg s i) = Inr () \<and> stop_inv lib join_err n args (s\<lparr>sp_pc := (sp_pc s)(i := T_wait)\<rparr>)"
proof
  note pl = stop_place [OF inv pc, simplified]
  show "wait_for_work_enter (sp_arg s i) = Inr ()"
    using pl(3) by (auto simp: stop_ok_def at_item_def wait_for_work_enter_def split: if_splits state.splits)
  have "stop_ok lib i (sp_script s) (args i) (sp_arg s i) T_wait"
    using pl(3) by (auto simp: stop_ok_def in_loop_def at_item_def split: if_splits state.splits)
  then show "stop_inv lib join_err n args (s\<lparr>sp_pc := (sp_pc s)(i := T_wait)\<rparr>)"
    using inv by (intro stop_inv_worker [OF inv pl(1,2)]) (simp_all add: stop_inv_def step_ready_def)
qed

lemma stop_take_inv:
  assumes inv: "stop_inv lib join_err n args s" and pc: "sp_pc s i = T_wait" and w: "wait_for_work (sp_arg s i) = Some (v, x)"
  shows "\<exists>w. v = Some w \<and> stop_inv lib join_err n args (s\<lparr>sp_arg := (sp_arg s)(i := x), sp_pc := (sp_pc s)(i := T_got w)\<rparr>)"
proof -
  note pl = stop_place [OF inv pc, simplified]
  have x: "mb_s (sp_arg s i) = QUEUED" "v = mb_work (sp_arg s i)" "x = (sp_arg s i)\<lparr>mb_work := None, mb_s := WORKING\<rparr>"
    using w by (auto simp: wait_for_work_def split: if_splits)
  have ok: "Stop_queue i \<notin> set (sp_script s)" "Stop_wait i \<in> set (sp_script s)" "v = Some (stop_item i)"
    "(sp_arg s i)\<lparr>mb_work := None, mb_s := IDLE, a_run := False\<rparr> = (args i)\<lparr>a_run := False\<rparr>"
    using pl(3) x by (auto simp: stop_ok_def split: if_splits)
  have "stop_ok lib i (sp_script s) (args i) x (T_got (stop_item i))"
    by (rule stop_workingI) (use ok x in \<open>simp_all add: at_item_def\<close>)
  then have "stop_inv lib join_err n args (s\<lparr>sp_arg := (sp_arg s)(i := x), sp_pc := (sp_pc s)(i := T_got (stop_item i))\<rparr>)"
    using inv by (intro stop_inv_worker [OF inv pl(1,2)]) (simp_all add: stop_inv_def step_ready_def)
  with ok(3) show ?thesis by blast
qed

lemma stop_prepare_inv:
  assumes inv: "stop_inv lib join_err n args s" and pc: "sp_pc s i = T_got w"
    and x: "item_prepare (lift_arch (x86_arch lib)) (a_cpu (sp_arg s i)) w (sp_env s i, flags (sp_arg s)) = x"
  shows "\<exists>a p e run. x = Inr (a, p, e, run) \<and> stop_inv lib join_err n args (s\<lparr>sp_arg := set_flags run (sp_arg s),
    sp_env := (sp_env s)(i := e), sp_pc := (sp_pc s)(i := T_come w a p)\<rparr>)"
proof -
  note pl = stop_place [OF inv pc, simplified]
  note ok = stop_working [OF pl(3), simplified]
  have w: "w = stop_item i" using ok(5) by (simp add: at_item_def)
  obtain p e where p: "x = Inr (Some i, p, e, flags (sp_arg s))" "frees lib p"
    using stop_prepare [of lib "a_cpu (sp_arg s i)" i "sp_env s i" "flags (sp_arg s)"] x w by auto
  have "stop_ok lib i (sp_script s) (args i) (sp_arg s i) (T_come w (Some i) p)"
    by (rule stop_workingI [OF ok(1-4) _ ok(6)]) (use w p(2) in \<open>simp add: at_item_def\<close>)
  then have "stop_inv lib join_err n args (s\<lparr>sp_arg := set_flags (flags (sp_arg s)) (sp_arg s),
      sp_env := (sp_env s)(i := e), sp_pc := (sp_pc s)(i := T_come w (Some i) p)\<rparr>)"
    using inv by (intro stop_inv_worker [OF inv pl(1,2)]) (simp_all add: stop_inv_def step_ready_def set_flags_same)
  with p(1) show ?thesis by blast
qed

lemma stop_arrive_inv:
  assumes inv: "stop_inv lib join_err n args s" and pc: "sp_pc s i = T_come w a p"
    and st: "sp_step s = Some st" "st_barrier st = Some b" and arr: "barrier_arrive b = (final, b1)"
  shows "final \<and> stop_inv lib join_err n args (s\<lparr>sp_step := Some (st\<lparr>st_barrier := Some b1\<rparr>),
    sp_pc := (sp_pc s)(i := T_rep w a p 0)\<rparr>)"
proof -
  note pl = stop_place [OF inv pc, simplified]
  note ok = stop_working [OF pl(3), simplified]
  have "limit b = 1" "count b = 0" using inv st by (auto simp: stop_inv_def step_ready_def)
  then have b1: "final" "limit b1 = 1" "count b1 = 0" using arr by (auto simp: barrier_arrive_def Let_def)
  have "stop_ok lib i (sp_script s) (args i) (sp_arg s i) (T_rep w a p 0)"
    by (rule stop_workingI [OF ok(1-4) _ ok(6)]) (use ok(5) in \<open>simp add: at_item_def\<close>)
  then show ?thesis
    using inv b1 by (intro conjI stop_inv_worker [OF inv pl(1,2)]) (simp_all add: stop_inv_def step_ready_def)
qed

lemma stop_rep_inv:
  assumes inv: "stop_inv lib join_err n args s" and pc: "sp_pc s i = T_rep w a p r" and r: "r < unat (w_reps w)"
    and x: "run_rep (lift_arch (x86_arch lib)) w p a (of_nat r) ([], sp_env s i, flags (sp_arg s)) = x"
  shows "\<exists>d e run. x = Inr (d, e, run) \<and> stop_inv lib join_err n args (s\<lparr>sp_arg := set_flags run (sp_arg s),
    sp_env := (sp_env s)(i := e), sp_pc := (sp_pc s)(i := T_rep w a p (Suc r))\<rparr>)"
proof -
  note pl = stop_place [OF inv pc, simplified]
  note ok = stop_working [OF pl(3), simplified]
  have w: "w = stop_item i" "a = Some i" "frees lib p" using ok(5) by (simp_all add: at_item_def)
  then have "r = 0" using r by (simp add: stop_item_def)
  obtain e where e: "x = Inr ([], e, (flags (sp_arg s))(i := False))"
    using stop_rep [of lib i p "of_nat r" "sp_env s i" "flags (sp_arg s)"] x w by auto
  have "stop_ok lib i (sp_script s) (args i) ((sp_arg s i)\<lparr>a_run := False\<rparr>) (T_rep w a p (Suc r))"
    by (rule stop_workingI) (use ok w \<open>r = 0\<close> in \<open>simp_all add: at_item_def\<close>)
  then have "stop_inv lib join_err n args (s\<lparr>sp_arg := set_flags ((flags (sp_arg s))(i := False)) (sp_arg s),
      sp_env := (sp_env s)(i := e), sp_pc := (sp_pc s)(i := T_rep w a p (Suc r))\<rparr>)"
    using inv by (intro stop_inv_worker [OF inv pl(1,2)]) (simp_all add: stop_inv_def step_ready_def set_flags_one)
  with e show ?thesis by blast
qed

lemma stop_finish_inv:
  assumes inv: "stop_inv lib join_err n args s" and pc: "sp_pc s i = T_rep w a p r" and r: "\<not> r < unat (w_reps w)"
  shows "\<exists>e x. x86_pmu_free lib p (sp_env s i) = Inr e \<and> return_finished_work (Some w) (sp_arg s i) = Inr x \<and>
    stop_inv lib join_err n args (s\<lparr>sp_arg := (sp_arg s)(i := x), sp_env := (sp_env s)(i := e),
      sp_pc := (sp_pc s)(i := T_test)\<rparr>)"
proof -
  note pl = stop_place [OF inv pc, simplified]
  note ok = stop_working [OF pl(3), simplified]
  have w: "w = stop_item i" "frees lib p" "\<not> a_run (sp_arg s i)" using ok(5) r by (auto simp: at_item_def stop_item_def)
  obtain e where e: "x86_pmu_free lib p (sp_env s i) = Inr e" using w(2) by blast
  let ?x = "(sp_arg s i)\<lparr>mb_work := Some w, mb_s := DONE\<rparr>"
  have "return_finished_work (Some w) (sp_arg s i) = Inr ?x" using ok(3,4) by (simp add: return_finished_work_def)
  moreover have "stop_ok lib i (sp_script s) (args i) ?x T_test" using ok w by (simp add: stop_ok_def)
  then have "stop_inv lib join_err n args (s\<lparr>sp_arg := (sp_arg s)(i := ?x), sp_env := (sp_env s)(i := e),
      sp_pc := (sp_pc s)(i := T_test)\<rparr>)"
    using inv by (intro stop_inv_worker [OF inv pl(1,2)]) (simp_all add: stop_inv_def step_ready_def)
  ultimately show ?thesis using e by blast
qed

lemma stop_test_inv:
  assumes inv: "stop_inv lib join_err n args s" and pc: "sp_pc s i = T_test"
  shows "stop_inv lib join_err n args (s\<lparr>sp_pc := (sp_pc s)(i := (if a_run (sp_arg s i) then T_enter else T_exit))\<rparr>)"
proof -
  note pl = stop_place [OF inv pc, simplified]
  have "stop_ok lib i (sp_script s) (args i) (sp_arg s i) (if a_run (sp_arg s i) then T_enter else T_exit)"
    using pl(3) by (auto simp: stop_ok_def in_loop_def at_item_def split: if_splits state.splits)
  then show ?thesis
    using inv by (intro stop_inv_worker [OF inv pl(1,2)]) (simp_all add: stop_inv_def step_ready_def)
qed

lemma stop_no_held: "stop_inv lib join_err n args s \<Longrightarrow> sp_pc s i \<noteq> T_held w a p ph"
proof
  assume inv: "stop_inv lib join_err n args s" and pc: "sp_pc s i = T_held w a p ph"
  from stop_working(5) [OF stop_place(3) [OF inv pc]] show False by (simp add: at_item_def)
qed

section \<open>Progress\<close>

text \<open>What a worker can still do: once it has its item, it goes through to its end.\<close>

fun stop_rank :: "bool \<Rightarrow> ('e, 'p) stop_pc \<Rightarrow> nat" where
  "stop_rank run T_out = 0" | "stop_rank run T_enter = 10" | "stop_rank run T_wait = 9" | "stop_rank run (T_got w) = 8"
| "stop_rank run (T_come w a p) = 7" | "stop_rank run (T_held w a p ph) = 6" | "stop_rank run (T_rep w a p r) = 5 - r"
| "stop_rank run T_test = (if run then 11 else 1)" | "stop_rank run T_exit = 0"

definition thread_rank :: "('e, 'p) stop_state \<Rightarrow> nat \<Rightarrow> nat" where
  "thread_rank s i = stop_rank (a_run (sp_arg s i)) (sp_pc s i)"

definition stop_fuel :: "nat \<Rightarrow> ('e, 'p) stop_state \<Rightarrow> nat" where
  "stop_fuel n s = (\<Sum>i < n. thread_rank s i) + length (sp_script s)"

lemma fuel_stop_worker:
  assumes "i < n" and "thread_rank t i < thread_rank s i" and "\<And>j. j \<noteq> i \<Longrightarrow> thread_rank t j = thread_rank s j"
    and "sp_script t = sp_script s"
  shows "stop_fuel n t < stop_fuel n s"
proof -
  have "(\<Sum>j < n. thread_rank t j) < (\<Sum>j < n. thread_rank s j)"
  proof (rule sum_strict_mono_ex1)
    show "\<forall>j \<in> {..<n}. thread_rank t j \<le> thread_rank s j" using assms(2,3) by (metis less_or_eq_imp_le order_refl)
  qed (use assms(1,2) in auto)
  then show ?thesis by (simp add: stop_fuel_def assms(4))
qed

lemma fuel_stop_main:
  assumes "sp_script s = c # cs" and "sp_script t = cs" and "\<And>i. thread_rank t i = thread_rank s i"
  shows "stop_fuel n t < stop_fuel n s"
  using assms by (simp add: stop_fuel_def)

lemma mailbox_keeps_run:
  "queue_work w x = Inr y \<Longrightarrow> a_run y = a_run x" "wait_until_done x = Some (v, y) \<Longrightarrow> a_run y = a_run x"
  "wait_for_work x = Some (v, y) \<Longrightarrow> a_run y = a_run x" "return_finished_work v x = Inr y \<Longrightarrow> a_run y = a_run x"
  by (auto simp: mailbox_defs split: if_splits)

text \<open>Every step keeps the invariant, fails nothing and lowers the measure.\<close>

lemma stop_step_inv:
  assumes inv: "stop_inv lib join_err n args s" and step: "stop_step (x86_arch lib) join_err s t"
  shows "stop_inv lib join_err n args t \<and> stop_fuel n t < stop_fuel n s"
  using step
proof (cases rule: stop_step.cases)
  case (s_queue i cs x)
  then have "stop_fuel n t < stop_fuel n s"
    by (intro fuel_stop_main [of s]) (auto simp: thread_rank_def mailbox_keeps_run)
  with s_queue stop_queue_inv [OF inv s_queue(2)] show ?thesis by auto
next
  case (s_queue_fail i cs err)
  then show ?thesis using stop_queue_inv [OF inv s_queue_fail(2)] inv by (auto simp: stop_inv_def step_ready_def)
next
  case (s_collect i cs w x)
  then have "stop_fuel n t < stop_fuel n s"
    by (intro fuel_stop_main [of s]) (auto simp: thread_rank_def mailbox_keeps_run)
  with s_collect stop_collect_inv [OF inv s_collect(2)] show ?thesis by blast
next
  case (s_join i cs)
  then have "stop_fuel n t < stop_fuel n s" by (intro fuel_stop_main [of s]) (auto simp: thread_rank_def)
  with s_join stop_join_inv [OF inv s_join(2,3)] show ?thesis by blast
next
  case (s_enter i u)
  then have "stop_fuel n t < stop_fuel n s"
    using stop_place(1) [OF inv s_enter(2)] by (intro fuel_stop_worker [of i]) (auto simp: thread_rank_def)
  with s_enter stop_enter_inv [OF inv s_enter(2)] show ?thesis by blast
next
  case (s_enter_fail i err)
  then show ?thesis using stop_enter_inv [OF inv s_enter_fail(2)] by simp
next
  case (s_take i w x)
  then have "stop_fuel n t < stop_fuel n s"
    using stop_place(1) [OF inv s_take(2)] by (intro fuel_stop_worker [of i]) (auto simp: thread_rank_def)
  with s_take stop_take_inv [OF inv s_take(2,3)] show ?thesis by auto
next
  case (s_take_fail i x)
  then show ?thesis using stop_take_inv [OF inv s_take_fail(2,3)] by simp
next
  case (s_prepare i w a p e run)
  then have inv1: "stop_inv lib join_err n args t"
    and same: "set_flags run (sp_arg s) = sp_arg s"
    using stop_prepare_inv [OF inv s_prepare(2) refl] stop_working(5) [OF stop_place(3) [OF inv s_prepare(2)]]
      stop_prepare [of lib "a_cpu (sp_arg s i)" i "sp_env s i" "flags (sp_arg s)"]
    by (auto simp: at_item_def set_flags_same)
  have "stop_fuel n t < stop_fuel n s"
    using stop_place(1) [OF inv s_prepare(2)] s_prepare(1) s_prepare(2) unfolding same
    by (intro fuel_stop_worker [of i]) (auto simp: thread_rank_def)
  with inv1 show ?thesis ..
next
  case (s_prepare_fail i w err)
  then show ?thesis using stop_prepare_inv [OF inv s_prepare_fail(2) refl] by simp
next
  case (s_arrive i w a p st b final b1)
  note k = stop_arrive_inv [OF inv s_arrive(2-5)]
  then have t: "t = s\<lparr>sp_step := Some (st\<lparr>st_barrier := Some b1\<rparr>), sp_pc := (sp_pc s)(i := T_rep w a p 0)\<rparr>"
    using s_arrive(1) by simp
  have "stop_fuel n t < stop_fuel n s"
    using stop_place(1) [OF inv s_arrive(2)] s_arrive(2) unfolding t
    by (intro fuel_stop_worker [of i]) (auto simp: thread_rank_def)
  with k t show ?thesis by simp
next
  case (s_arrive_fail i w a p)
  then show ?thesis using inv by (auto simp: stop_inv_def step_ready_def)
next
  case (s_release i w a p ph st b)
  then show ?thesis using stop_no_held [OF inv] by blast
next
  case (s_rep i w a p r d e run)
  have w: "w = stop_item i" "a = Some i" "r = 0 \<or> r = 1 \<and> \<not> a_run (sp_arg s i)"
    using stop_working(5) [OF stop_place(3) [OF inv s_rep(2)]] by (simp_all add: at_item_def)
  then have r: "r = 0" using s_rep(3) by (simp add: stop_item_def)
  have run: "run = (flags (sp_arg s))(i := False)"
    using s_rep(4) stop_rep [of lib i p "of_nat r" "sp_env s i" "flags (sp_arg s)"] w by auto
  have "stop_fuel n t < stop_fuel n s"
    using stop_place(1) [OF inv s_rep(2)] s_rep(2) unfolding s_rep(1) run set_flags_one r
    by (intro fuel_stop_worker [of i]) (auto simp: thread_rank_def)
  with s_rep stop_rep_inv [OF inv s_rep(2,3) refl] show ?thesis by auto
next
  case (s_rep_fail i w a p r err)
  then show ?thesis using stop_rep_inv [OF inv s_rep_fail(2,3) refl] by simp
next
  case (s_finish i w a p r e x)
  have w: "r = 0 \<or> r = 1" "\<not> a_run (sp_arg s i)"
    using stop_working(5) [OF stop_place(3) [OF inv s_finish(2)]] s_finish(3) by (auto simp: at_item_def stop_item_def)
  have "stop_fuel n t < stop_fuel n s"
    using stop_place(1) [OF inv s_finish(2)] s_finish(2) w mailbox_keeps_run(4) [OF s_finish(5)] unfolding s_finish(1)
    by (intro fuel_stop_worker [of i]) (auto simp: thread_rank_def)
  with s_finish stop_finish_inv [OF inv s_finish(2,3)] show ?thesis by auto
next
  case (s_finish_fail i w a p r err)
  then show ?thesis using stop_finish_inv [OF inv s_finish_fail(2,3)] by auto
next
  case (s_test i)
  then have "stop_fuel n t < stop_fuel n s"
    using stop_place(1) [OF inv s_test(2)] by (intro fuel_stop_worker [of i]) (auto simp: thread_rank_def)
  with s_test stop_test_inv [OF inv s_test(2)] show ?thesis by simp
qed

text \<open>A worker that is not through can go on, unless it waits for an item.\<close>

lemma stop_worker_moves:
  assumes inv: "stop_inv lib join_err n args s" and i: "i < n" "\<not> a_dirigent (args i)"
    and m: "sp_pc s i \<noteq> T_exit" "sp_pc s i = T_wait \<Longrightarrow> mb_s (sp_arg s i) = QUEUED"
  shows "\<exists>t. stop_step (x86_arch lib) join_err s t"
proof (cases "sp_pc s i")
  case T_out
  then show ?thesis using stop_invD(2) [OF inv i]
    by (auto simp: stop_ok_def in_loop_def at_item_def split: if_splits state.splits)
next
  case T_enter
  then show ?thesis using stop_enter_inv [OF inv T_enter] by (blast intro: stop_step.s_enter)
next
  case T_wait
  then obtain v x where w: "wait_for_work (sp_arg s i) = Some (v, x)" using m(2) by (simp add: wait_for_work_def)
  then obtain w where "v = Some w" using stop_take_inv [OF inv T_wait] by blast
  with T_wait w show ?thesis by (blast intro: stop_step.s_take)
next
  case (T_got w)
  then show ?thesis using stop_prepare_inv [OF inv T_got refl] by (blast intro: stop_step.s_prepare)
next
  case (T_come w a p)
  obtain st b where "sp_step s = Some st" "st_barrier st = Some b" using inv by (auto simp: stop_inv_def step_ready_def)
  then show ?thesis using T_come by (metis stop_step.s_arrive surj_pair)
next
  case (T_held w a p ph)
  then show ?thesis using stop_no_held [OF inv] by blast
next
  case (T_rep w a p r)
  show ?thesis
  proof (cases "r < unat (w_reps w)")
    case True
    then show ?thesis using stop_rep_inv [OF inv T_rep True refl] T_rep by (blast intro: stop_step.s_rep)
  next
    case False
    then show ?thesis using stop_finish_inv [OF inv T_rep False] T_rep
      by (metis stop_step.s_finish x86_arch_simps(2))
  qed
next
  case T_test
  then show ?thesis by (blast intro: stop_step.s_test)
qed (use m in simp)

lemma stop_progress:
  assumes inv: "stop_inv lib join_err n args s" and nf: "sp_script s \<noteq> []"
  shows "\<exists>t. stop_step (x86_arch lib) join_err s t"
proof -
  obtain c cs where c: "sp_script s = c # cs" using nf by (cases "sp_script s") auto
  have sc: "stop_script (c # cs)" using inv c by (simp add: stop_inv_def)
  show ?thesis
  proof (cases c)
    case (Stop_queue i)
    with c have q: "sp_script s = Stop_queue i # cs" by simp
    have "sp_step s \<noteq> None" using inv by (auto simp: stop_inv_def step_ready_def)
    with q stop_queue_inv [OF inv q] show ?thesis by (blast intro: stop_step.s_queue)
  next
    case (Stop_wait i)
    with c have i: "i < n" "\<not> a_dirigent (args i)" using stop_invD(3) [OF inv, of c i] by auto
    note ok = stop_invD(2) [OF inv i, unfolded c Stop_wait]
    show ?thesis
    proof (cases "mb_s (sp_arg s i) = DONE")
      case True
      then have "\<exists>w x. wait_until_done (sp_arg s i) = Some (w, x)" by (simp add: wait_until_done_def)
      with c Stop_wait show ?thesis by (blast intro: stop_step.s_collect)
    next
      case False
      then have "sp_pc s i \<noteq> T_exit" "sp_pc s i = T_wait \<Longrightarrow> mb_s (sp_arg s i) = QUEUED"
        using ok sc Stop_wait by (auto simp: stop_ok_def in_loop_def at_item_def split: state.splits)
      then show ?thesis by (rule stop_worker_moves [OF inv i])
    qed
  next
    case (Stop_join i)
    with c have i: "i < n" "\<not> a_dirigent (args i)" using stop_invD(3) [OF inv, of c i] by auto
    note ok = stop_invD(2) [OF inv i, unfolded c Stop_join]
    show ?thesis
    proof (cases "sp_pc s i = T_exit")
      case True
      with c Stop_join show ?thesis by (blast intro: stop_step.s_join)
    next
      case False
      then have "sp_pc s i = T_test" using ok sc Stop_join by (simp add: stop_ok_def)
      then show ?thesis by (blast intro: stop_step.s_test)
    qed
  qed
qed

definition stop_start ::
  "int \<Rightarrow> int \<Rightarrow> nat \<Rightarrow> (nat \<Rightarrow> 'e stop_work arg) \<Rightarrow> ('e, 'p) stop_state \<Rightarrow> bool"
where
  "stop_start mrc crc n args s \<longleftrightarrow> 0 \<le> mrc \<and> 0 \<le> crc \<and>
     (\<exists>pcs env. ready_workers n args pcs \<and> s = stop_begin True True mrc crc n args pcs env)"

interpretation stop_run: progress_system
  "stop_start mrc crc n args" "stop_step (x86_arch lib) join_err" "stop_inv lib join_err n args"
  "stop_step (x86_arch lib) join_err" "\<lambda>s. sp_script s = []" "stop_fuel n" for mrc crc n args lib join_err
  by unfold_locales (auto simp: stop_start_def dest: stop_step_inv intro: stop_begin_inv stop_progress)

section \<open>Properties\<close>

lemma reset_run: "mb_work x = None \<Longrightarrow> mb_s x = IDLE \<Longrightarrow> \<not> a_run x \<Longrightarrow> x\<lparr>mb_work := None, mb_s := IDLE, a_run := False\<rparr> = x"
  by (cases x) simp

lemma stop_inv_end:
  assumes inv: "stop_inv lib join_err n args s" and f: "sp_script s = []"
  shows "if i < n \<and> \<not> a_dirigent (args i) then sp_arg s i = (args i)\<lparr>a_run := False\<rparr> \<and> sp_pc s i = T_exit
    else sp_arg s i = args i \<and> sp_pc s i = T_out"
proof -
  have e: "each_ok lib n args i [] (sp_arg s i) (sp_pc s i)" using inv f by (simp add: stop_inv_def)
  show ?thesis
  proof (cases "i < n \<and> \<not> a_dirigent (args i)")
    case True
    then have "stop_ok lib i [] (args i) (sp_arg s i) (sp_pc s i)" using e by (simp add: each_ok_def)
    then have "sp_arg s i = (args i)\<lparr>a_run := False\<rparr> \<and> sp_pc s i = T_exit"
      unfolding stop_ok_def using reset_run [of "sp_arg s i"] by simp
    with True show ?thesis by simp
  next
    case False
    then show ?thesis using e unfolding each_ok_def by (simp only: if_False)
  qed
qed

text \<open>C9. \<open>stop_workers\<close> returns. From a state in which the workers are in their loops with empty
mailboxes, and with a step that could be allocated: in no interleaving of the main thread and the workers
does an assertion fail or a null pointer is followed; from every state that is reached the main thread
can come to its end, so nobody waits for ever for an item, at the barrier of the step, which all the items
share, or for a thread to join; and no run is infinite. At the end every worker has left its loop and
returned, with \<open>run\<close> cleared, an empty mailbox and everything else in its \<open>struct arg\<close> as it was; the
dirigent is left alone, whatever its mailbox holds; an error of \<open>pthread_join\<close> is remembered, and keeps
none of the other workers from being stopped.\<close>

theorem stop_workers_ends:
  assumes "ready_workers n args pcs" and "0 \<le> mrc" and "0 \<le> crc"
    and "reach (\<lambda>s. s = stop_begin True True mrc crc n args pcs env) (stop_step (x86_arch lib) join_err) s"
  shows "\<not> sp_failed s \<and>
    (\<exists>t. (stop_step (x86_arch lib) join_err)\<^sup>*\<^sup>* s t \<and> sp_script t = []) \<and>
    \<not> (\<exists>f. f 0 = s \<and> (\<forall>i. stop_step (x86_arch lib) join_err (f i) (f (Suc i)))) \<and>
    (sp_script s = [] \<longrightarrow>
      (\<forall>i. if i < n \<and> \<not> a_dirigent (args i) then sp_arg s i = (args i)\<lparr>a_run := False\<rparr> \<and> sp_pc s i = T_exit
         else sp_arg s i = args i \<and> sp_pc s i = T_out) \<and>
      (sp_err s \<longleftrightarrow> (\<exists>i < n. \<not> a_dirigent (args i) \<and> join_err i \<noteq> 0)))"
proof -
  have "reach (stop_start mrc crc n args) (stop_step (x86_arch lib) join_err) s"
    by (rule reach_mono [OF assms(4)]) (use assms(1-3) in \<open>auto simp: stop_start_def\<close>)
  then have inv: "stop_inv lib join_err n args s" by (rule stop_run.reach_inv)
  have "\<not> sp_failed s" using inv by (simp add: stop_inv_def)
  moreover have "\<exists>t. (stop_step (x86_arch lib) join_err)\<^sup>*\<^sup>* s t \<and> sp_script t = []"
    by (rule stop_run.reaches_final [OF inv])
  moreover have "\<not> (\<exists>f. f 0 = s \<and> (\<forall>i. stop_step (x86_arch lib) join_err (f i) (f (Suc i))))"
    using stop_run.no_infinite_run [where lib = lib and join_err = join_err] inv by metis
  moreover have "sp_err s \<longleftrightarrow> (\<exists>i < n. \<not> a_dirigent (args i) \<and> join_err i \<noteq> 0)" if "sp_script s = []"
    using inv that by (simp add: stop_inv_def)
  ultimately show ?thesis using stop_inv_end [OF inv] by blast
qed

text \<open>Three workers, the second of which cannot be joined.\<close>

abbreviation demo_args :: "nat \<Rightarrow> (nat \<times> nat \<times> nat) stop_work arg" where
  "demo_args \<equiv> \<lambda>i. new_arg demo_system i {i} (of_nat i) True"

abbreviation "demo_pcs \<equiv> \<lambda>i. if i = 1 then T_enter else if i = 2 then T_wait else T_out"

theorem stop_workers_ends_witness:
  "\<exists>s. reach (\<lambda>s. s = stop_begin True True 0 0 3 demo_args demo_pcs (\<lambda>_. (0, 0, 0)))
      (stop_step (x86_arch Arch_X86.demo_lib) (\<lambda>i. if i = 1 then 3 else 0)) s \<and>
    sp_script s = [] \<and> a_run (sp_arg s 0) \<and> \<not> a_run (sp_arg s 1) \<and> sp_pc s 2 = T_exit \<and> sp_err s"
proof -
  let ?s = "stop_begin True True 0 0 3 demo_args demo_pcs (\<lambda>_. (0, 0, 0))"
  let ?step = "stop_step (x86_arch Arch_X86.demo_lib) (\<lambda>i. if i = 1 then 3 else 0)"
  have ready: "ready_workers 3 demo_args demo_pcs" by (auto simp: ready_workers_def new_arg_def in_loop_def)
  have r: "reach (\<lambda>s. s = ?s) ?step ?s" by (rule reach_init) simp
  obtain t where t: "?step\<^sup>*\<^sup>* ?s t" "sp_script t = []"
    using stop_workers_ends [OF ready _ _ r] by auto
  note rt = reach_steps [OF t(1) r]
  have e: "\<forall>i. if i < 3 \<and> \<not> a_dirigent (demo_args i) then sp_arg t i = (demo_args i)\<lparr>a_run := False\<rparr> \<and> sp_pc t i = T_exit
      else sp_arg t i = demo_args i \<and> sp_pc t i = T_out"
    "sp_err t \<longleftrightarrow> (\<exists>i < 3. \<not> a_dirigent (demo_args i) \<and> (if i = 1 then 3 else 0) \<noteq> (0 :: int))"
    using stop_workers_ends [OF ready order_refl order_refl rt, THEN conjunct2, THEN conjunct2, THEN conjunct2, THEN mp, OF t(2)]
    by blast+
  have "a_run (sp_arg t 0)" "\<not> a_run (sp_arg t 1)" "sp_pc t 2 = T_exit"
    using e(1) [rule_format, of 0] e(1) [rule_format, of 1] e(1) [rule_format, of 2] by (simp_all add: new_arg_def)
  moreover have "sp_err t" unfolding e(2) by (intro exI [of _ 1]) (simp add: new_arg_def)
  ultimately show ?thesis using rt t(2) by blast
qed

end
