(* ===== verification/Arch_X86_Config.thy ===== *)
theory Arch_X86_Config
  imports Arch_X86
begin

unbundle bit_operations_syntax

text \<open>
  The performance counters on x86_64 (\<open>include/arch.h\<close>) in every configuration that the file
  has code for, as functions of the configuration: the methods for Linux and for McKernel that the
  macros \<open>LINUX_*\<close> and \<open>MCK_*\<close> select, \<open>NO_LINUX\<close> and \<open>NO_MCK\<close> when none is defined. Theory
  \<open>Arch_X86\<close> is the configuration that is selected in the file.
\<close>

datatype linux_method = LINUX_JEVENTS | LINUX_PERF | LINUX_RAWMSR | NO_LINUX

datatype mck_method = MCK_MCK | MCK_RAWMSR | NO_MCK

record config =
  on_linux :: linux_method
  on_mck :: mck_method

definition RAWMSR :: "config \<Rightarrow> bool" where
  "RAWMSR cfg \<longleftrightarrow> on_linux cfg = LINUX_RAWMSR \<or> on_mck cfg = MCK_RAWMSR"


text \<open>
  What the other methods use of the system: the file with the registers of a CPU, \<open>cpuid\<close>, and the
  file descriptors of the kernel's events; \<open>stale_fd\<close> is what the memory for \<open>struct pmu\<close> holds in
  the field \<open>msr_fd\<close>. A write that fails is only reported; a read that fails leaves its target.
\<close>

record ('attr, 'ctx, 'e) msr_lib = "('attr, 'ctx, 'e) x86_lib" +
  stale_fd :: int
  open_msr :: "u32 \<Rightarrow> 'e \<Rightarrow> int \<times> 'e"
  pwrite8 :: "int \<Rightarrow> u32 \<Rightarrow> u64 \<Rightarrow> 'e \<Rightarrow> 'e"
  close_fd :: "int \<Rightarrow> 'e \<Rightarrow> 'e"
  cpuid :: "u32 \<Rightarrow> 'e \<Rightarrow> (u32 \<times> u32 \<times> u32 \<times> u32) \<times> 'e"
  perf_event_open :: "'attr \<Rightarrow> 'e \<Rightarrow> int \<times> 'e"
  ioctl_reset :: "int \<Rightarrow> 'e \<Rightarrow> 'e"
  read8 :: "int \<Rightarrow> 'e \<Rightarrow> u64 option \<times> 'e"

section \<open>Model-specific registers\<close>

definition wrmsr :: "('attr, 'ctx, 'e) msr_lib \<Rightarrow> u32 \<Rightarrow> u64 \<Rightarrow> int \<Rightarrow> 'e \<Rightarrow> 'e" where
  "wrmsr lib idx val fd e =
     (if mck_is_mckernel (syscall732 lib) then syscall851 lib idx val e else pwrite8 lib fd idx val e)"

definition IA32_PMC_BASE :: u32 where "IA32_PMC_BASE = 0x0c1"
definition IA32_PERFEVTSEL_BASE :: u32 where "IA32_PERFEVTSEL_BASE = 0x186"
definition IA32_PERF_GLOBAL_STATUS :: u32 where "IA32_PERF_GLOBAL_STATUS = 0x38e"
definition IA32_PERF_GLOBAL_OVF_CTRL :: u32 where "IA32_PERF_GLOBAL_OVF_CTRL = 0x390"
definition IA32_PERF_CAPABILITIES :: u32 where "IA32_PERF_CAPABILITIES = 0x345"
definition IA32_DEBUGCTL :: u32 where "IA32_DEBUGCTL = 0x1d9"

definition MASK :: "'a::len word \<Rightarrow> nat \<Rightarrow> nat \<Rightarrow> 'a word" where
  "MASK v high low = drop_bit low v AND (push_bit (high - low + 1) 1 - 1)"

lemma MASK_take_bit: "MASK v high low = take_bit (high - low + 1) (drop_bit low v)"
  by (simp add: MASK_def take_bit_eq_mask mask_eq_exp_minus_1 push_bit_eq_mult)

text \<open>\<open>struct pmu\<close>; of \<open>perf_fds\<close> the list holds the elements that have been opened.\<close>

record 'ctx msr_pmu = "'ctx x86_pmu" +
  perf_fds :: "int list"
  msr_fd :: int

text \<open>
  \<open>pmu_info\<close>; the numbers that it prints about the counters are its result. An indeterminate value
  must not be used.
\<close>

record pmu_caps =
  pc_version :: u32
  pc_counters :: u32
  pc_width :: u32
  pc_ffpc :: u32
  pc_ff_width :: u32

definition vmm_unfreeze :: "('attr, 'ctx, 'e) msr_lib \<Rightarrow> int \<Rightarrow> 'e \<Rightarrow> 'e outcome" where
  "vmm_unfreeze lib fd e =
     (case rdmsr lib IA32_PERF_CAPABILITIES fd e of
        (None, _) \<Rightarrow> Inl Undefined
      | (Some caps, e1) \<Rightarrow>
          if MASK caps 12 12 \<noteq> 0 then
            (case rdmsr lib IA32_DEBUGCTL fd e1 of
               (None, _) \<Rightarrow> Inl Undefined
             | (Some debugctl, e2) \<Rightarrow> Inr (wrmsr lib IA32_DEBUGCTL (debugctl AND NOT (push_bit 14 1)) fd e2))
          else Inr e1)"

definition pmu_info :: "('attr, 'ctx, 'e) msr_lib \<Rightarrow> 'ctx msr_pmu \<Rightarrow> 'e \<Rightarrow> (pmu_caps \<times> 'e) outcome" where
  "pmu_info lib p e =
     (case cpuid lib 1 e of ((eax, ebx, ecx, edx), e1) \<Rightarrow>
        and_then (if ecx AND push_bit 15 1 \<noteq> 0 then vmm_unfreeze lib (msr_fd p) e1 else Inr e1) (\<lambda>e2.
          case cpuid lib 0xa e2 of ((eax, ebx, ecx, edx), e3) \<Rightarrow>
            Inr (\<lparr>pc_version = MASK eax 7 0, pc_counters = MASK eax 15 8, pc_width = MASK eax 23 16,
                  pc_ffpc = MASK edx 4 0, pc_ff_width = MASK edx 12 5\<rparr>, e3)))"

section \<open>The events\<close>

definition event_select :: "u64 \<Rightarrow> u64" where
  "event_select conf = push_bit 22 1 OR push_bit 16 1 OR conf"

definition counted :: "'ctx msr_pmu \<Rightarrow> 'ctx msr_pmu" where
  "counted p = p\<lparr>active := Suc (active p)\<rparr>"

definition add_event ::
  "config \<Rightarrow> ('attr, 'ctx, 'e) msr_lib \<Rightarrow> nat \<Rightarrow> string \<Rightarrow> 'ctx msr_pmu \<times> 'e \<Rightarrow> 'ctx msr_pmu \<times> 'e"
where
  "add_event cfg lib i event s =
     (case resolve_event lib event of None \<Rightarrow> s
      | Some attr \<Rightarrow>
          let p = fst s; e = snd s;
              select = wrmsr lib (IA32_PERFEVTSEL_BASE + of_nat i) (event_select (attr_config lib attr)) (msr_fd p)
          in if mckernel p then
               (case on_mck cfg of
                  MCK_MCK \<Rightarrow>
                    (case mck_pmc_init lib (of_nat (active p)) (ucast (attr_config lib attr)) 4 e of
                       (err, e1) \<Rightarrow> if err \<noteq> 0 then (p, e1) else (counted p, e1))
                | MCK_RAWMSR \<Rightarrow> (counted p, select e)
                | NO_MCK \<Rightarrow> (counted p, e))
             else
               (case on_linux cfg of
                  LINUX_JEVENTS \<Rightarrow>
                    (case rdpmc_open_attr lib attr e of
                       (None, e1) \<Rightarrow> (p, e1)
                     | (Some c, e1) \<Rightarrow> (counted (p\<lparr>ctx := ctx p @ [c]\<rparr>), e1))
                | LINUX_PERF \<Rightarrow>
                    (case perf_event_open lib attr e of
                       (fd, e1) \<Rightarrow> if fd < 0 then (p, e1) else (counted (p\<lparr>perf_fds := perf_fds p @ [fd]\<rparr>), e1))
                | LINUX_RAWMSR \<Rightarrow> (counted p, select e)
                | NO_LINUX \<Rightarrow> (counted p, e)))"

definition add_events ::
  "config \<Rightarrow> ('attr, 'ctx, 'e) msr_lib \<Rightarrow> string list \<Rightarrow> nat \<Rightarrow> 'ctx msr_pmu \<times> 'e \<Rightarrow> ('ctx msr_pmu \<times> 'e) outcome"
where
  "add_events cfg lib names n =
     fold_res (\<lambda>i s. and_then (load names i) (\<lambda>event. Inr (add_event cfg lib i event s))) [0..<n]"

text \<open>The file of the registers is opened and the capabilities are read only with \<open>RAWMSR\<close>.\<close>

definition open_registers ::
  "config \<Rightarrow> ('attr, 'ctx, 'e) msr_lib \<Rightarrow> u32 \<Rightarrow> 'ctx msr_pmu \<times> 'e \<Rightarrow> ('ctx msr_pmu \<times> 'e) outcome"
where
  "open_registers cfg lib cp s =
     (if RAWMSR cfg then
        and_then
          (if \<not> mck_is_mckernel (syscall732 lib) then
             (case open_msr lib cp (snd s) of
                (fd, e) \<Rightarrow> if fd < 0 then Inl ExitFailure else Inr ((fst s)\<lparr>msr_fd := fd\<rparr>, e))
           else Inr s)
          (\<lambda>(p, e). and_then (pmu_info lib p e) (\<lambda>(_, e1). Inr (p, e1)))
      else Inr s)"

definition read_global ::
  "config \<Rightarrow> ('attr, 'ctx, 'e) msr_lib \<Rightarrow> 'ctx msr_pmu \<times> 'e \<Rightarrow> 'ctx msr_pmu \<times> 'e"
where
  "read_global cfg lib s =
     (if on_mck cfg = MCK_MCK \<or> RAWMSR cfg then
        (case rdmsr lib IA32_PERF_GLOBAL_CTRL (-1) (snd s) of (g, e) \<Rightarrow> ((fst s)\<lparr>global_ctrl := g\<rparr>, e))
      else s)"

definition counters_off ::
  "config \<Rightarrow> ('attr, 'ctx, 'e) msr_lib \<Rightarrow> 'ctx msr_pmu \<times> 'e \<Rightarrow> ('ctx msr_pmu \<times> 'e) outcome"
where
  "counters_off cfg lib s =
     (let p = fst s; e = snd s
      in if mckernel p then
           (case on_mck cfg of
              MCK_RAWMSR \<Rightarrow> Inr (p, wrmsr lib IA32_PERF_GLOBAL_CTRL 0 (msr_fd p) e)
            | MCK_MCK \<Rightarrow>
                if global_ctrl p = Some 0
                then and_then (active_mask (active p)) (\<lambda>m. Inr (p, wrmsr lib IA32_PERF_GLOBAL_CTRL m (-1) e))
                else Inr s
            | NO_MCK \<Rightarrow> Inr s)
         else if on_linux cfg = LINUX_RAWMSR then Inr (p, wrmsr lib IA32_PERF_GLOBAL_CTRL 0 (msr_fd p) e)
         else Inr s)"

definition pmu_init ::
  "config \<Rightarrow> ('attr, 'ctx, 'e) msr_lib \<Rightarrow> string list \<Rightarrow> u32 \<Rightarrow> u32 \<Rightarrow> 'e \<Rightarrow> ('ctx msr_pmu \<times> 'e) outcome"
where
  "pmu_init cfg lib names n cp e =
     and_then
       (open_registers cfg lib cp
         (\<lparr>ctx = [], active = 0, mckernel = mck_is_mckernel (syscall732 lib), global_ctrl = None,
           perf_fds = [], msr_fd = stale_fd lib\<rparr>, e))
       (\<lambda>s. and_then (add_events cfg lib names (unat n) (read_global cfg lib s)) (counters_off cfg lib))"

section \<open>Freeing\<close>

definition free_event ::
  "config \<Rightarrow> ('attr, 'ctx, 'e) msr_lib \<Rightarrow> 'ctx msr_pmu \<Rightarrow> nat \<Rightarrow> 'e \<Rightarrow> 'e outcome"
where
  "free_event cfg lib p i e =
     (case on_linux cfg of
        LINUX_JEVENTS \<Rightarrow> and_then (load (ctx p) i) (\<lambda>c. Inr (rdpmc_close lib c e))
      | LINUX_PERF \<Rightarrow> and_then (load (perf_fds p) i) (\<lambda>fd. Inr (close_fd lib fd e))
      | LINUX_RAWMSR \<Rightarrow> Inr (wrmsr lib (IA32_PERFEVTSEL_BASE + of_nat i) 0 (msr_fd p) e)
      | NO_LINUX \<Rightarrow> Inr e)"

definition restore_global :: "('attr, 'ctx, 'e) msr_lib \<Rightarrow> 'ctx msr_pmu \<Rightarrow> 'e \<Rightarrow> 'e outcome" where
  "restore_global lib p e =
     (case global_ctrl p of None \<Rightarrow> Inl Undefined
      | Some g \<Rightarrow> Inr (wrmsr lib IA32_PERF_GLOBAL_CTRL g (msr_fd p) e))"

definition pmu_free :: "config \<Rightarrow> ('attr, 'ctx, 'e) msr_lib \<Rightarrow> 'ctx msr_pmu \<Rightarrow> 'e \<Rightarrow> 'e outcome" where
  "pmu_free cfg lib p e =
     (if \<not> mckernel p then
        and_then (fold_res (free_event cfg lib p) [0..<active p] e) (\<lambda>e1.
          if on_linux cfg = LINUX_RAWMSR
          then and_then (restore_global lib p e1) (\<lambda>e2. Inr (close_fd lib (msr_fd p) e2))
          else Inr e1)
      else restore_global lib p e)"

section \<open>Before and after the call\<close>

text \<open>The raw counters start at zero: they are cleared, and then enabled together.\<close>

definition clear_event :: "config \<Rightarrow> ('attr, 'ctx, 'e) msr_lib \<Rightarrow> 'ctx msr_pmu \<Rightarrow> nat \<Rightarrow> 'e \<Rightarrow> 'e" where
  "clear_event cfg lib p i e =
     (if mckernel p then
        (case on_mck cfg of
           MCK_MCK \<Rightarrow> mck_pmc_reset lib (of_nat i) e
         | MCK_RAWMSR \<Rightarrow> wrmsr lib (IA32_PMC_BASE + of_nat i) 0 (-1) e
         | NO_MCK \<Rightarrow> e)
      else if on_linux cfg = LINUX_RAWMSR then wrmsr lib (IA32_PMC_BASE + of_nat i) 0 (msr_fd p) e
      else e)"

definition raw_pmu :: "config \<Rightarrow> 'ctx msr_pmu \<Rightarrow> bool" where
  "raw_pmu cfg p \<longleftrightarrow> (if mckernel p then on_mck cfg = MCK_RAWMSR else on_linux cfg = LINUX_RAWMSR)"

definition enable_all :: "('attr, 'ctx, 'e) msr_lib \<Rightarrow> 'ctx msr_pmu \<Rightarrow> 'e \<Rightarrow> 'e outcome" where
  "enable_all lib p e =
     and_then (active_mask (active p)) (\<lambda>mask.
       Inr (wrmsr lib IA32_PERF_GLOBAL_CTRL mask (msr_fd p) (wrmsr lib IA32_PERF_GLOBAL_OVF_CTRL 0 (msr_fd p) e)))"

definition reset_fd :: "('attr, 'ctx, 'e) msr_lib \<Rightarrow> 'ctx msr_pmu \<Rightarrow> nat \<Rightarrow> 'e \<Rightarrow> 'e outcome" where
  "reset_fd lib p i e = and_then (load (perf_fds p) i) (\<lambda>fd. Inr (ioctl_reset lib fd e))"

definition pmu_begin ::
  "config \<Rightarrow> ('attr, 'ctx, 'e) msr_lib \<Rightarrow> 'ctx msr_pmu \<Rightarrow> nat \<Rightarrow> u64 list \<times> 'e \<Rightarrow> (u64 list \<times> 'e) outcome"
where
  "pmu_begin cfg lib p k s =
     (if \<not> mckernel p \<and> on_linux cfg = LINUX_JEVENTS then slot_loop (\<lambda>i _ e. rdpmc_read lib (ctx p ! i) e) k (active p) s
      else if \<not> mckernel p \<and> on_linux cfg = LINUX_PERF then
        and_then (fold_res (reset_fd lib p) [0..<active p] (snd s)) (\<lambda>e. Inr (fst s, e))
      else
        let e = fold (clear_event cfg lib p) [0..<active p] (snd s)
        in if raw_pmu cfg p then and_then (enable_all lib p e) (\<lambda>e1. Inr (fst s, e1)) else Inr (fst s, e))"

definition disable_all :: "('attr, 'ctx, 'e) msr_lib \<Rightarrow> 'ctx msr_pmu \<Rightarrow> 'e \<Rightarrow> 'e outcome" where
  "disable_all lib p e =
     (case rdmsr lib IA32_PERF_GLOBAL_STATUS (msr_fd p) (wrmsr lib IA32_PERF_GLOBAL_CTRL 0 (msr_fd p) e) of
        (None, _) \<Rightarrow> Inl Undefined
      | (Some ovf, e1) \<Rightarrow> Inr (if ovf \<noteq> 0 then wrmsr lib IA32_PERF_GLOBAL_OVF_CTRL 0 (msr_fd p) e1 else e1))"

text \<open>What is stored for a counter, \<open>x\<close> being what \<open>data[i]\<close> holds.\<close>

definition read_raw :: "('attr, 'ctx, 'e) msr_lib \<Rightarrow> 'ctx msr_pmu \<Rightarrow> nat \<Rightarrow> 'e \<Rightarrow> (u64 \<times> 'e) outcome" where
  "read_raw lib p i e =
     (case rdmsr lib (IA32_PMC_BASE + of_nat i) (msr_fd p) e of
        (None, _) \<Rightarrow> Inl Undefined | (Some v, e1) \<Rightarrow> Inr (v, e1))"

definition read_event ::
  "config \<Rightarrow> ('attr, 'ctx, 'e) msr_lib \<Rightarrow> 'ctx msr_pmu \<Rightarrow> nat \<Rightarrow> u64 \<Rightarrow> 'e \<Rightarrow> (u64 \<times> 'e) outcome"
where
  "read_event cfg lib p i x e =
     (if mckernel p then
        (case on_mck cfg of
           MCK_MCK \<Rightarrow> Inr (rdpmc lib (of_nat i) e)
         | MCK_RAWMSR \<Rightarrow> read_raw lib p i e
         | NO_MCK \<Rightarrow> Inr (x, e))
      else
        (case on_linux cfg of
           LINUX_JEVENTS \<Rightarrow> Inr (map_prod (\<lambda>v. v - x) id (rdpmc_read lib (ctx p ! i) e))
         | LINUX_PERF \<Rightarrow>
             and_then (load (perf_fds p) i) (\<lambda>fd.
               case read8 lib fd e of (None, e1) \<Rightarrow> Inr (x, e1) | (Some v, e1) \<Rightarrow> Inr (v, e1))
         | LINUX_RAWMSR \<Rightarrow> read_raw lib p i e
         | NO_LINUX \<Rightarrow> Inr (x, e)))"

definition no_method :: "config \<Rightarrow> 'ctx msr_pmu \<Rightarrow> bool" where
  "no_method cfg p \<longleftrightarrow> (if mckernel p then on_mck cfg = NO_MCK else on_linux cfg = NO_LINUX)"

definition end_slot ::
  "config \<Rightarrow> ('attr, 'ctx, 'e) msr_lib \<Rightarrow> 'ctx msr_pmu \<Rightarrow> nat \<Rightarrow> nat \<Rightarrow> u64 list \<times> 'e \<Rightarrow> (u64 list \<times> 'e) outcome"
where
  "end_slot cfg lib p k i s =
     (if no_method cfg p then Inr s
      else and_then (load (fst s) (k + i)) (\<lambda>x. and_then (read_event cfg lib p i x (snd s)) (\<lambda>(v, e).
        and_then (store (fst s) (k + i) v) (\<lambda>d. Inr (d, e)))))"

definition pmu_end ::
  "config \<Rightarrow> ('attr, 'ctx, 'e) msr_lib \<Rightarrow> 'ctx msr_pmu \<Rightarrow> nat \<Rightarrow> u64 list \<times> 'e \<Rightarrow> (u64 list \<times> 'e) outcome"
where
  "pmu_end cfg lib p k s =
     and_then (if raw_pmu cfg p then disable_all lib p (snd s) else Inr (snd s)) (\<lambda>e.
       fold_res (end_slot cfg lib p k) [0..<active p] (fst s, e))"


section \<open>The selected configuration\<close>


lemma truncate_sel [simp]:
  "ctx (x86_pmu.truncate p) = ctx p" "active (x86_pmu.truncate p) = active p"
  "mckernel (x86_pmu.truncate p) = mckernel p" "global_ctrl (x86_pmu.truncate p) = global_ctrl p"
  by (simp_all add: x86_pmu.truncate_def)












section \<open>What initialisation leaves\<close>

definition fds_ok :: "config \<Rightarrow> 'ctx msr_pmu \<Rightarrow> bool" where
  "fds_ok cfg p \<longleftrightarrow> (\<not> mckernel p \<longrightarrow>
     (on_linux cfg = LINUX_JEVENTS \<longrightarrow> length (ctx p) = active p) \<and>
     (on_linux cfg = LINUX_PERF \<longrightarrow> length (perf_fds p) = active p))"

definition same_pmu :: "'ctx msr_pmu \<Rightarrow> 'ctx msr_pmu \<Rightarrow> bool" where
  "same_pmu p q \<longleftrightarrow> mckernel p = mckernel q \<and> global_ctrl p = global_ctrl q \<and> msr_fd p = msr_fd q"

lemma counted_simps [simp]:
  "ctx (counted p) = ctx p" "active (counted p) = Suc (active p)" "mckernel (counted p) = mckernel p"
  "global_ctrl (counted p) = global_ctrl p" "perf_fds (counted p) = perf_fds p" "msr_fd (counted p) = msr_fd p"
  by (simp_all add: counted_def)

lemma add_event_keeps:
  assumes "add_event cfg lib i event s = t" and "fds_ok cfg (fst s)"
  shows "fds_ok cfg (fst t) \<and> same_pmu (fst t) (fst s)"
  using assms
  by (auto simp: add_event_def fds_ok_def same_pmu_def Let_def
      split: option.splits prod.splits mck_method.splits linux_method.splits if_splits)

lemma add_events_keep:
  assumes "add_events cfg lib names n s = Inr t" and "fds_ok cfg (fst s)"
  shows "fds_ok cfg (fst t) \<and> same_pmu (fst t) (fst s)"
proof (rule fold_res_inv [OF assms(1) [unfolded add_events_def], where P = "\<lambda>t. fds_ok cfg (fst t) \<and> same_pmu (fst t) (fst s)"])
  fix i u v
  assume "fds_ok cfg (fst u) \<and> same_pmu (fst u) (fst s)"
    and "and_then (load names i) (\<lambda>event. Inr (add_event cfg lib i event u)) = Inr v"
  with add_event_keeps [of cfg lib i _ u v] show "fds_ok cfg (fst v) \<and> same_pmu (fst v) (fst s)"
    by (auto simp: and_then_Inr_iff same_pmu_def)
qed (use assms(2) in \<open>simp add: same_pmu_def\<close>)

lemma pmu_init_parts:
  assumes "pmu_init cfg lib names n cp e = Inr (p, e1)"
  obtains p0 e0 p2 e2 where "active p0 = 0" "global_ctrl p0 = None" "fds_ok cfg p0" "mckernel p0 = mck_is_mckernel (syscall732 lib)"
    "RAWMSR cfg \<and> \<not> mckernel p0 \<longrightarrow> 0 \<le> msr_fd p0"
    "add_events cfg lib names (unat n) (read_global cfg lib (p0, e0)) = Inr (p2, e2)"
    "counters_off cfg lib (p2, e2) = Inr (p, e1)" "p = p2"
proof -
  let ?p = "\<lparr>ctx = [], active = 0, mckernel = mck_is_mckernel (syscall732 lib), global_ctrl = None,
     perf_fds = [], msr_fd = stale_fd lib\<rparr>"
  obtain p0 e0 p2 e2 where 1: "open_registers cfg lib cp (?p, e) = Inr (p0, e0)"
    "add_events cfg lib names (unat n) (read_global cfg lib (p0, e0)) = Inr (p2, e2)"
    "counters_off cfg lib (p2, e2) = Inr (p, e1)"
    using assms by (auto simp: pmu_init_def and_then_Inr_iff)
  have "\<exists>fd. p0 = ?p\<lparr>msr_fd := fd\<rparr> \<and> (RAWMSR cfg \<and> \<not> mckernel p0 \<longrightarrow> 0 \<le> fd)"
    using 1(1) by (auto simp: open_registers_def and_then_Inr_iff split: if_splits prod.splits)
  moreover have "p = p2"
    using 1(3) by (auto simp: counters_off_def Let_def and_then_Inr_iff split: if_splits mck_method.splits)
  ultimately show ?thesis by (intro that [of p0 e0 p2 e2]) (use 1 in \<open>auto simp: fds_ok_def\<close>)
qed

lemma read_global_fst:
  "fst (read_global cfg lib (p, e)) = p\<lparr>global_ctrl :=
     if on_mck cfg = MCK_MCK \<or> RAWMSR cfg then fst (rdmsr lib IA32_PERF_GLOBAL_CTRL (-1) e) else global_ctrl p\<rparr>"
  by (simp add: read_global_def split: prod.split)

lemma rdmsr_fails:
  assumes "\<forall>idx e. pread8 lib (-1) idx e = None"
  shows "fst (rdmsr lib idx (-1) e) = None \<longleftrightarrow> \<not> mck_is_mckernel (syscall732 lib)"
  using assms by (simp add: rdmsr_def split: prod.split)

lemma pmu_init_keeps:
  assumes "pmu_init cfg lib names n cp e = Inr (p, e1)" and "\<forall>idx e. pread8 lib (-1) idx e = None"
  shows "fds_ok cfg p" and "mckernel p = mck_is_mckernel (syscall732 lib)"
    and "global_ctrl p = None \<longleftrightarrow> \<not> (mckernel p \<and> (on_mck cfg = MCK_MCK \<or> RAWMSR cfg))"
proof -
  obtain p0 e0 e4 where i: "fds_ok cfg p0" "mckernel p0 = mck_is_mckernel (syscall732 lib)" "global_ctrl p0 = None"
      "add_events cfg lib names (unat n) (read_global cfg lib (p0, e0)) = Inr (p, e4)"
    by (rule pmu_init_parts [OF assms(1)]) blast
  have "fds_ok cfg (fst (read_global cfg lib (p0, e0)))" using i(1) by (simp add: read_global_fst fds_ok_def)
  note keep = add_events_keep [OF i(4) this]
  then show "fds_ok cfg p" "mckernel p = mck_is_mckernel (syscall732 lib)"
    using i(2) by (simp_all add: same_pmu_def read_global_fst)
  with keep show "global_ctrl p = None \<longleftrightarrow> \<not> (mckernel p \<and> (on_mck cfg = MCK_MCK \<or> RAWMSR cfg))"
    using i(3) rdmsr_fails [OF assms(2)] by (auto simp: same_pmu_def read_global_fst)
qed

lemma free_events:
  assumes "fds_ok cfg p" and "\<not> mckernel p"
  shows "\<exists>e3. fold_res (free_event cfg lib p) [0..<active p] e = Inr e3"
proof -
  have "\<exists>e3. fold_res (free_event cfg lib p) [0..<active p] e = Inr e3 \<and> True"
    by (rule fold_res_upt_inv) (use assms in \<open>auto simp: free_event_def fds_ok_def split: linux_method.split\<close>)
  then show ?thesis by blast
qed

text \<open>C23. Freeing the counters, in every configuration that the file has code for, whatever the
initialisation has made of the requested events: contexts and file descriptors are closed if they
were opened, and only those. It uses a value that was never read exactly when the method for Linux
is \<open>LINUX_RAWMSR\<close>, since the control register is read with the file descriptor -1, on which every
read fails, and when there is no method at all for McKernel.\<close>

theorem pmu_free_result:
  assumes "pmu_init cfg lib names n cp e = Inr (p, e1)" and "\<forall>idx e. pread8 lib (-1) idx e = None"
  shows "(\<exists>e3. pmu_free cfg lib p e2 = Inr e3) \<longleftrightarrow>
    (if mck_is_mckernel (syscall732 lib) then on_mck cfg \<noteq> NO_MCK \<or> on_linux cfg = LINUX_RAWMSR
     else on_linux cfg \<noteq> LINUX_RAWMSR)"
proof (cases "mckernel p")
  case True
  have g: "global_ctrl p = None \<longleftrightarrow> on_mck cfg = NO_MCK \<and> on_linux cfg \<noteq> LINUX_RAWMSR"
    unfolding pmu_init_keeps(3) [OF assms] RAWMSR_def by (cases "on_mck cfg") (simp_all add: True)
  have "(\<exists>e3. pmu_free cfg lib p e2 = Inr e3) \<longleftrightarrow> global_ctrl p \<noteq> None"
    using True by (cases "global_ctrl p") (simp_all add: pmu_free_def restore_global_def)
  moreover have "mck_is_mckernel (syscall732 lib)" using True pmu_init_keeps(2) [OF assms] by simp
  ultimately show ?thesis unfolding g by simp
next
  case False
  obtain e3 where "fold_res (free_event cfg lib p) [0..<active p] e2 = Inr e3"
    using free_events [OF pmu_init_keeps(1) [OF assms] False, of lib e2] by blast
  moreover have "global_ctrl p = None" using False pmu_init_keeps(3) [OF assms] by simp
  ultimately have "(\<exists>e3. pmu_free cfg lib p e2 = Inr e3) \<longleftrightarrow> on_linux cfg \<noteq> LINUX_RAWMSR"
    using False by (simp add: pmu_free_def restore_global_def)
  moreover have "\<not> mck_is_mckernel (syscall732 lib)" using False pmu_init_keeps(2) [OF assms] by simp
  ultimately show ?thesis by simp
qed

section \<open>The raw counters under Linux\<close>

text \<open>
  The file of the registers behind an open descriptor: a register holds what was written last, but
  for the status of the overflows, which the hardware sets and the register beside it clears.
\<close>

definition status_regs :: "u32 set" where
  "status_regs = {IA32_PERF_GLOBAL_STATUS, IA32_PERF_GLOBAL_OVF_CTRL}"

definition msr_file :: "('attr, 'ctx, 'e) msr_lib \<Rightarrow> bool" where
  "msr_file lib \<longleftrightarrow> (\<forall>fd \<ge> 0. \<forall>idx j v e. idx \<notin> status_regs \<longrightarrow>
     pread8 lib fd idx (pwrite8 lib fd j v e) = (if idx = j then Some v else pread8 lib fd idx e))"

lemma msr_file_write:
  assumes "msr_file lib" and "0 \<le> fd" and "idx \<notin> status_regs"
  shows "pread8 lib fd idx (pwrite8 lib fd j v e) = (if idx = j then Some v else pread8 lib fd idx e)"
  using assms by (simp add: msr_file_def)

text \<open>The registers of the first 32 counters are different from each other and from the control register.\<close>

lemma reg_less:
  assumes "b \<le> 0x300" and "i < 32"
  shows "unat (of_nat b + of_nat i :: u32) = b + i"
proof -
  have "b + i < 2 ^ 32" using assms by simp
  from unat_of_nat32 [OF this] show ?thesis by simp
qed

lemma regs_differ:
  assumes "i < 32" and "j < 32"
  shows "IA32_PERFEVTSEL_BASE + of_nat i = IA32_PERFEVTSEL_BASE + of_nat j \<longleftrightarrow> i = j"
    "IA32_PMC_BASE + of_nat i = IA32_PMC_BASE + of_nat j \<longleftrightarrow> i = j"
    "IA32_PERFEVTSEL_BASE + of_nat i \<noteq> IA32_PMC_BASE + of_nat j"
    "IA32_PERFEVTSEL_BASE + of_nat i \<noteq> IA32_PERF_GLOBAL_CTRL" "IA32_PMC_BASE + of_nat i \<noteq> IA32_PERF_GLOBAL_CTRL"
    "IA32_PERFEVTSEL_BASE + of_nat i \<noteq> IA32_PERF_GLOBAL_OVF_CTRL" "IA32_PMC_BASE + of_nat i \<noteq> IA32_PERF_GLOBAL_OVF_CTRL"
    "IA32_PERFEVTSEL_BASE + of_nat i \<notin> status_regs" "IA32_PMC_BASE + of_nat i \<notin> status_regs"
  using assms reg_less [of "0x186" i] reg_less [of "0x186" j] reg_less [of "0xc1" i] reg_less [of "0xc1" j]
  by (simp_all add: word_unat_eq_iff status_regs_def IA32_PERFEVTSEL_BASE_def IA32_PMC_BASE_def
      IA32_PERF_GLOBAL_CTRL_def IA32_PERF_GLOBAL_OVF_CTRL_def IA32_PERF_GLOBAL_STATUS_def)

text \<open>The events: \<open>resolved\<close> counts the names among the first \<open>n\<close> that are known.\<close>

definition resolved :: "('attr, 'ctx, 'e) msr_lib \<Rightarrow> string list \<Rightarrow> nat \<Rightarrow> nat" where
  "resolved lib names n = length (filter (\<lambda>i. resolve_event lib (names ! i) \<noteq> None) [0..<n])"

lemma resolved_Suc:
  "resolved lib names (Suc n) = (if resolve_event lib (names ! n) = None then resolved lib names n else Suc (resolved lib names n))"
  by (simp add: resolved_def)

lemma resolved_le: "resolved lib names n \<le> n"
  unfolding resolved_def using length_filter_le [of _ "[0..<n]"] by (metis length_upt minus_nat.diff_0)

definition selects :: "('attr, 'ctx, 'e) msr_lib \<Rightarrow> int \<Rightarrow> string list \<Rightarrow> nat \<Rightarrow> 'e \<Rightarrow> bool" where
  "selects lib fd names n e \<longleftrightarrow> (\<forall>i < n. \<forall>attr. resolve_event lib (names ! i) = Some attr \<longrightarrow>
     pread8 lib fd (IA32_PERFEVTSEL_BASE + of_nat i) e = Some (event_select (attr_config lib attr)))"

lemma raw_events:
  assumes "on_linux cfg = LINUX_RAWMSR" and "\<not> mck_is_mckernel (syscall732 lib)" and "msr_file lib"
    and "\<not> mckernel p0" and "0 \<le> msr_fd p0" and "active p0 = 0" and "n \<le> 32"
    and "add_events cfg lib names n (p0, e0) = Inr (p, e)"
  shows "active p = resolved lib names n \<and> msr_fd p = msr_fd p0 \<and> \<not> mckernel p \<and> selects lib (msr_fd p0) names n e"
  using assms(7,8)
proof (induction n arbitrary: p e)
  case 0
  then show ?case using assms(4,6) by (simp add: add_events_def selects_def resolved_def)
next
  case (Suc n)
  obtain p1 e1 where 1: "add_events cfg lib names n (p0, e0) = Inr (p1, e1)" "n < length names"
    "add_event cfg lib n (names ! n) (p1, e1) = (p, e)"
    using Suc.prems(2)
    by (auto simp: add_events_def fold_res_upt_Suc and_then_Inr_iff load_def simp del: upt_Suc split: if_splits)
  have IH: "active p1 = resolved lib names n" "msr_fd p1 = msr_fd p0" "\<not> mckernel p1" "selects lib (msr_fd p0) names n e1"
    using Suc.IH [OF _ 1(1)] Suc.prems(1) by simp_all
  show ?case
  proof (cases "resolve_event lib (names ! n)")
    case None
    then show ?thesis using 1(3) IH by (auto simp: add_event_def resolved_Suc selects_def less_Suc_eq)
  next
    case (Some attr)
    then have p: "p = counted p1"
      "e = pwrite8 lib (msr_fd p0) (IA32_PERFEVTSEL_BASE + of_nat n) (event_select (attr_config lib attr)) e1"
      using 1(3) IH assms(1,2) by (auto simp: add_event_def wrmsr_def Let_def)
    have "pread8 lib (msr_fd p0) (IA32_PERFEVTSEL_BASE + of_nat i) e =
        (if i = n then Some (event_select (attr_config lib attr)) else pread8 lib (msr_fd p0) (IA32_PERFEVTSEL_BASE + of_nat i) e1)"
      if "i < Suc n" for i
    proof -
      have i: "i < 32" "n < 32" using that Suc.prems(1) by simp_all
      show ?thesis unfolding p(2) msr_file_write [OF assms(3,5) regs_differ(8) [OF i]] regs_differ(1) [OF i] ..
    qed
    then show ?thesis using IH Some by (auto simp: p(1) resolved_Suc selects_def less_Suc_eq)
  qed
qed

lemma raw_clear:
  assumes "on_linux cfg = LINUX_RAWMSR" and "\<not> mck_is_mckernel (syscall732 lib)" and "msr_file lib"
    and "\<not> mckernel p" and "0 \<le> msr_fd p" and "n \<le> 32" and "i < 32"
  shows "pread8 lib (msr_fd p) (IA32_PMC_BASE + of_nat i) (fold (clear_event cfg lib p) [0..<n] e) =
      (if i < n then Some 0 else pread8 lib (msr_fd p) (IA32_PMC_BASE + of_nat i) e) \<and>
    pread8 lib (msr_fd p) (IA32_PERFEVTSEL_BASE + of_nat i) (fold (clear_event cfg lib p) [0..<n] e) =
      pread8 lib (msr_fd p) (IA32_PERFEVTSEL_BASE + of_nat i) e"
  using assms(6)
proof (induction n)
  case (Suc n)
  then have n: "n < 32" by simp
  have c: "clear_event cfg lib p n e1 = pwrite8 lib (msr_fd p) (IA32_PMC_BASE + of_nat n) 0 e1" for e1
    using assms(1,2,4) by (simp add: clear_event_def wrmsr_def)
  note w = msr_file_write [OF assms(3,5) regs_differ(9) [OF assms(7) n]] msr_file_write [OF assms(3,5) regs_differ(8) [OF assms(7) n]]
  show ?case
    using Suc.IH n regs_differ(2,3) [OF assms(7) n] by (simp add: c w less_Suc_eq)
qed simp

lemma raw_begin:
  assumes "on_linux cfg = LINUX_RAWMSR" and "\<not> mck_is_mckernel (syscall732 lib)" and "msr_file lib"
    and "\<not> mckernel p" and "0 \<le> msr_fd p" and "pmu_begin cfg lib p k (d, e1) = Inr (d1, e2)"
  shows "d1 = d" and "active p < 31"
    and "i < active p \<Longrightarrow> pread8 lib (msr_fd p) (IA32_PMC_BASE + of_nat i) e2 = Some 0"
    and "i < 32 \<Longrightarrow> pread8 lib (msr_fd p) (IA32_PERFEVTSEL_BASE + of_nat i) e2 =
      pread8 lib (msr_fd p) (IA32_PERFEVTSEL_BASE + of_nat i) e1"
    and "pread8 lib (msr_fd p) IA32_PERF_GLOBAL_CTRL e2 = Some (push_bit (active p) 1 - 1)"
proof -
  let ?e = "fold (clear_event cfg lib p) [0..<active p] e1"
  have e2: "d1 = d" "active p < 31"
    "e2 = pwrite8 lib (msr_fd p) IA32_PERF_GLOBAL_CTRL (push_bit (active p) 1 - 1)
       (pwrite8 lib (msr_fd p) IA32_PERF_GLOBAL_OVF_CTRL 0 ?e)"
    using assms(1,2,4,6)
    by (auto simp: pmu_begin_def raw_pmu_def enable_all_def active_mask_def wrmsr_def Let_def split: if_splits)
  then show "d1 = d" "active p < 31" by simp_all
  have g: "IA32_PERF_GLOBAL_CTRL \<notin> status_regs"
    by (simp add: status_regs_def IA32_PERF_GLOBAL_CTRL_def IA32_PERF_GLOBAL_STATUS_def IA32_PERF_GLOBAL_OVF_CTRL_def)
  show "pread8 lib (msr_fd p) IA32_PERF_GLOBAL_CTRL e2 = Some (push_bit (active p) 1 - 1)"
    unfolding e2(3) msr_file_write [OF assms(3,5) g] by simp
  note clear = raw_clear [OF assms(1-5), of "active p"]
  have keep: "pread8 lib (msr_fd p) idx e2 = pread8 lib (msr_fd p) idx ?e"
    if "idx \<notin> status_regs" "idx \<noteq> IA32_PERF_GLOBAL_CTRL" "idx \<noteq> IA32_PERF_GLOBAL_OVF_CTRL" for idx
    unfolding e2(3) msr_file_write [OF assms(3,5) that(1)] using that(2,3) by simp
  show "pread8 lib (msr_fd p) (IA32_PMC_BASE + of_nat i) e2 = Some 0" if "i < active p"
  proof -
    have i: "i < 32" using that e2(2) by simp
    show ?thesis
      unfolding keep [OF regs_differ(9) [OF i i] regs_differ(5) [OF i i] regs_differ(7) [OF i i]]
      using clear [OF _ i] that e2(2) by simp
  qed
  show "pread8 lib (msr_fd p) (IA32_PERFEVTSEL_BASE + of_nat i) e2 =
      pread8 lib (msr_fd p) (IA32_PERFEVTSEL_BASE + of_nat i) e1" if i: "i < 32"
    unfolding keep [OF regs_differ(8) [OF i i] regs_differ(4) [OF i i] regs_differ(6) [OF i i]]
    using clear [OF _ i] e2(2) by simp
qed

lemma raw_end_slots:
  assumes "on_linux cfg = LINUX_RAWMSR" and "\<not> mck_is_mckernel (syscall732 lib)" and "\<not> mckernel p"
    and "fold_res (end_slot cfg lib p k) [0..<n] (d, e) = Inr (d2, e2)"
  shows "e2 = e \<and> length d2 = length d \<and>
    (\<forall>i < n. pread8 lib (msr_fd p) (IA32_PMC_BASE + of_nat i) e = Some (d2 ! (k + i))) \<and>
    (\<forall>j. j < k \<or> k + n \<le> j \<longrightarrow> d2 ! j = d ! j)"
  using assms(4)
proof (induction n arbitrary: d2 e2)
  case (Suc n)
  obtain d1 e1 where 1: "fold_res (end_slot cfg lib p k) [0..<n] (d, e) = Inr (d1, e1)"
    "end_slot cfg lib p k n (d1, e1) = Inr (d2, e2)"
    using Suc.prems by (auto simp: fold_res_upt_Suc and_then_Inr_iff simp del: upt_Suc)
  note IH = Suc.IH [OF 1(1)]
  obtain v where v: "pread8 lib (msr_fd p) (IA32_PMC_BASE + of_nat n) e1 = Some v" "e2 = e1"
    "k + n < length d1" "d2 = d1[k + n := v]"
    using 1(2) assms(1-3)
    by (auto simp: end_slot_def no_method_def read_event_def read_raw_def rdmsr_def load_def store_def and_then_Inr_iff
        split: if_splits option.splits)
  show ?case using IH v by (auto simp: less_Suc_eq nth_list_update)
qed simp

lemma raw_end:
  assumes "on_linux cfg = LINUX_RAWMSR" and "\<not> mck_is_mckernel (syscall732 lib)" and "msr_file lib"
    and "\<not> mckernel p" and "0 \<le> msr_fd p" and "active p \<le> 32" and "pmu_end cfg lib p k (d, e3) = Inr (d2, e4)"
  shows "length d2 = length d \<and>
    (\<forall>i < active p. pread8 lib (msr_fd p) (IA32_PMC_BASE + of_nat i) e3 = Some (d2 ! (k + i))) \<and>
    (\<forall>j. j < k \<or> k + active p \<le> j \<longrightarrow> d2 ! j = d ! j)"
proof -
  obtain e where e: "disable_all lib p e3 = Inr e" "fold_res (end_slot cfg lib p k) [0..<active p] (d, e) = Inr (d2, e4)"
    using assms(1,4,7) by (auto simp: pmu_end_def raw_pmu_def and_then_Inr_iff)
  have "pread8 lib (msr_fd p) (IA32_PMC_BASE + of_nat i) e = pread8 lib (msr_fd p) (IA32_PMC_BASE + of_nat i) e3"
    if "i < active p" for i
  proof -
    have i: "i < 32" using that assms(6) by simp
    show ?thesis
      using e(1) assms(2) regs_differ(5,7) [OF i i] msr_file_write [OF assms(3,5) regs_differ(9) [OF i i]]
      by (auto simp: disable_all_def rdmsr_def wrmsr_def split: option.splits if_splits)
  qed
  with raw_end_slots [OF assms(1,2,4) e(2)] show ?thesis by simp
qed

lemma raw_init:
  assumes "on_linux cfg = LINUX_RAWMSR" and "\<not> mck_is_mckernel (syscall732 lib)" and "msr_file lib"
    and "unat n \<le> 32" and "pmu_init cfg lib names n cp e = Inr (p, e1)"
  shows "active p = resolved lib names (unat n) \<and> \<not> mckernel p \<and> 0 \<le> msr_fd p \<and> selects lib (msr_fd p) names (unat n) e1"
proof -
  obtain p0 e0 e4 where i: "active p0 = 0" "\<not> mckernel p0" "0 \<le> msr_fd p0"
      "add_events cfg lib names (unat n) (read_global cfg lib (p0, e0)) = Inr (p, e4)"
      "counters_off cfg lib (p, e4) = Inr (p, e1)"
    by (rule pmu_init_parts [OF assms(5)]) (use assms(1,2) in \<open>auto simp: RAWMSR_def\<close>)
  obtain q f where q: "read_global cfg lib (p0, e0) = (q, f)" by fastforce
  then have "active q = 0" "\<not> mckernel q" "msr_fd q = msr_fd p0"
    using i(1,2) read_global_fst [of cfg lib p0 e0] by simp_all
  with raw_events [OF assms(1-3), of q "unat n" names f p e4] i(3,4) assms(4) q
  have ev: "active p = resolved lib names (unat n)" "msr_fd p = msr_fd p0" "\<not> mckernel p" "selects lib (msr_fd p0) names (unat n) e4"
    by simp_all
  have "e1 = pwrite8 lib (msr_fd p) IA32_PERF_GLOBAL_CTRL 0 e4"
    using i(5) ev(3) assms(1,2) by (simp add: counters_off_def wrmsr_def)
  moreover have "pread8 lib (msr_fd p0) (IA32_PERFEVTSEL_BASE + of_nat i) (pwrite8 lib (msr_fd p0) IA32_PERF_GLOBAL_CTRL 0 e4) =
      pread8 lib (msr_fd p0) (IA32_PERFEVTSEL_BASE + of_nat i) e4" if "i < unat n" for i
  proof -
    have i32: "i < 32" using that assms(4) by simp
    show ?thesis unfolding msr_file_write [OF assms(3) i(3) regs_differ(8) [OF i32 i32]] using regs_differ(4) [OF i32 i32] by simp
  qed
  ultimately show ?thesis using ev i(3) by (simp add: selects_def)
qed

text \<open>C16. The method \<open>LINUX_RAWMSR\<close>: after the initialisation the register that selects the event of
counter \<open>i\<close> holds the event of name \<open>i\<close>, if the name is known; before the call the counters are zero
and enabled; and column \<open>i\<close> of the results gets counter \<open>i\<close> as it is after the call, for as many
columns as there are known names. So a column shows its event only when its name is known, and every
unknown name keeps one more column at the end from being written.\<close>

theorem raw_columns:
  assumes "on_linux cfg = LINUX_RAWMSR" and "\<not> mck_is_mckernel (syscall732 lib)" and "msr_file lib" and "unat n \<le> 32"
    and "pmu_init cfg lib names n cp e = Inr (p, e1)"
    and "pmu_begin cfg lib p k (d, e1) = Inr (d1, e2)" and "pmu_end cfg lib p k (d1, e3) = Inr (d2, e4)"
  shows "(\<forall>i < unat n. \<forall>attr. resolve_event lib (names ! i) = Some attr \<longrightarrow>
       pread8 lib (msr_fd p) (IA32_PERFEVTSEL_BASE + of_nat i) e2 = Some (event_select (attr_config lib attr))) \<and>
    active p = resolved lib names (unat n) \<and>
    pread8 lib (msr_fd p) IA32_PERF_GLOBAL_CTRL e2 = Some (2 ^ active p - 1) \<and>
    (\<forall>i < active p. pread8 lib (msr_fd p) (IA32_PMC_BASE + of_nat i) e2 = Some 0 \<and>
       pread8 lib (msr_fd p) (IA32_PMC_BASE + of_nat i) e3 = Some (d2 ! (k + i))) \<and>
    length d2 = length d \<and> (\<forall>j. j < k \<or> k + active p \<le> j \<longrightarrow> d2 ! j = d ! j)"
proof -
  have i: "active p = resolved lib names (unat n)" "\<not> mckernel p" "0 \<le> msr_fd p" "selects lib (msr_fd p) names (unat n) e1"
    using raw_init [OF assms(1-5)] by simp_all
  note b = raw_begin [OF assms(1-3) i(2,3) assms(6)]
  have "active p \<le> 32" using i(1) resolved_le [of lib names "unat n"] assms(4) by simp
  note en = raw_end [OF assms(1-3) i(2,3) this assms(7)]
  have "selects lib (msr_fd p) names (unat n) e2" using i(4) b(4) assms(4) by (simp add: selects_def)
  with i(1) b(1,3,5) en show ?thesis by (auto simp: selects_def push_bit_eq_mult)
qed

section \<open>Witnesses\<close>

text \<open>A file of registers, opened as descriptor 3; the event \<open>a\<close> has the code 60, and nothing else resolves.\<close>

definition demo_raw :: "(nat, unit, u32 \<Rightarrow> u64) msr_lib" where
  "demo_raw =
     \<lparr>rdtsc = (\<lambda>e. ((0, 0), e)), rdtscp = (\<lambda>e. ((0, 0), e)), rdpmc_insn = (\<lambda>i e. ((0, 0), e)), syscall732 = -1,
      syscall601 = (\<lambda>_ _ _ e. (0, e)), syscall604 = (\<lambda>_ e. e), syscall850 = (\<lambda>_ e. (0, e)), syscall851 = (\<lambda>_ _ e. e),
      pread8 = (\<lambda>fd idx e. if 0 \<le> fd then Some (e idx) else None),
      resolve_event = (\<lambda>s. if s = ''a'' then Some 60 else None), attr_config = of_nat,
      rdpmc_open_attr = (\<lambda>_ e. (None, e)), rdpmc_read = (\<lambda>_ e. (0, e)), rdpmc_close = (\<lambda>_ e. e),
      stale_fd = 0, open_msr = (\<lambda>_ e. (3, e)), pwrite8 = (\<lambda>fd idx v e. if 0 \<le> fd then e(idx := v) else e),
      close_fd = (\<lambda>_ e. e), cpuid = (\<lambda>_ e. ((0, 0, 0, 0), e)), perf_event_open = (\<lambda>_ e. (-1, e)),
      ioctl_reset = (\<lambda>_ e. e), read8 = (\<lambda>_ e. (None, e))\<rparr>"

definition demo_raw_config :: config where
  "demo_raw_config = \<lparr>on_linux = LINUX_RAWMSR, on_mck = MCK_MCK\<rparr>"

definition demo_raw_pmu :: "unit msr_pmu" where
  "demo_raw_pmu = \<lparr>ctx = [], active = 1, mckernel = False, global_ctrl = None, perf_fds = [], msr_fd = 3\<rparr>"

definition demo_regs :: "u32 \<Rightarrow> u64" where
  "demo_regs = (\<lambda>_. 5)(0x187 := event_select 60, 0x38f := 0)"

lemma demo_raw_init: "pmu_init demo_raw_config demo_raw [''?'', ''a''] 2 0 (\<lambda>_. 5) = Inr (demo_raw_pmu, demo_regs)"
  by (simp add: pmu_init_def open_registers_def RAWMSR_def pmu_info_def read_global_def rdmsr_def add_events_def upt_rec
      add_event_def counted_def counters_off_def wrmsr_def mck_is_mckernel_def demo_raw_def demo_raw_config_def
      demo_raw_pmu_def demo_regs_def IA32_PERFEVTSEL_BASE_def IA32_PERF_GLOBAL_CTRL_def)

theorem pmu_free_result_witness:
  "\<not> (\<exists>e3. pmu_free demo_raw_config demo_raw demo_raw_pmu (\<lambda>_. 7) = Inr e3)"
  using pmu_free_result [OF demo_raw_init, of "\<lambda>_. 7"]
  by (simp add: demo_raw_def mck_is_mckernel_def demo_raw_config_def)

definition demo_counting :: "u32 \<Rightarrow> u64" where
  "demo_counting = demo_regs(0xc1 := 0, 0x390 := 0, 0x38f := 1)"

lemma demo_raw_begin:
  "pmu_begin demo_raw_config demo_raw demo_raw_pmu 1 ([0, 0, 0], demo_regs) = Inr ([0, 0, 0], demo_counting)"
  by (simp add: pmu_begin_def raw_pmu_def clear_event_def enable_all_def active_mask_def wrmsr_def mck_is_mckernel_def
      demo_raw_def demo_raw_config_def demo_raw_pmu_def demo_counting_def IA32_PMC_BASE_def IA32_PERF_GLOBAL_CTRL_def
      IA32_PERF_GLOBAL_OVF_CTRL_def)

lemma demo_raw_end:
  "pmu_end demo_raw_config demo_raw demo_raw_pmu 1 ([0, 0, 0], demo_counting(0xc1 := 9)) =
    Inr ([0, 9, 0], (demo_counting(0xc1 := 9))(0x38f := 0, 0x390 := 0))"
  by (simp add: pmu_end_def raw_pmu_def disable_all_def end_slot_def no_method_def read_event_def read_raw_def rdmsr_def
      wrmsr_def mck_is_mckernel_def demo_raw_def demo_raw_config_def demo_raw_pmu_def demo_counting_def demo_regs_def
      IA32_PMC_BASE_def IA32_PERF_GLOBAL_CTRL_def IA32_PERF_GLOBAL_OVF_CTRL_def IA32_PERF_GLOBAL_STATUS_def)

theorem raw_columns_witness:
  "pread8 demo_raw (msr_fd demo_raw_pmu) (IA32_PERFEVTSEL_BASE + 1) demo_counting = Some (event_select 60) \<and>
   active demo_raw_pmu = resolved demo_raw [''?'', ''a''] 2 \<and>
   pread8 demo_raw (msr_fd demo_raw_pmu) IA32_PMC_BASE (demo_counting(0xc1 := 9)) = Some ([0, 9, 0] ! 1)"
proof -
  have c: "on_linux demo_raw_config = LINUX_RAWMSR" "\<not> mck_is_mckernel (syscall732 demo_raw)"
    "resolve_event demo_raw ''a'' = Some 60" "attr_config demo_raw 60 = 60"
    by (simp_all add: demo_raw_config_def demo_raw_def mck_is_mckernel_def)
  have "msr_file demo_raw" by (auto simp: msr_file_def demo_raw_def)
  note r = raw_columns [OF c(1,2) this _ demo_raw_init demo_raw_begin demo_raw_end]
  have "pread8 demo_raw (msr_fd demo_raw_pmu) (IA32_PERFEVTSEL_BASE + 1) demo_counting = Some (event_select 60)"
    using r [THEN conjunct1, rule_format, of 1 60] c(3,4) by simp
  with r show ?thesis by (auto simp: demo_raw_pmu_def)
qed

end
