(* ===== verification/Arch_Aarch64.thy ===== *)
theory Arch_Aarch64
  imports Worker CString
begin

unbundle bit_operations_syntax

text \<open>
  The performance counters on aarch64 (\<open>include/arch.h\<close>). The system registers that the
  instructions \<open>mrs\<close> and \<open>msr\<close> name are fields of the thread's world; the selector
  \<open>PMSELR_EL0\<close> says which counter \<open>PMXEVCNTR_EL0\<close> and \<open>PMXEVTYPER_EL0\<close> are. Between two
  instructions of this code the benchmark changes the world as it likes. Output on the terminal
  is not modelled.
\<close>

record a64 =
  cntvct :: u64
  pmcr :: u64
  pmselr :: u64
  pmcnten :: u64
  pmovs :: u64
  pmevcntr :: "u64 \<Rightarrow> u64"
  pmevtyper :: "u64 \<Rightarrow> u64"

definition a64_timestamp :: "'x a64_scheme \<Rightarrow> u64 \<times> 'x a64_scheme" where
  "a64_timestamp e = (cntvct e, e)"

definition pmu_events :: "(string \<times> u64) list" where
  "pmu_events =
    [(''SW_INCR'', 0x00), (''L1I_CACHE_REFILL'', 0x01), (''L1D_CACHE_REFILL'', 0x03),
     (''L1D_CACHE'', 0x04), (''MEM_ACCESS'', 0x13), (''L2D_CACHE'', 0x16),
     (''L2D_CACHE_REFILL'', 0x17), (''CHAIN'', 0x1e)]"

definition select_reg :: "u64 \<Rightarrow> 'x a64_scheme \<Rightarrow> 'x a64_scheme" where
  "select_reg r e = e\<lparr>pmselr := r\<rparr>"

text \<open>\<open>PMCNTENSET_EL0\<close> sets, \<open>PMCNTENCLR_EL0\<close> clears the bits that are written as ones.\<close>

definition enable_reg :: "u32 \<Rightarrow> 'x a64_scheme \<Rightarrow> 'x a64_scheme" where
  "enable_reg r e = e\<lparr>pmcnten := pmcnten e OR push_bit (unat r) 1\<rparr>"

definition disable_reg :: "u32 \<Rightarrow> 'x a64_scheme \<Rightarrow> 'x a64_scheme" where
  "disable_reg r e = e\<lparr>pmcnten := pmcnten e AND NOT (push_bit (unat r) 1)\<rparr>"

definition read_current_counter :: "'x a64_scheme \<Rightarrow> u64" where
  "read_current_counter e = pmevcntr e (pmselr e)"

definition write_type :: "u64 \<Rightarrow> 'x a64_scheme \<Rightarrow> 'x a64_scheme" where
  "write_type t e = e\<lparr>pmevtyper := (pmevtyper e)(pmselr e := 0x08000000 OR (t AND 0xffff))\<rparr>"

definition str2type :: "string \<Rightarrow> u64 option" where
  "str2type nm = map_option snd (find (\<lambda>ev. strcasecmp nm (fst ev) = 0) pmu_events)"

text \<open>
  \<open>struct pmu\<close> is its field \<open>num_pmcs\<close>. The loop over the names stops at the number of
  counters; a name that is not in the table is skipped.
\<close>

definition a64_add_event :: "string \<Rightarrow> u32 \<times> 'x a64_scheme \<Rightarrow> u32 \<times> 'x a64_scheme" where
  "a64_add_event nm s =
     (case str2type nm of None \<Rightarrow> s
      | Some t \<Rightarrow> (fst s + 1, write_type t (select_reg (ucast (fst s)) (snd s))))"

definition a64_setup :: "string list \<Rightarrow> nat \<Rightarrow> 'x a64_scheme \<Rightarrow> (u32 \<times> 'x a64_scheme) outcome" where
  "a64_setup names m e =
     fold_res (\<lambda>i s. and_then (load names i) (\<lambda>nm. Inr (a64_add_event nm s))) [0..<m] (0, e)"

definition num_counters :: "u64 \<Rightarrow> u32" where
  "num_counters v = ucast (drop_bit 11 v AND 0x1f)"

definition a64_pmu_init ::
  "string list \<Rightarrow> u32 \<Rightarrow> u32 \<Rightarrow> 'x a64_scheme \<Rightarrow> (u32 \<times> 'x a64_scheme) outcome"
where
  "a64_pmu_init names n cp e =
     (if pmcr e AND 1 = 0 then Inl ExitFailure
      else
        let m = min (unat n) (unat (num_counters (pmcr e)))
        in and_then (a64_setup names m e)
             (\<lambda>(k, e1). Inr (k, fold (\<lambda>i. enable_reg (of_nat i)) (rev [0..<unat k]) e1)))"

definition a64_pmu_free :: "u32 \<Rightarrow> 'x a64_scheme \<Rightarrow> 'x a64_scheme outcome" where
  "a64_pmu_free k e = Inr (fold (\<lambda>i e. disable_reg (of_nat i) (select_reg (of_nat i) e)) [0..<unat k] e)"

definition a64_pmu_begin ::
  "u32 \<Rightarrow> nat \<Rightarrow> u64 list \<times> 'x a64_scheme \<Rightarrow> (u64 list \<times> 'x a64_scheme) outcome"
where
  "a64_pmu_begin k p s =
     Inr (fst s, fold (\<lambda>i e.
         let e1 = select_reg (of_nat i) (e\<lparr>pmovs := pmovs e AND NOT (push_bit i 1)\<rparr>)
         in e1\<lparr>pmevcntr := (pmevcntr e1)(pmselr e1 := 0)\<rparr>) [0..<unat k] (snd s))"

definition a64_read :: "nat \<Rightarrow> u64 \<Rightarrow> 'x a64_scheme \<Rightarrow> u64 \<times> 'x a64_scheme" where
  "a64_read i _ e = (let e1 = select_reg (of_nat i) e in (read_current_counter e1, e1))"

definition a64_pmu_end ::
  "u32 \<Rightarrow> nat \<Rightarrow> u64 list \<times> 'x a64_scheme \<Rightarrow> (u64 list \<times> 'x a64_scheme) outcome"
where
  "a64_pmu_end k p s = slot_loop a64_read p (unat k) s"

definition a64_arch :: "('x a64_scheme, u32) arch" where
  "a64_arch =
     \<lparr>arch_pmu_init = a64_pmu_init, arch_pmu_free = a64_pmu_free, arch_pmu_begin = a64_pmu_begin,
      arch_pmu_end = a64_pmu_end, arch_timestamp_begin = a64_timestamp,
      arch_timestamp_end = a64_timestamp\<rparr>"

lemma a64_arch_simps [simp]:
  "arch_pmu_init a64_arch = a64_pmu_init" "arch_pmu_free a64_arch = a64_pmu_free"
  "arch_pmu_begin a64_arch = a64_pmu_begin" "arch_pmu_end a64_arch = a64_pmu_end"
  "arch_timestamp_begin a64_arch = a64_timestamp" "arch_timestamp_end a64_arch = a64_timestamp"
  by (simp_all add: a64_arch_def)

section \<open>The contract\<close>

definition a64_begin_row :: "u32 \<Rightarrow> u64 list \<times> 'x a64_scheme \<Rightarrow> u64 list \<times> 'x a64_scheme" where
  "a64_begin_row k s = (case a64_pmu_begin k 0 s of Inr t \<Rightarrow> t)"

definition a64_end_row :: "u32 \<Rightarrow> u64 list \<times> 'x a64_scheme \<Rightarrow> u64 list \<times> 'x a64_scheme" where
  "a64_end_row k = row_loop a64_read (unat k)"

lemma a64_setup_Suc:
  "a64_setup names (Suc m) e =
    and_then (a64_setup names m e) (\<lambda>s. and_then (load names m) (\<lambda>nm. Inr (a64_add_event nm s)))"
  by (simp add: a64_setup_def fold_res_upt_Suc del: upt_Suc)

lemma a64_setup_le: "a64_setup names m e = Inr (k, e') \<Longrightarrow> unat k \<le> m"
proof (induction m arbitrary: k e')
  case (Suc m)
  from Suc.prems obtain k1 e1 where 1: "a64_setup names m e = Inr (k1, e1)"
    and 2: "k = k1 \<or> k = k1 + 1"
    by (auto simp: a64_setup_Suc and_then_Inr_iff a64_add_event_def split: option.splits)
  have "unat (k1 + 1) \<le> Suc (unat k1)" by (simp add: unat_word_ariths)
  with Suc.IH [OF 1] 2 show ?case by auto
qed (simp add: a64_setup_def)

interpretation a64: pmu_contract a64_arch unat a64_begin_row a64_end_row
proof (unfold_locales, goal_cases)
  case (1 names n cp e p e')
  let ?m = "min (unat n) (unat (num_counters (pmcr e)))"
  from 1 have "pmcr e AND 1 \<noteq> 0"
    by (auto simp: a64_arch_def a64_pmu_init_def split: if_splits)
  with 1 obtain e1 where "a64_setup names ?m e = Inr (p, e1)"
    by (auto simp: a64_arch_def a64_pmu_init_def and_then_Inr_iff Let_def)
  from a64_setup_le [OF this] show ?case by simp
next
  case (2 k p d e)
  then show ?case by (simp add: a64_arch_def a64_pmu_begin_def a64_begin_row_def)
next
  case (3 k p d e)
  then show ?case
    by (simp add: a64_arch_def a64_pmu_end_def a64_end_row_def slot_loop_row_loop)
next
  case (4 r p e)
  then show ?case by (simp add: a64_pmu_begin_def a64_begin_row_def)
next
  case (5 r p e)
  then show ?case by (simp add: a64_end_row_def)
qed

section \<open>What the counters count\<close>

text \<open>The world in which the benchmark's call starts: the first \<open>n\<close> counters reset.\<close>

definition a64_reset :: "nat \<Rightarrow> 'x a64_scheme \<Rightarrow> 'x a64_scheme" where
  "a64_reset n e = fold (\<lambda>i e.
     let e1 = select_reg (of_nat i) (e\<lparr>pmovs := pmovs e AND NOT (push_bit i 1)\<rparr>)
     in e1\<lparr>pmevcntr := (pmevcntr e1)(pmselr e1 := 0)\<rparr>) [0..<n] e"

lemma a64_reset_Suc:
  "a64_reset (Suc n) e =
     (let e0 = a64_reset n e; e1 = select_reg (of_nat n) (e0\<lparr>pmovs := pmovs e0 AND NOT (push_bit n 1)\<rparr>)
      in e1\<lparr>pmevcntr := (pmevcntr e1)(pmselr e1 := 0)\<rparr>)"
  by (simp add: a64_reset_def Let_def)

lemma a64_reset_keeps: "cntvct (a64_reset n e) = cntvct e"
  by (induction n) (simp_all add: a64_reset_Suc Let_def select_reg_def, simp add: a64_reset_def)

lemma a64_reset_zero: "j < n \<Longrightarrow> pmevcntr (a64_reset n e) (of_nat j) = 0"
  by (induction n) (auto simp: a64_reset_Suc Let_def select_reg_def less_Suc_eq)

lemma a64_select_fold [simp]:
  "pmevcntr (fold (\<lambda>i. select_reg (of_nat i)) xs e) = pmevcntr e"
  by (induction xs arbitrary: e) (simp_all add: select_reg_def)

lemma a64_end_row_eq:
  "unat k \<le> length r \<Longrightarrow> a64_end_row k (r, e) =
    (map (\<lambda>j. pmevcntr e (of_nat j)) [0..<unat k] @ drop (unat k) r,
     fold (\<lambda>i. select_reg (of_nat i)) [0..<unat k] e)"
  unfolding a64_end_row_def
  using row_loop_const [of a64_read "\<lambda>i e. pmevcntr e (of_nat i)" "\<lambda>i. select_reg (of_nat i)" "unat k" r e]
  by (simp add: a64_read_def Let_def read_current_counter_def select_reg_def)

lemma a64_begin_row_eq: "a64_begin_row k (r, e) = (r, a64_reset (unat k) e)"
  by (simp add: a64_begin_row_def a64_pmu_begin_def a64_reset_def)

text \<open>C25. One repetition on aarch64, of any benchmark: every access is inside the results. The benchmark's
function \<open>reset_arg\<close>, where it has one, runs first, before the counters are set to zero and before the
clock is read, so that neither of them measures it. The call starts with the counters at zero; the row
gets the ticks that passed during the call, and then the counters as the call left them; nothing else
of the results changes, and after the call the only change to the world is which counter is selected.\<close>

theorem a64_rep:
  assumes "w_result w = Some b" and "unat k \<le> unat (w_num_pmcs w)"
    and "m = b + rep_offset (w_num_pmcs w) i" and "m + Suc (unat (w_num_pmcs w)) \<le> length d"
    and "e0 = (case b_reset_arg (w_ops w) of None \<Rightarrow> e | Some reset \<Rightarrow> reset a e)"
    and "e1 = a64_reset (unat k) e0" and "e2 = b_call (w_ops w) a e1"
  shows "cntvct e1 = cntvct e0 \<and> (\<forall>j < unat k. pmevcntr e1 (of_nat j) = 0) \<and>
    run_rep a64_arch w k a i (d, e) =
      Inr (patch m ((cntvct e2 - cntvct e0) # map (\<lambda>j. pmevcntr e2 (of_nat j)) [0..<unat k]) d,
           fold (\<lambda>j. select_reg (of_nat j)) [0..<unat k] e2)"
proof (intro conjI)
  show c: "cntvct e1 = cntvct e0" and "\<forall>j < unat k. pmevcntr e1 (of_nat j) = 0"
    using assms(6) by (simp_all add: a64_reset_zero a64_reset_keeps)
  let ?n = "Suc (unat (w_num_pmcs w))" and ?cs = "map (\<lambda>j. pmevcntr e2 (of_nat j)) [0..<unat k]"
  let ?e3 = "fold (\<lambda>j. select_reg (of_nat j)) [0..<unat k] e2"
  have l: "length (part (Suc 0) (unat k) (part m ?n d)) = unat k" using assms(2,4) by simp
  have "a64.row_rep w k a (part m ?n d, e) = ((cntvct e2 - cntvct e0) # ?cs @ drop (Suc (unat k)) (part m ?n d), ?e3)"
    using l c unfolding assms(5-7)
    by (simp add: a64.row_rep_def Let_def a64_begin_row_eq a64_end_row_eq a64_timestamp_def cong: option.case_cong)
  moreover have "patch m ((cntvct e2 - cntvct e0) # ?cs @ drop (Suc (unat k)) (part m ?n d)) d =
      patch m ((cntvct e2 - cntvct e0) # ?cs) d"
    using row_patch [of ?cs "unat (w_num_pmcs w)" m d "cntvct e2 - cntvct e0"] patch_Cons [of m ?cs d] assms(2,4)
    by simp
  ultimately show "run_rep a64_arch w k a i (d, e) = Inr (patch m ((cntvct e2 - cntvct e0) # ?cs) d, ?e3)"
    using a64.run_rep_row [OF assms(1-4)] by simp
qed

text \<open>A benchmark whose reset takes a thousand ticks and counts events.\<close>

definition demo_world :: a64 where
  "demo_world = \<lparr>cntvct = 100, pmcr = 0x3001, pmselr = 0, pmcnten = 0, pmovs = 0,
     pmevcntr = (\<lambda>_. 7), pmevtyper = (\<lambda>_. 0)\<rparr>"

definition demo_reset :: "unit \<Rightarrow> a64 \<Rightarrow> a64" where
  "demo_reset _ e = e\<lparr>cntvct := cntvct e + 1000, pmevcntr := (\<lambda>i. pmevcntr e i + 80)\<rparr>"

definition demo_work :: "(unit, a64) work_t" where
  "demo_work = \<lparr>w_ops = \<lparr>b_name = ''demo'', b_init_arg = None, b_reset_arg = Some demo_reset, b_free_arg = None,
       b_call = (\<lambda>_ e. e\<lparr>cntvct := cntvct e + 50, pmevcntr := (\<lambda>i. pmevcntr e i + i + 3)\<rparr>), b_state = ()\<rparr>,
     w_arg = (), w_result = Some 1, w_reps = 2, w_pmcs = [''CHAIN'', ''MEM_ACCESS''], w_num_pmcs = 2\<rparr>"

theorem a64_rep_witness:
  "\<exists>e3. run_rep a64_arch demo_work 2 () 1 (replicate 8 0, demo_world) = Inr ([0, 0, 0, 0, 50, 3, 4, 0], e3)"
proof -
  have off: "4 = (1 :: nat) + rep_offset (w_num_pmcs demo_work) 1"
    by (simp add: demo_work_def rep_offset_def)
  let ?e0 = "demo_reset () demo_world" and ?e2 = "b_call (w_ops demo_work) () (a64_reset 2 (demo_reset () demo_world))"
  have e: "a64_reset 2 ?e0 = ?e0\<lparr>pmselr := 1, pmevcntr := (pmevcntr ?e0)(0 := 0, 1 := 0)\<rparr>"
    by (simp add: a64_reset_def demo_reset_def demo_world_def select_reg_def Let_def upt_rec)
  have "\<exists>e3. run_rep a64_arch demo_work 2 () 1 (replicate 8 0, demo_world) =
      Inr (patch 4 ((cntvct ?e2 - cntvct ?e0) # map (\<lambda>j. pmevcntr ?e2 (of_nat j)) [0..<2]) (replicate 8 0), e3)"
    using a64_rep [of demo_work 1 2 4 1 "replicate 8 0" ?e0 demo_world "()" "a64_reset 2 ?e0" ?e2] off
    by (simp add: demo_work_def)
  then show ?thesis
    unfolding e by (simp add: demo_work_def demo_reset_def demo_world_def patch_def eval_nat_numeral)
qed

lemma map_filter_snoc:
  "List.map_filter f (xs @ [x]) = List.map_filter f xs @ (case f x of None \<Rightarrow> [] | Some y \<Rightarrow> [y])"
  by (induction xs) (auto simp: List.map_filter_def split: option.splits)

text \<open>C26. The events in the counters are those of the requested names that are in the table, closed
up: a name that is not found leaves no gap, and the names behind it move up by one counter.\<close>

theorem a64_setup_events:
  assumes "m \<le> length names" and "m < 2 ^ 32" and "ts = List.map_filter str2type (take m names)"
  shows "\<exists>k e'. a64_setup names m e = Inr (k, e') \<and> unat k = length ts \<and>
    (\<forall>j < length ts. pmevtyper e' (of_nat j) = 0x08000000 OR (ts ! j AND 0xffff))"
  using assms
proof (induction m arbitrary: ts)
  case 0
  then show ?case by (simp add: a64_setup_def List.map_filter_def)
next
  case (Suc m)
  let ?ts = "List.map_filter str2type (take m names)"
  obtain k e1 where 1: "a64_setup names m e = Inr (k, e1)" "unat k = length ?ts"
    "\<forall>j < length ?ts. pmevtyper e1 (of_nat j) = 0x08000000 OR (?ts ! j AND 0xffff)"
    using Suc by auto
  have "take (Suc m) names = take m names @ [names ! m]"
    using Suc.prems(1) by (simp add: take_Suc_conv_app_nth)
  then have ts: "ts = ?ts @ (case str2type (names ! m) of None \<Rightarrow> [] | Some t \<Rightarrow> [t])"
    using Suc.prems(3) by (simp add: map_filter_snoc)
  show ?case
  proof (cases "str2type (names ! m)")
    case None
    then show ?thesis using 1 ts Suc.prems(1) by (simp add: a64_setup_Suc a64_add_event_def)
  next
    case (Some t)
    have le: "unat k \<le> m" by (rule a64_setup_le [OF 1(1)])
    then have k: "unat (k + 1) = Suc (unat k)" using Suc.prems(2) by (simp add: unat_word_ariths)
    have u: "(ucast k :: u64) = of_nat (length ?ts)" by (simp add: 1(2) [symmetric])
    have inj: "(of_nat j :: u64) = of_nat (length ?ts) \<longleftrightarrow> j = length ?ts" if "j \<le> length ?ts" for j
      using that 1(2) le Suc.prems(2)
      by (auto dest!: arg_cong [where f = unat] simp: unat_of_nat64)
    show ?thesis
      using 1 ts Some Suc.prems(1) k u inj
      by (auto simp: a64_setup_Suc a64_add_event_def write_type_def select_reg_def nth_append less_Suc_eq)
  qed
qed

text \<open>An unknown name in front: the only counter counts \<open>MEM_ACCESS\<close>, and it is counter 0.\<close>

theorem a64_setup_events_witness:
  "\<exists>k e'. a64_setup [''CYCLES'', ''mem_access''] 2 demo_world = Inr (k, e') \<and> unat k = 1 \<and>
    pmevtyper e' 0 = 0x08000013"
proof -
  have t: "List.map_filter str2type (take 2 [''CYCLES'', ''mem_access'']) = [0x13]"
    by (simp add: List.map_filter_def str2type_def pmu_events_def strcasecmp_0 tolower_def less_eq_char_def)
  show ?thesis using a64_setup_events [OF _ _ t [symmetric], of demo_world] by simp
qed

end
