(* ===== verification/Arch_Others.thy ===== *)
theory Arch_Others
  imports Arch_X86
begin

text \<open>
  The remaining architectures of \<open>include/arch.h\<close>: sparc and PowerPC, which have a clock but no
  counters, and Blue Gene/Q with and without its library for counters, BGPM.
\<close>

section \<open>No counters\<close>

text \<open>
  The functions for the counters that sparc, Blue Gene/Q without BGPM and PowerPC each define: a
  null pointer, and nothing done with it.
\<close>

definition null_pmu_init :: "string list \<Rightarrow> u32 \<Rightarrow> u32 \<Rightarrow> 'e \<Rightarrow> (unit \<times> 'e) outcome" where
  "null_pmu_init pmcs num_pmcs cp e = Inr ((), e)"

definition null_pmu_arch :: "('e \<Rightarrow> u64 \<times> 'e) \<Rightarrow> ('e \<Rightarrow> u64 \<times> 'e) \<Rightarrow> ('e, unit) arch" where
  "null_pmu_arch t0 t1 =
     \<lparr>arch_pmu_init = null_pmu_init, arch_pmu_free = (\<lambda>_. Inr), arch_pmu_begin = (\<lambda>_ _. Inr),
      arch_pmu_end = (\<lambda>_ _. Inr), arch_timestamp_begin = t0, arch_timestamp_end = t1\<rparr>"

interpretation null_pmu: pmu_contract "null_pmu_arch t0 t1" "\<lambda>_. 0" "\<lambda>_. id" "\<lambda>_. id" for t0 t1
  by unfold_locales (auto simp: null_pmu_arch_def part_def)

text \<open>\<open>tick\<close> is the instruction \<open>rd %tick\<close>.\<close>

definition sparc_timestamp :: "('e \<Rightarrow> u64 \<times> 'e) \<Rightarrow> 'e \<Rightarrow> u64 \<times> 'e" where
  "sparc_timestamp tick e = tick e"

definition sparc_arch :: "('e \<Rightarrow> u64 \<times> 'e) \<Rightarrow> ('e, unit) arch" where
  "sparc_arch tick = null_pmu_arch (sparc_timestamp tick) (sparc_timestamp tick)"

section \<open>PowerPC\<close>

text \<open>
  The instructions that read the time base: all of it on 64-bit processors, its halves on 32-bit
  ones, where the upper half is read until it has not changed around the reading of the lower one.
\<close>

record 'e ppc_lib =
  mftb64 :: "'e \<Rightarrow> u64 \<times> 'e"
  mftbu :: "'e \<Rightarrow> u32 \<times> 'e"
  mftb :: "'e \<Rightarrow> u32 \<times> 'e"

definition read_timebase64 :: "'e ppc_lib \<Rightarrow> 'e \<Rightarrow> u64 \<times> 'e" where
  "read_timebase64 lib e = mftb64 lib e"

partial_function (option) read_timebase :: "'e ppc_lib \<Rightarrow> 'e \<Rightarrow> (u64 \<times> 'e) option" where
  "read_timebase lib e =
     (let (tbu0, e1) = mftbu lib e; (tbl, e2) = mftb lib e1; (tbu1, e3) = mftbu lib e2
      in if tbu0 \<noteq> tbu1 then read_timebase lib e3 else Some (join_halves (tbu0, tbl), e3))"

definition ppc64_arch :: "'e ppc_lib \<Rightarrow> ('e, unit) arch" where
  "ppc64_arch lib = null_pmu_arch (read_timebase64 lib) (read_timebase64 lib)"

text \<open>
  A clock for the halves: the world is the number of instructions that have read it, and \<open>T k\<close>
  its value at the \<open>k\<close>th.
\<close>

definition clock_lib :: "(nat \<Rightarrow> nat) \<Rightarrow> nat ppc_lib" where
  "clock_lib T =
     \<lparr>mftb64 = (\<lambda>k. (of_nat (T k), Suc k)), mftbu = (\<lambda>k. (of_nat (T k div 2 ^ 32), Suc k)),
      mftb = (\<lambda>k. (of_nat (T k mod 2 ^ 32), Suc k))\<rparr>"

lemma unat_join_halves:
  assumes "hi < 2 ^ 32" and "lo < (2 :: nat) ^ 32"
  shows "unat (join_halves (of_nat hi, of_nat lo)) = hi * 2 ^ 32 + lo"
proof -
  let ?h = "ucast (of_nat hi :: u32) :: u64" and ?l = "ucast (of_nat lo :: u32) :: u64"
  have u: "unat ?h = hi" "unat ?l = lo" using assms by (simp_all add: unat_up unat_of_nat32)
  have "hi * 2 ^ 32 < 2 ^ 64" using assms(1) by simp
  then have p: "unat (push_bit 32 ?h) = hi * 2 ^ 32"
    using u(1) by (simp add: push_bit_eq_mult unat_word_ariths(2))
  have "hi * 2 ^ 32 = push_bit 32 hi" "lo = take_bit 32 lo"
    using assms(2) by (simp_all add: push_bit_eq_mult take_bit_nat_eq_self)
  then have "(hi * 2 ^ 32) OR lo = hi * 2 ^ 32 + lo"
    by (metis disjunctive_add bit_push_bit_iff bit_take_bit_iff leD)
  then show ?thesis by (simp add: join_halves_def unsigned_or_eq p u(2))
qed

text \<open>One iteration of the loop.\<close>

lemma read_timebase_step:
  "read_timebase (clock_lib T) k =
    (if (of_nat (T k div 2 ^ 32) :: u32) \<noteq> of_nat (T (k + 2) div 2 ^ 32) then read_timebase (clock_lib T) (k + 3)
     else Some (join_halves (of_nat (T k div 2 ^ 32), of_nat (T (k + 1) mod 2 ^ 32)), k + 3))"
  by (subst read_timebase.simps) (simp add: clock_lib_def numeral_3_eq_3)

lemma read_timebase_hit:
  assumes "mono T" and "\<forall>k. T k < 2 ^ 64" and "T k div 2 ^ 32 = T (k + 2) div 2 ^ 32"
  shows "\<exists>v. read_timebase (clock_lib T) k = Some (v, k + 3) \<and> unat v = T (k + 1)"
proof -
  have "T k div 2 ^ 32 \<le> T (k + 1) div 2 ^ 32" "T (k + 1) div 2 ^ 32 \<le> T (k + 2) div 2 ^ 32"
    using assms(1) by (auto intro!: div_le_mono monoD [OF assms(1)])
  then have h: "T k div 2 ^ 32 = T (k + 1) div 2 ^ 32" using assms(3) by simp
  have "T (k + 1) < 2 ^ 32 * 2 ^ 32" using assms(2) by simp
  then have "T (k + 1) div 2 ^ 32 < 2 ^ 32" by (rule less_mult_imp_div_less)
  then have "unat (join_halves (of_nat (T (k + 1) div 2 ^ 32), of_nat (T (k + 1) mod 2 ^ 32))) = T (k + 1)"
    by (subst unat_join_halves) simp_all
  then show ?thesis using assms(3) h by (subst read_timebase_step) simp
qed

text \<open>C28. Reading the time base of a 32-bit PowerPC: on a clock that does not go back, and does not pass
\<open>2 ^ 32\<close> ticks within five instructions, the loop ends after at most two iterations, with a value
that the whole clock had while the function ran.\<close>

theorem read_timebase_ends:
  assumes "mono T" and "\<forall>k. T k < 2 ^ 64" and "\<forall>k. T (k + 5) < T k + 2 ^ 32"
  shows "\<exists>v k1 m. read_timebase (clock_lib T) k = Some (v, k1) \<and> k1 \<le> k + 6 \<and> k \<le> m \<and> m < k1 \<and> unat v = T m"
proof (cases "T k div 2 ^ 32 = T (k + 2) div 2 ^ 32")
  case True
  from read_timebase_hit [OF assms(1,2) this] obtain v where
    "read_timebase (clock_lib T) k = Some (v, k + 3)" "unat v = T (k + 1)" by blast
  then show ?thesis by (intro exI [of _ v] exI [of _ "k + 3"] exI [of _ "k + 1"]) simp
next
  case False
  have m: "T k \<le> T (k + 2)" "T (k + 2) \<le> T (k + 3)" "T (k + 3) \<le> T (k + 5)"
    using assms(1) by (auto intro: monoD)
  have lt: "T i < 2 ^ 32 * 2 ^ 32" for i using assms(2) by simp
  have b: "T i div 2 ^ 32 < 2 ^ 32" for i by (rule less_mult_imp_div_less [OF lt])
  have "T k div 2 ^ 32 < T (k + 2) div 2 ^ 32" using False div_le_mono [OF m(1), of "2 ^ 32"] by simp
  then have 1: "Suc (T k div 2 ^ 32) \<le> T (k + 3) div 2 ^ 32"
    using div_le_mono [OF m(2), of "2 ^ 32"] by simp
  have "T (k + 5) div 2 ^ 32 \<le> (T k + 2 ^ 32) div 2 ^ 32"
    using assms(3) by (intro div_le_mono less_imp_le) blast
  then have "T (k + 5) div 2 ^ 32 \<le> Suc (T k div 2 ^ 32)" by simp
  then have "T (k + 3) div 2 ^ 32 = T (k + 5) div 2 ^ 32"
    using 1 div_le_mono [OF m(3), of "2 ^ 32"] by simp
  moreover have "k + 5 = k + 3 + 2" by simp
  ultimately have "T (k + 3) div 2 ^ 32 = T (k + 3 + 2) div 2 ^ 32" by metis
  from read_timebase_hit [OF assms(1,2) this] obtain v where
    v: "read_timebase (clock_lib T) (k + 3) = Some (v, k + 6)" "unat v = T (k + 4)" by (auto simp: algebra_simps)
  have "(of_nat (T k div 2 ^ 32) :: u32) \<noteq> of_nat (T (k + 2) div 2 ^ 32)"
    using False b by (metis unat_of_nat32)
  then have "read_timebase (clock_lib T) k = Some (v, k + 6)" using v(1) by (subst read_timebase_step) simp
  then show ?thesis using v(2) by (intro exI [of _ v] exI [of _ "k + 6"] exI [of _ "k + 4"]) simp
qed

text \<open>A clock whose lower half overflows between the two readings of the upper one.\<close>

theorem read_timebase_ends_witness:
  "\<exists>v k1 m. read_timebase (clock_lib (\<lambda>k. 2 ^ 32 - 1 + min k 100)) 0 = Some (v, k1) \<and> k1 \<le> 6 \<and> m < k1 \<and>
    unat v = 2 ^ 32 - 1 + min m 100"
proof -
  let ?T = "\<lambda>k :: nat. 2 ^ 32 - 1 + min k 100"
  have "mono ?T" by (auto simp: mono_def)
  moreover have "?T k < 2 ^ 64" for k by (rule le_less_trans [of _ "2 ^ 32 - 1 + 100"]) simp_all
  moreover have "?T (k + 5) < ?T k + 2 ^ 32" for k by (simp add: min_def)
  ultimately obtain v k1 m where "read_timebase (clock_lib ?T) 0 = Some (v, k1)" "k1 \<le> 0 + 6" "m < k1" "unat v = ?T m"
    using read_timebase_ends [of ?T 0] by blast
  then show ?thesis by auto
qed

section \<open>Blue Gene/Q\<close>

text \<open>
  BGPM: the numbers of its two events that the program knows, and its functions, with their results
  and what they do to the world; \<open>Bgpm_ReadEvent\<close> has the value besides.
\<close>

record 'e bgpm =
  get_time_base :: "'e \<Rightarrow> u64 \<times> 'e"
  PEVT_LSU_COMMIT_LD_MISSES :: u32
  PEVT_L2_MISSES :: u32
  malloc_pmu :: bool
  Bgpm_Init :: "'e \<Rightarrow> int \<times> 'e"
  Bgpm_CreateEventSet :: "'e \<Rightarrow> int \<times> 'e"
  Bgpm_AddEvent :: "int \<Rightarrow> u32 \<Rightarrow> 'e \<Rightarrow> int \<times> 'e"
  Bgpm_Apply :: "int \<Rightarrow> 'e \<Rightarrow> int \<times> 'e"
  Bgpm_DeleteEventSet :: "int \<Rightarrow> 'e \<Rightarrow> int \<times> 'e"
  Bgpm_Disable :: "'e \<Rightarrow> int \<times> 'e"
  Bgpm_Reset :: "int \<Rightarrow> 'e \<Rightarrow> int \<times> 'e"
  Bgpm_Start :: "int \<Rightarrow> 'e \<Rightarrow> int \<times> 'e"
  Bgpm_Stop :: "int \<Rightarrow> 'e \<Rightarrow> int \<times> 'e"
  Bgpm_ReadEvent :: "int \<Rightarrow> nat \<Rightarrow> 'e \<Rightarrow> int \<times> u64 \<times> 'e"

definition bgq_events :: "'e bgpm \<Rightarrow> (string \<times> u32) list" where
  "bgq_events lib =
     [(''PEVT_LSU_COMMIT_LD_MISSES'', PEVT_LSU_COMMIT_LD_MISSES lib), (''PEVT_L2_MISSES'', PEVT_L2_MISSES lib)]"

definition find_event :: "'e bgpm \<Rightarrow> string \<Rightarrow> u32 option" where
  "find_event lib nm = map_option snd (find (\<lambda>ev. strcasecmp nm (fst ev) = 0) (bgq_events lib))"

text \<open>A negative result ends the program.\<close>

definition bgpm_check :: "int \<times> 'e \<Rightarrow> 'e outcome" where
  "bgpm_check r = (if fst r < 0 then Inl ExitFailure else Inr (snd r))"

definition bgq_add_event :: "'e bgpm \<Rightarrow> int \<Rightarrow> string \<Rightarrow> 'e \<Rightarrow> 'e outcome" where
  "bgq_add_event lib evt_set nm e =
     (case find_event lib nm of None \<Rightarrow> Inr e | Some evt \<Rightarrow> bgpm_check (Bgpm_AddEvent lib evt_set evt e))"

text \<open>\<open>struct pmu *\<close>: a null pointer without counters, else the event set.\<close>

definition bgq_pmu_init :: "'e bgpm \<Rightarrow> string list \<Rightarrow> u32 \<Rightarrow> u32 \<Rightarrow> 'e \<Rightarrow> (int option \<times> 'e) outcome" where
  "bgq_pmu_init lib names n cp e =
     (if n = 0 then Inr (None, e)
      else case Bgpm_Init lib e of (err, e1) \<Rightarrow>
        if err \<noteq> 0 then Inl ExitFailure
        else if \<not> malloc_pmu lib then Inl ExitFailure
        else case Bgpm_CreateEventSet lib e1 of (evt_set, e2) \<Rightarrow>
          if evt_set < 0 then Inl ExitFailure
          else and_then
              (fold_res (\<lambda>i e. and_then (load names i) (\<lambda>nm. bgq_add_event lib evt_set nm e)) [0..<unat n] e2)
              (\<lambda>e3. and_then (bgpm_check (Bgpm_Apply lib evt_set e3)) (\<lambda>e4. Inr (Some evt_set, e4))))"

definition bgq_pmu_free :: "'e bgpm \<Rightarrow> int option \<Rightarrow> 'e \<Rightarrow> 'e outcome" where
  "bgq_pmu_free lib p e =
     (case p of None \<Rightarrow> Inr e
      | Some evt_set \<Rightarrow> and_then (bgpm_check (Bgpm_DeleteEventSet lib evt_set e)) (\<lambda>e1. bgpm_check (Bgpm_Disable lib e1)))"

definition bgq_pmu_begin :: "'e bgpm \<Rightarrow> int option \<Rightarrow> nat \<Rightarrow> u64 list \<times> 'e \<Rightarrow> (u64 list \<times> 'e) outcome" where
  "bgq_pmu_begin lib p k s =
     (case p of None \<Rightarrow> Inr s
      | Some evt_set \<Rightarrow> and_then (bgpm_check (Bgpm_Reset lib evt_set (snd s))) (\<lambda>e1.
          and_then (bgpm_check (Bgpm_Start lib evt_set e1)) (\<lambda>e2. Inr (fst s, e2))))"

definition bgq_pmu_end :: "'e bgpm \<Rightarrow> int option \<Rightarrow> nat \<Rightarrow> u64 list \<times> 'e \<Rightarrow> (u64 list \<times> 'e) outcome" where
  "bgq_pmu_end lib p k s =
     (case p of None \<Rightarrow> Inr s
      | Some evt_set \<Rightarrow> and_then (bgpm_check (Bgpm_Stop lib evt_set (snd s))) (\<lambda>e1.
          case Bgpm_ReadEvent lib evt_set 0 e1 of (err, v, e2) \<Rightarrow>
            if err < 0 then Inl ExitFailure else and_then (store (fst s) k v) (\<lambda>d. Inr (d, e2))))"

definition bgq_arch :: "'e bgpm \<Rightarrow> ('e, int option) arch" where
  "bgq_arch lib =
     \<lparr>arch_pmu_init = bgq_pmu_init lib, arch_pmu_free = bgq_pmu_free lib, arch_pmu_begin = bgq_pmu_begin lib,
      arch_pmu_end = bgq_pmu_end lib, arch_timestamp_begin = get_time_base lib, arch_timestamp_end = get_time_base lib\<rparr>"

definition bgq_nobgpm_arch :: "'e bgpm \<Rightarrow> ('e, unit) arch" where
  "bgq_nobgpm_arch lib = null_pmu_arch (get_time_base lib) (get_time_base lib)"

text \<open>The library when none of the calls for an event set fails; then the contract holds.\<close>

definition reliable :: "'e bgpm \<Rightarrow> 'e bgpm" where
  "reliable lib = lib\<lparr>Bgpm_Reset := \<lambda>s e. (0, snd (Bgpm_Reset lib s e)), Bgpm_Start := \<lambda>s e. (0, snd (Bgpm_Start lib s e)),
     Bgpm_Stop := \<lambda>s e. (0, snd (Bgpm_Stop lib s e)), Bgpm_ReadEvent := \<lambda>s i e. (0, snd (Bgpm_ReadEvent lib s i e))\<rparr>"

definition bgq_width :: "int option \<Rightarrow> nat" where
  "bgq_width p = (case p of None \<Rightarrow> 0 | Some _ \<Rightarrow> 1)"

definition bgq_begin_row :: "'e bgpm \<Rightarrow> int option \<Rightarrow> u64 list \<times> 'e \<Rightarrow> u64 list \<times> 'e" where
  "bgq_begin_row lib p s =
     (case p of None \<Rightarrow> s | Some evt_set \<Rightarrow> (fst s, snd (Bgpm_Start lib evt_set (snd (Bgpm_Reset lib evt_set (snd s))))))"

definition bgq_end_row :: "'e bgpm \<Rightarrow> int option \<Rightarrow> u64 list \<times> 'e \<Rightarrow> u64 list \<times> 'e" where
  "bgq_end_row lib p s =
     (case p of None \<Rightarrow> s
      | Some evt_set \<Rightarrow> (case Bgpm_ReadEvent lib evt_set 0 (snd (Bgpm_Stop lib evt_set (snd s))) of (_, v, e) \<Rightarrow> ([v], e)))"

lemma patch_single: "k < length d \<Longrightarrow> patch k [v] d = d[k := v]"
  by (rule nth_equalityI) (auto simp: nth_patch nth_list_update)

interpretation bgq: pmu_contract "bgq_arch (reliable lib)" bgq_width "bgq_begin_row lib" "bgq_end_row lib" for lib
proof (unfold_locales, goal_cases)
  case (1 names n cp e p e')
  have "n = 0 \<Longrightarrow> p = None" using 1 by (simp add: bgq_arch_def bgq_pmu_init_def)
  moreover have "n \<noteq> 0 \<Longrightarrow> 1 \<le> unat n" by (simp add: Suc_le_eq unat_gt_0)
  ultimately show ?case by (cases "n = 0") (simp_all add: bgq_width_def split: option.split)
next
  case (2 k p d e)
  then show ?case
    by (cases p) (simp_all add: bgq_arch_def bgq_pmu_begin_def bgq_begin_row_def bgq_width_def reliable_def
        bgpm_check_def)
next
  case (3 k p d e)
  then show ?case
    by (cases p) (simp_all add: bgq_arch_def bgq_pmu_end_def bgq_end_row_def bgq_width_def reliable_def
        bgpm_check_def patch_single split_def)
next
  case (4 r p e)
  then show ?case by (simp add: bgq_begin_row_def split: option.split)
next
  case (5 r p e)
  then show ?case by (simp add: bgq_end_row_def bgq_width_def split: option.splits prod.split)
qed

text \<open>C27. With BGPM the results have one counter only, whatever the number of events that were asked for
and added. A repetition runs \<open>reset_arg\<close>, resets and starts the counters, reads the time base, makes
the call, reads the time base again and stops the counters; it stores the difference of the two
times, and behind it the value that \<open>Bgpm_ReadEvent\<close> then has for the event with index 0 of the
set. The places of all other events, and of the other repetitions and threads, keep what the
memory held before.\<close>

theorem bgq_rep_first_event:
  assumes "w_result w = Some b" and "0 < unat (w_num_pmcs w)"
    and "m = b + rep_offset (w_num_pmcs w) i" and "m + Suc (unat (w_num_pmcs w)) \<le> length d"
    and "e0 = (case b_reset_arg (w_ops w) of None \<Rightarrow> e | Some reset \<Rightarrow> reset a e)"
    and "e1 = snd (Bgpm_Start lib evt_set (snd (Bgpm_Reset lib evt_set e0)))"
    and "(start, e2) = get_time_base lib e1" and "(stop, e3) = get_time_base lib (b_call (w_ops w) a e2)"
    and "(err, v, e4) = Bgpm_ReadEvent lib evt_set 0 (snd (Bgpm_Stop lib evt_set e3))"
  shows "run_rep (bgq_arch (reliable lib)) w (Some evt_set) a i (d, e) = Inr (d[m := stop - start, Suc m := v], e4)"
proof -
  let ?n = "Suc (unat (w_num_pmcs w))"
  have le: "bgq_width (Some evt_set) \<le> unat (w_num_pmcs w)" using assms(2) by (simp add: bgq_width_def)
  have r: "run_rep (bgq_arch (reliable lib)) w (Some evt_set) a i (d, e) =
      Inr (map_prod (\<lambda>r. patch m r d) id (bgq.row_rep lib w (Some evt_set) a (part m ?n d, e)))"
    by (rule bgq.run_rep_row [OF assms(1) le assms(3,4)])
  have t: "arch_timestamp_begin (bgq_arch (reliable lib)) = get_time_base lib"
    "arch_timestamp_end (bgq_arch (reliable lib)) = get_time_base lib"
    by (simp_all add: bgq_arch_def reliable_def)
  have row: "bgq.row_rep lib w (Some evt_set) a (part m ?n d, e) = ((stop - start) # [v] @ drop 2 (part m ?n d), e4)"
    unfolding bgq.row_rep_def t
    using assms(6-9) [symmetric]
    by (simp add: Let_def assms(5) bgq_begin_row_def bgq_end_row_def bgq_width_def numeral_2_eq_2
        cong: option.case_cong)
  have "(patch (Suc m) [v] d)[m := stop - start] = patch m ((stop - start) # [v] @ drop (Suc 1) (part m ?n d)) d"
    using row_patch [of "[v]" "unat (w_num_pmcs w)" m d "stop - start"] assms(2,4) by simp
  then have "patch m ((stop - start) # [v] @ drop 2 (part m ?n d)) d = d[m := stop - start, Suc m := v]"
    using assms(2,4) by (simp add: patch_single numeral_2_eq_2 list_update_swap)
  with r row show ?thesis by simp
qed

definition demo_bgpm :: "nat bgpm" where
  "demo_bgpm =
     \<lparr>get_time_base = (\<lambda>e. (of_nat e, e)), PEVT_LSU_COMMIT_LD_MISSES = 1, PEVT_L2_MISSES = 2, malloc_pmu = True,
      Bgpm_Init = (\<lambda>e. (0, e)), Bgpm_CreateEventSet = (\<lambda>e. (7, e)), Bgpm_AddEvent = (\<lambda>_ _ e. (0, e)),
      Bgpm_Apply = (\<lambda>_ e. (0, e)), Bgpm_DeleteEventSet = (\<lambda>_ e. (0, e)), Bgpm_Disable = (\<lambda>e. (0, e)),
      Bgpm_Reset = (\<lambda>_ e. (0, e)), Bgpm_Start = (\<lambda>_ e. (0, e)), Bgpm_Stop = (\<lambda>_ e. (0, e)),
      Bgpm_ReadEvent = (\<lambda>_ i e. (0, of_nat (10 + i), e))\<rparr>"

definition demo_bgq_work :: "(unit, nat) work_t" where
  "demo_bgq_work = \<lparr>w_ops = \<lparr>b_name = ''demo'', b_init_arg = None, b_reset_arg = None, b_free_arg = None,
       b_call = (\<lambda>_ e. e + 50), b_state = ()\<rparr>,
     w_arg = (), w_result = Some 0, w_reps = 1, w_pmcs = [''PEVT_L2_MISSES'', ''PEVT_LSU_COMMIT_LD_MISSES''],
     w_num_pmcs = 2\<rparr>"

theorem bgq_rep_first_event_witness:
  "run_rep (bgq_arch (reliable demo_bgpm)) demo_bgq_work (Some 7) () 0 ([99, 99, 99], 5) = Inr ([50, 10, 99], 55)"
  using bgq_rep_first_event [of demo_bgq_work 0 0 0 "[99, 99, 99]" 5 5 "()" 5 demo_bgpm 7 5 5 55 55 0 10 55]
  by (simp add: demo_bgq_work_def demo_bgpm_def rep_offset_def)

end
