(* ===== verification/Sha256.thy ===== *)
theory Sha256
  imports Prelude
begin

unbundle bit_operations_syntax

text \<open>
  The SHA-256 kernel, \<open>src/benchmarks/sha256.c\<close> (LibTomCrypt's implementation): the
  logical functions with the widths that the macros give them (the mask \<open>0xFFFFFFFFUL\<close> makes
  a rotation an \<open>unsigned long\<close>, and the assignment to a \<open>ulong32\<close> cuts it back), the
  compression function both unrolled, as it is compiled, and in the rolled form under
  \<open>LTC_SMALL_CODE\<close>, the process function that the macro \<open>HASH_PROCESS\<close> generates, and
  the finalisation. Pointers into the message are the list of the bytes still to be read.
\<close>

section \<open>Byte order\<close>

text \<open>The byte order of \<open>memcpy\<close> to and from a word is that of x86_64, little-endian.\<close>

definition load_le32 :: "u8 list \<Rightarrow> u32" where
  "load_le32 y = ucast (y ! 0) OR push_bit 8 (ucast (y ! 1)) OR push_bit 16 (ucast (y ! 2)) OR
     push_bit 24 (ucast (y ! 3))"

definition store_le32 :: "u32 \<Rightarrow> u8 list" where
  "store_le32 x = [ucast x, ucast (drop_bit 8 x), ucast (drop_bit 16 x), ucast (drop_bit 24 x)]"

definition BSWAP32 :: "u32 \<Rightarrow> u32" where
  "BSWAP32 x = push_bit 24 (x AND 0xFF) OR push_bit 8 (x AND 0xFF00) OR
     (drop_bit 8 x AND 0xFF00) OR (drop_bit 24 x AND 0xFF)"

definition LOAD32H :: "u8 list \<Rightarrow> u32" where
  "LOAD32H y = BSWAP32 (load_le32 y)"

definition STORE32H :: "u32 \<Rightarrow> u8 list" where
  "STORE32H x = store_le32 (BSWAP32 x)"

definition STORE64H :: "u64 \<Rightarrow> u8 list" where
  "STORE64H x =
     [ucast (drop_bit 56 x AND 255), ucast (drop_bit 48 x AND 255), ucast (drop_bit 40 x AND 255),
      ucast (drop_bit 32 x AND 255), ucast (drop_bit 24 x AND 255), ucast (drop_bit 16 x AND 255),
      ucast (drop_bit 8 x AND 255), ucast (x AND 255)]"

section \<open>Logical functions\<close>

definition RORc :: "u32 \<Rightarrow> nat \<Rightarrow> u64" where
  "RORc x y =
     (drop_bit (y AND 31) (ucast x AND 0xFFFFFFFF) OR
      ucast (push_bit ((32 - (y AND 31)) AND 31) x)) AND 0xFFFFFFFF"

definition Ch :: "u32 \<Rightarrow> u32 \<Rightarrow> u32 \<Rightarrow> u32" where
  "Ch x y z = z XOR (x AND (y XOR z))"

definition Maj :: "u32 \<Rightarrow> u32 \<Rightarrow> u32 \<Rightarrow> u32" where
  "Maj x y z = ((x OR y) AND z) OR (x AND y)"

definition R :: "u32 \<Rightarrow> nat \<Rightarrow> u64" where
  "R x n = drop_bit n (ucast x AND 0xFFFFFFFF)"

definition Sigma0 :: "u32 \<Rightarrow> u64" where
  "Sigma0 x = RORc x 2 XOR RORc x 13 XOR RORc x 22"

definition Sigma1 :: "u32 \<Rightarrow> u64" where
  "Sigma1 x = RORc x 6 XOR RORc x 11 XOR RORc x 25"

definition Gamma0 :: "u32 \<Rightarrow> u64" where
  "Gamma0 x = RORc x 7 XOR RORc x 18 XOR R x 3"

definition Gamma1 :: "u32 \<Rightarrow> u64" where
  "Gamma1 x = RORc x 17 XOR RORc x 19 XOR R x 10"

section \<open>The compression function\<close>

text \<open>\<open>W[0..15]\<close> from the block, \<open>W[16..63]\<close> from their predecessors.\<close>

definition load_W :: "u8 list \<Rightarrow> u32 list" where
  "load_W buf = map (\<lambda>i. LOAD32H (take 4 (drop (4 * i) buf))) [0..<16]"

definition next_W :: "nat \<Rightarrow> u32 list \<Rightarrow> u32 list" where
  "next_W i W = W @ [ucast (Gamma1 (W ! (i - 2)) + ucast (W ! (i - 7)) + Gamma0 (W ! (i - 15)) +
     ucast (W ! (i - 16)))]"

definition fill_W :: "u8 list \<Rightarrow> u32 list" where
  "fill_W buf = fold next_W [16..<64] (load_W buf)"

text \<open>
  One round, the macro \<open>RND\<close>: the list gives the places of \<open>a\<close> to \<open>h\<close> in \<open>S\<close>.
\<close>

definition rnd_t0 :: "u32 \<Rightarrow> u32 \<Rightarrow> u32 \<Rightarrow> u32 \<Rightarrow> u32 \<Rightarrow> u32 \<Rightarrow> u32" where
  "rnd_t0 e f g h ki w =
     ucast (ucast h + Sigma1 e + ucast (Ch e f g) + ucast ki + ucast w)"

definition rnd_t1 :: "u32 \<Rightarrow> u32 \<Rightarrow> u32 \<Rightarrow> u32" where
  "rnd_t1 a b c = ucast (Sigma0 a + ucast (Maj a b c))"

definition RND :: "nat list \<Rightarrow> u32 \<Rightarrow> u32 \<Rightarrow> u32 list \<Rightarrow> u32 list" where
  "RND ix ki w S =
     (let a = ix ! 0; b = ix ! 1; c = ix ! 2; d = ix ! 3; e = ix ! 4; f = ix ! 5; g = ix ! 6; h = ix ! 7;
          t0 = rnd_t0 (S ! e) (S ! f) (S ! g) (S ! h) ki w;
          t1 = rnd_t1 (S ! a) (S ! b) (S ! c);
          S1 = S[d := S ! d + t0]
      in S1[h := t0 + t1])"

text \<open>The 64 rounds as they stand in the source, one line each: places, index into \<open>W\<close>, constant.\<close>

definition rounds :: "(nat list \<times> nat \<times> u32) list" where
  "rounds =
    [([0,1,2,3,4,5,6,7], 0, 0x428a2f98),
     ([7,0,1,2,3,4,5,6], 1, 0x71374491),
     ([6,7,0,1,2,3,4,5], 2, 0xb5c0fbcf),
     ([5,6,7,0,1,2,3,4], 3, 0xe9b5dba5),
     ([4,5,6,7,0,1,2,3], 4, 0x3956c25b),
     ([3,4,5,6,7,0,1,2], 5, 0x59f111f1),
     ([2,3,4,5,6,7,0,1], 6, 0x923f82a4),
     ([1,2,3,4,5,6,7,0], 7, 0xab1c5ed5),
     ([0,1,2,3,4,5,6,7], 8, 0xd807aa98),
     ([7,0,1,2,3,4,5,6], 9, 0x12835b01),
     ([6,7,0,1,2,3,4,5], 10, 0x243185be),
     ([5,6,7,0,1,2,3,4], 11, 0x550c7dc3),
     ([4,5,6,7,0,1,2,3], 12, 0x72be5d74),
     ([3,4,5,6,7,0,1,2], 13, 0x80deb1fe),
     ([2,3,4,5,6,7,0,1], 14, 0x9bdc06a7),
     ([1,2,3,4,5,6,7,0], 15, 0xc19bf174),
     ([0,1,2,3,4,5,6,7], 16, 0xe49b69c1),
     ([7,0,1,2,3,4,5,6], 17, 0xefbe4786),
     ([6,7,0,1,2,3,4,5], 18, 0x0fc19dc6),
     ([5,6,7,0,1,2,3,4], 19, 0x240ca1cc),
     ([4,5,6,7,0,1,2,3], 20, 0x2de92c6f),
     ([3,4,5,6,7,0,1,2], 21, 0x4a7484aa),
     ([2,3,4,5,6,7,0,1], 22, 0x5cb0a9dc),
     ([1,2,3,4,5,6,7,0], 23, 0x76f988da),
     ([0,1,2,3,4,5,6,7], 24, 0x983e5152),
     ([7,0,1,2,3,4,5,6], 25, 0xa831c66d),
     ([6,7,0,1,2,3,4,5], 26, 0xb00327c8),
     ([5,6,7,0,1,2,3,4], 27, 0xbf597fc7),
     ([4,5,6,7,0,1,2,3], 28, 0xc6e00bf3),
     ([3,4,5,6,7,0,1,2], 29, 0xd5a79147),
     ([2,3,4,5,6,7,0,1], 30, 0x06ca6351),
     ([1,2,3,4,5,6,7,0], 31, 0x14292967),
     ([0,1,2,3,4,5,6,7], 32, 0x27b70a85),
     ([7,0,1,2,3,4,5,6], 33, 0x2e1b2138),
     ([6,7,0,1,2,3,4,5], 34, 0x4d2c6dfc),
     ([5,6,7,0,1,2,3,4], 35, 0x53380d13),
     ([4,5,6,7,0,1,2,3], 36, 0x650a7354),
     ([3,4,5,6,7,0,1,2], 37, 0x766a0abb),
     ([2,3,4,5,6,7,0,1], 38, 0x81c2c92e),
     ([1,2,3,4,5,6,7,0], 39, 0x92722c85),
     ([0,1,2,3,4,5,6,7], 40, 0xa2bfe8a1),
     ([7,0,1,2,3,4,5,6], 41, 0xa81a664b),
     ([6,7,0,1,2,3,4,5], 42, 0xc24b8b70),
     ([5,6,7,0,1,2,3,4], 43, 0xc76c51a3),
     ([4,5,6,7,0,1,2,3], 44, 0xd192e819),
     ([3,4,5,6,7,0,1,2], 45, 0xd6990624),
     ([2,3,4,5,6,7,0,1], 46, 0xf40e3585),
     ([1,2,3,4,5,6,7,0], 47, 0x106aa070),
     ([0,1,2,3,4,5,6,7], 48, 0x19a4c116),
     ([7,0,1,2,3,4,5,6], 49, 0x1e376c08),
     ([6,7,0,1,2,3,4,5], 50, 0x2748774c),
     ([5,6,7,0,1,2,3,4], 51, 0x34b0bcb5),
     ([4,5,6,7,0,1,2,3], 52, 0x391c0cb3),
     ([3,4,5,6,7,0,1,2], 53, 0x4ed8aa4a),
     ([2,3,4,5,6,7,0,1], 54, 0x5b9cca4f),
     ([1,2,3,4,5,6,7,0], 55, 0x682e6ff3),
     ([0,1,2,3,4,5,6,7], 56, 0x748f82ee),
     ([7,0,1,2,3,4,5,6], 57, 0x78a5636f),
     ([6,7,0,1,2,3,4,5], 58, 0x84c87814),
     ([5,6,7,0,1,2,3,4], 59, 0x8cc70208),
     ([4,5,6,7,0,1,2,3], 60, 0x90befffa),
     ([3,4,5,6,7,0,1,2], 61, 0xa4506ceb),
     ([2,3,4,5,6,7,0,1], 62, 0xbef9a3f7),
     ([1,2,3,4,5,6,7,0], 63, 0xc67178f2)]"

definition rounds_unrolled :: "u32 list \<Rightarrow> u32 list \<Rightarrow> u32 list" where
  "rounds_unrolled W S = fold (\<lambda>(ix, i, ki) S. RND ix ki (W ! i) S) rounds S"

text \<open>The rolled form: the table \<open>K\<close>, and a loop that moves the state round by one place.\<close>

definition K :: "u32 list" where
  "K = concat
    [[0x428a2f98, 0x71374491, 0xb5c0fbcf, 0xe9b5dba5, 0x3956c25b],
     [0x59f111f1, 0x923f82a4, 0xab1c5ed5, 0xd807aa98, 0x12835b01],
     [0x243185be, 0x550c7dc3, 0x72be5d74, 0x80deb1fe, 0x9bdc06a7],
     [0xc19bf174, 0xe49b69c1, 0xefbe4786, 0x0fc19dc6, 0x240ca1cc],
     [0x2de92c6f, 0x4a7484aa, 0x5cb0a9dc, 0x76f988da, 0x983e5152],
     [0xa831c66d, 0xb00327c8, 0xbf597fc7, 0xc6e00bf3, 0xd5a79147],
     [0x06ca6351, 0x14292967, 0x27b70a85, 0x2e1b2138, 0x4d2c6dfc],
     [0x53380d13, 0x650a7354, 0x766a0abb, 0x81c2c92e, 0x92722c85],
     [0xa2bfe8a1, 0xa81a664b, 0xc24b8b70, 0xc76c51a3, 0xd192e819],
     [0xd6990624, 0xf40e3585, 0x106aa070, 0x19a4c116, 0x1e376c08],
     [0x2748774c, 0x34b0bcb5, 0x391c0cb3, 0x4ed8aa4a, 0x5b9cca4f],
     [0x682e6ff3, 0x748f82ee, 0x78a5636f, 0x84c87814, 0x8cc70208],
     [0x90befffa, 0xa4506ceb, 0xbef9a3f7, 0xc67178f2]]"

definition round_small :: "u32 list \<Rightarrow> nat \<Rightarrow> u32 list \<Rightarrow> u32 list" where
  "round_small W i S =
     (let S1 = RND [0, 1, 2, 3, 4, 5, 6, 7] (K ! i) (W ! i) S in S1 ! 7 # take 7 S1)"

definition rounds_small :: "u32 list \<Rightarrow> u32 list \<Rightarrow> u32 list" where
  "rounds_small W S = fold (round_small W) [0..<64] S"

text \<open>The chaining value after one block: the rounds and the feedback.\<close>

definition compress_state :: "u32 list \<Rightarrow> u8 list \<Rightarrow> u32 list" where
  "compress_state st buf = map2 (+) st (rounds_unrolled (fill_W buf) st)"

section \<open>The hash state and its operations\<close>

datatype crypt =
  CRYPT_OK | CRYPT_ERROR | CRYPT_NOP | CRYPT_INVALID_KEYSIZE | CRYPT_INVALID_ROUNDS
  | CRYPT_FAIL_TESTVECTOR | CRYPT_BUFFER_OVERFLOW | CRYPT_INVALID_PACKET
  | CRYPT_INVALID_PRNGSIZE | CRYPT_ERROR_READPRNG | CRYPT_INVALID_CIPHER | CRYPT_INVALID_HASH
  | CRYPT_INVALID_PRNG | CRYPT_MEM | CRYPT_PK_TYPE_MISMATCH | CRYPT_PK_NOT_PRIVATE
  | CRYPT_INVALID_ARG | CRYPT_FILE_NOTFOUND | CRYPT_PK_INVALID_TYPE | CRYPT_OVERFLOW
  | CRYPT_UNUSED1 | CRYPT_INPUT_TOO_LONG | CRYPT_PK_INVALID_SIZE | CRYPT_INVALID_PRIME_SIZE
  | CRYPT_PK_INVALID_PADDING | CRYPT_HASH_OVERFLOW

record sha256_state =
  md_length :: u64
  md_buf :: "u8 list"    \<comment> \<open>64 bytes\<close>
  md_state :: "u32 list" \<comment> \<open>8 words\<close>
  md_curlen :: u32

definition sha256_compress :: "sha256_state \<Rightarrow> u8 list \<Rightarrow> crypt \<times> sha256_state" where
  "sha256_compress md buf = (CRYPT_OK, md\<lparr>md_state := compress_state (md_state md) buf\<rparr>)"

definition H0 :: "u32 list" where
  "H0 = [0x6A09E667, 0xBB67AE85, 0x3C6EF372, 0xA54FF53A, 0x510E527F, 0x9B05688C, 0x1F83D9AB, 0x5BE0CD19]"

definition sha256_init :: "sha256_state \<Rightarrow> sha256_state" where
  "sha256_init md = md\<lparr>md_curlen := 0, md_length := 0, md_state := H0\<rparr>"

text \<open>\<open>memcpy (buf + k, xs, length xs)\<close> inside the buffer.\<close>

definition copy_in :: "u8 list \<Rightarrow> nat \<Rightarrow> u8 list \<Rightarrow> u8 list" where
  "copy_in buf k xs = take k buf @ xs @ drop (k + length xs) buf"

lemma buffer_room: "c \<noteq> (64 :: u32) \<Longrightarrow> 0 < unat (64 - c)"
  by (simp add: unat_gt_0)

text \<open>
  The loop of \<open>HASH_PROCESS\<close> with the block size 64 and the compression function as its
  argument. It ends for every state of the object, the damaged ones included.
\<close>

function process_loop ::
  "(sha256_state \<Rightarrow> u8 list \<Rightarrow> crypt \<times> sha256_state) \<Rightarrow> sha256_state \<Rightarrow> u8 list \<Rightarrow> crypt \<times> sha256_state"
where
  "process_loop compress md inp =
     (if inp = [] then (CRYPT_OK, md)
      else if md_curlen md = 0 \<and> 64 \<le> length inp then
        (case compress md (take 64 inp) of (err, md1) \<Rightarrow>
           if err \<noteq> CRYPT_OK then (err, md1)
           else process_loop compress (md1\<lparr>md_length := md_length md1 + 64 * 8\<rparr>) (drop 64 inp))
      else
        (let n = min (length inp) (unat (64 - md_curlen md));
             md1 = md\<lparr>md_buf := copy_in (md_buf md) (unat (md_curlen md)) (take n inp),
                      md_curlen := md_curlen md + of_nat n\<rparr>
         in if md_curlen md1 = 64 then
              (case compress md1 (md_buf md1) of (err, md2) \<Rightarrow>
                 if err \<noteq> CRYPT_OK then (err, md2)
                 else process_loop compress
                   (md2\<lparr>md_length := md_length md2 + 8 * 64, md_curlen := 0\<rparr>) (drop n inp))
            else process_loop compress md1 (drop n inp)))"
  by pat_completeness auto
termination
proof (relation "measure (\<lambda>(c, md, inp). 2 * length inp + (if md_curlen md = 64 then 1 else 0))", goal_cases)
  case (3 compress md inp)
  then show ?case by (cases "md_curlen md = 64") (simp_all add: buffer_room)
next
  case (4 compress md inp n md1)
  then have "md_curlen md \<noteq> 64" by auto
  with 4 show ?case by (simp add: buffer_room)
qed auto

declare process_loop.simps [simp del]

definition hash_process ::
  "(sha256_state \<Rightarrow> u8 list \<Rightarrow> crypt \<times> sha256_state) \<Rightarrow> sha256_state \<Rightarrow> u8 list \<Rightarrow> crypt \<times> sha256_state"
where
  "hash_process compress md inp =
     (if 64 < md_curlen md then (CRYPT_INVALID_ARG, md)
      else if md_length md + of_nat (length inp) < md_length md then (CRYPT_HASH_OVERFLOW, md)
      else process_loop compress md inp)"

definition sha256_process :: "sha256_state \<Rightarrow> u8 list \<Rightarrow> crypt \<times> sha256_state" where
  "sha256_process = hash_process sha256_compress"

function zero_fill :: "u32 \<Rightarrow> sha256_state \<Rightarrow> sha256_state" where
  "zero_fill lim md =
     (if md_curlen md < lim
      then zero_fill lim (md\<lparr>md_buf := (md_buf md)[unat (md_curlen md) := 0],
                            md_curlen := md_curlen md + 1\<rparr>)
      else md)"
  by pat_completeness auto
termination
proof (relation "measure (\<lambda>(lim, md). unat lim - unat (md_curlen md))", goal_cases)
  case (2 lim md)
  then show ?case by (simp add: unat_Suc32 word_less_nat_alt diff_less_mono2)
qed simp

declare zero_fill.simps [simp del]

definition sha256_done :: "sha256_state \<Rightarrow> crypt \<times> sha256_state \<times> u8 list" where
  "sha256_done md =
     (if 64 \<le> md_curlen md then (CRYPT_INVALID_ARG, md, [])
      else
        let md1 = md\<lparr>md_length := md_length md + ucast (md_curlen md * 8)\<rparr>;
            md2 = md1\<lparr>md_buf := (md_buf md1)[unat (md_curlen md1) := 0x80],
                      md_curlen := md_curlen md1 + 1\<rparr>;
            md3 = (if 56 < md_curlen md2
                   then (let z = zero_fill 64 md2
                         in (snd (sha256_compress z (md_buf z)))\<lparr>md_curlen := 0\<rparr>)
                   else md2);
            md4 = zero_fill 56 md3;
            md5 = md4\<lparr>md_buf := copy_in (md_buf md4) 56 (STORE64H (md_length md4))\<rparr>;
            md6 = snd (sha256_compress md5 (md_buf md5))
        in (CRYPT_OK, md6, concat (map STORE32H (md_state md6))))"

section \<open>The self test and the benchmark\<close>

text \<open>\<open>memcmp\<close> orders by the first byte that differs.\<close>

fun memcmp :: "u8 list \<Rightarrow> u8 list \<Rightarrow> int" where
  "memcmp (x # xs) (y # ys) = (if x = y then memcmp xs ys else if x < y then -1 else 1)"
| "memcmp _ _ = 0"

definition compare_testvector :: "u8 list \<Rightarrow> u8 list \<Rightarrow> int" where
  "compare_testvector is should =
     (if length is \<noteq> length should then (if length should < length is then -1 else 1)
      else memcmp is should)"

text \<open>
  The loop of \<open>sha256_test\<close> over a table of messages and digests. The hash object and the
  output buffer are on the stack, their first contents arbitrary.
\<close>

fun run_tests :: "sha256_state \<Rightarrow> (u8 list \<times> u8 list) list \<Rightarrow> crypt" where
  "run_tests md [] = CRYPT_OK"
| "run_tests md ((msg, hash) # tests) =
     (let md1 = snd (sha256_process (sha256_init md) msg)
      in case sha256_done md1 of (err, md2, tmp) \<Rightarrow>
           if compare_testvector tmp hash \<noteq> 0 then CRYPT_FAIL_TESTVECTOR else run_tests md2 tests)"

definition tests :: "(u8 list \<times> u8 list) list" where
  "tests =
    [(map of_char ''abc'',
      [0xba, 0x78, 0x16, 0xbf, 0x8f, 0x01, 0xcf, 0xea, 0x41, 0x41, 0x40,
       0xde, 0x5d, 0xae, 0x22, 0x23, 0xb0, 0x03, 0x61, 0xa3, 0x96, 0x17,
       0x7a, 0x9c, 0xb4, 0x10, 0xff, 0x61, 0xf2, 0x00, 0x15, 0xad]),
     (map of_char ''abcdbcdecdefdefgefghfghighijhijkijkljklmklmnlmnomnopnopq'',
      [0x24, 0x8d, 0x6a, 0x61, 0xd2, 0x06, 0x38, 0xb8, 0xe5, 0xc0, 0x26,
       0x93, 0x0c, 0x3e, 0x60, 0x39, 0xa3, 0x3c, 0xe4, 0x59, 0x64, 0xff,
       0x21, 0x67, 0xf6, 0xec, 0xed, 0xd4, 0x19, 0xdb, 0x06, 0xc1])]"

definition sha256_test :: "sha256_state \<Rightarrow> crypt" where
  "sha256_test md = run_tests md tests"

record SHA256_t =
  sha_md :: sha256_state
  sha_buf :: "u8 list"
  sha_length :: u64

text \<open>
  The two flags say whether the two calls of \<open>malloc\<close> returned memory; \<open>raw\<close> is what the
  first one returned. The argument is a null pointer, as the assertion asks for: it is the state of the
benchmark, which is one.
\<close>

definition SHA256_argument_init :: "bool \<Rightarrow> bool \<Rightarrow> SHA256_t \<Rightarrow> u64 \<Rightarrow> SHA256_t outcome" where
  "SHA256_argument_init arg_ok buf_ok raw sz =
     (if \<not> arg_ok then Inl ExitFailure
      else if \<not> buf_ok then Inl ExitFailure
      else Inr (raw\<lparr>sha_length := sz, sha_buf := replicate (unat sz) 0,
                    sha_md := sha256_init (sha_md raw)\<rparr>))"

definition SHA256_call :: "u64 \<Rightarrow> SHA256_t \<Rightarrow> SHA256_t outcome" where
  "SHA256_call iterations =
     fold_res (\<lambda>_ a. case sha256_process (sha_md a) (take (unat (sha_length a)) (sha_buf a)) of
       (ret, md1) \<Rightarrow> if ret = CRYPT_OK then Inr (a\<lparr>sha_md := md1\<rparr>) else Inl AssertFailed)
     [0..<unat iterations]"

end
