(* ===== verification/Sha256_Spec.thy ===== *)
theory Sha256_Spec
  imports Prelude
begin

unbundle bit_operations_syntax

text \<open>
  The reference for the SHA-256 kernel: FIPS 180-4 on lists of bytes. It is independent of the
  code: rotations and the functions of section 4.1.2 on 32-bit words, the eight working
  variables as a tuple, the message schedule, padding, and the iteration over the blocks.
\<close>

section \<open>Functions on words\<close>

definition ROTR :: "nat \<Rightarrow> u32 \<Rightarrow> u32" where
  "ROTR n x = drop_bit n x OR push_bit (32 - n) x"

definition SHR :: "nat \<Rightarrow> u32 \<Rightarrow> u32" where
  "SHR n x = drop_bit n x"

definition ch_spec :: "u32 \<Rightarrow> u32 \<Rightarrow> u32 \<Rightarrow> u32" where
  "ch_spec x y z = (x AND y) XOR (NOT x AND z)"

definition maj_spec :: "u32 \<Rightarrow> u32 \<Rightarrow> u32 \<Rightarrow> u32" where
  "maj_spec x y z = (x AND y) XOR (x AND z) XOR (y AND z)"

definition upper0 :: "u32 \<Rightarrow> u32" where
  "upper0 x = ROTR 2 x XOR ROTR 13 x XOR ROTR 22 x"

definition upper1 :: "u32 \<Rightarrow> u32" where
  "upper1 x = ROTR 6 x XOR ROTR 11 x XOR ROTR 25 x"

definition lower0 :: "u32 \<Rightarrow> u32" where
  "lower0 x = ROTR 7 x XOR ROTR 18 x XOR SHR 3 x"

definition lower1 :: "u32 \<Rightarrow> u32" where
  "lower1 x = ROTR 17 x XOR ROTR 19 x XOR SHR 10 x"

section \<open>The constants\<close>

text \<open>
  The constants are the first 32 bits of the fractional parts of the cube roots of the first 64
  primes, and for the initial hash value of the square roots of the first eight. The root of
  \<open>p * 2 ^ (32 * d)\<close> is found bit by bit, from bit 37 down: the largest, that of the
  cube root of 311, has 35 bits.
\<close>

fun root_bits :: "nat \<Rightarrow> nat \<Rightarrow> nat \<Rightarrow> nat \<Rightarrow> nat" where
  "root_bits d n 0 acc = acc"
| "root_bits d n (Suc b) acc =
     root_bits d n b (if (acc + 2 ^ b) ^ d \<le> n then acc + 2 ^ b else acc)"

definition frac_root :: "nat \<Rightarrow> nat \<Rightarrow> u32" where
  "frac_root d p = of_nat (root_bits d (p * 2 ^ (32 * d)) 38 0)"

definition first_primes :: "nat list" where
  "first_primes =
    [2, 3, 5, 7, 11, 13, 17, 19, 23, 29, 31, 37, 41, 43, 47, 53,
     59, 61, 67, 71, 73, 79, 83, 89, 97, 101, 103, 107, 109, 113, 127, 131,
     137, 139, 149, 151, 157, 163, 167, 173, 179, 181, 191, 193, 197, 199, 211, 223,
     227, 229, 233, 239, 241, 251, 257, 263, 269, 271, 277, 281, 283, 293, 307, 311]"

definition spec_K :: "u32 list" where
  "spec_K = map (frac_root 3) first_primes"

definition spec_H :: "u32 list" where
  "spec_H = map (frac_root 2) (take 8 first_primes)"

text \<open>The search finds the root, rounded down, and there is only one.\<close>

lemma root_bits_correct:
  assumes "acc ^ d \<le> n" and "n < (acc + 2 ^ b) ^ d"
  shows "(root_bits d n b acc) ^ d \<le> n \<and> n < (root_bits d n b acc + 1) ^ d"
  using assms by (induction b arbitrary: acc) (simp_all add: add.assoc mult_2)

lemma root_unique:
  fixes q r :: nat
  assumes "q ^ d \<le> n" and "n < (q + 1) ^ d" and "r ^ d \<le> n" and "n < (r + 1) ^ d"
  shows "q = r"
proof -
  have "q < r + 1" and "r < q + 1"
    using assms by (auto intro: power_less_imp_less_base [OF le_less_trans])
  then show ?thesis by simp
qed

lemma frac_root_eq:
  assumes "0 < d" and "p < 2 ^ (5 * d)"
    and "r ^ d \<le> p * 2 ^ (32 * d)" and "p * 2 ^ (32 * d) < (r + 1) ^ d"
  shows "frac_root d p = of_nat r"
proof -
  have "p * 2 ^ (32 * d) < 2 ^ (5 * d) * 2 ^ (32 * d)" using assms(2) by simp
  also have "\<dots> = (2 ^ 37) ^ d" by (simp only: power_add [symmetric] power_mult [symmetric]) simp
  also have "\<dots> \<le> (0 + 2 ^ 38) ^ d" by (rule power_mono) simp_all
  finally have "root_bits d (p * 2 ^ (32 * d)) 38 0 = r"
    using root_bits_correct [of 0 d "p * 2 ^ (32 * d)" 38] assms
    by (intro root_unique [of _ d "p * 2 ^ (32 * d)"]) (auto simp: zero_power)
  then show ?thesis by (simp add: frac_root_def)
qed

lemma of_nat_mod_32: "(of_nat (n mod 2 ^ 32) :: u32) = of_nat n"
  by (rule word_unat_eq_iff [THEN iffD2]) (simp add: unat_of_nat)

lemma map_frac_root:
  assumes "0 < d"
    and "list_all2 (\<lambda>p r. p < 2 ^ (5 * d) \<and> r ^ d \<le> p * 2 ^ (32 * d) \<and> p * 2 ^ (32 * d) < (r + 1) ^ d) ps rs"
  shows "map (frac_root d) ps = map (\<lambda>r. of_nat (r mod 2 ^ 32)) rs"
  using assms(2) unfolding of_nat_mod_32
  by (induction rule: list_all2_induct) (simp_all add: frac_root_eq [OF assms(1)])

section \<open>The compression of one block\<close>

definition word_be :: "u8 list \<Rightarrow> u32" where
  "word_be bs = push_bit 24 (ucast (bs ! 0)) OR push_bit 16 (ucast (bs ! 1)) OR
     push_bit 8 (ucast (bs ! 2)) OR ucast (bs ! 3)"

definition bytes_be :: "u32 \<Rightarrow> u8 list" where
  "bytes_be x = [ucast (drop_bit 24 x), ucast (drop_bit 16 x), ucast (drop_bit 8 x), ucast x]"

fun schedule :: "nat \<Rightarrow> u32 list \<Rightarrow> u32 list" where
  "schedule 0 W = W"
| "schedule (Suc n) W =
     (let W' = schedule n W; t = length W'
      in W' @ [lower1 (W' ! (t - 2)) + W' ! (t - 7) + lower0 (W' ! (t - 15)) + W' ! (t - 16)])"

type_synonym vars = "u32 \<times> u32 \<times> u32 \<times> u32 \<times> u32 \<times> u32 \<times> u32 \<times> u32"

fun spec_round :: "u32 \<Rightarrow> u32 \<Rightarrow> vars \<Rightarrow> vars" where
  "spec_round k w (a, b, c, d, e, f, g, h) =
     (let T1 = h + upper1 e + ch_spec e f g + k + w;
          T2 = upper0 a + maj_spec a b c
      in (T1 + T2, a, b, c, d + T1, e, f, g))"

fun spec_rounds :: "u32 list \<Rightarrow> u32 list \<Rightarrow> vars \<Rightarrow> vars" where
  "spec_rounds (k # ks) (w # ws) v = spec_rounds ks ws (spec_round k w v)"
| "spec_rounds _ _ v = v"

fun vars_of :: "u32 list \<Rightarrow> vars" where
  "vars_of H = (H ! 0, H ! 1, H ! 2, H ! 3, H ! 4, H ! 5, H ! 6, H ! 7)"

fun list_of_vars :: "vars \<Rightarrow> u32 list" where
  "list_of_vars (a, b, c, d, e, f, g, h) = [a, b, c, d, e, f, g, h]"

definition block_words :: "u8 list \<Rightarrow> u32 list" where
  "block_words block = map (\<lambda>i. word_be (take 4 (drop (4 * i) block))) [0..<16]"

definition spec_compress :: "u32 list \<Rightarrow> u8 list \<Rightarrow> u32 list" where
  "spec_compress H block =
     map2 (+) H (list_of_vars (spec_rounds spec_K (schedule 48 (block_words block)) (vars_of H)))"

section \<open>The hash of a message\<close>

fun blocks :: "u8 list \<Rightarrow> u8 list list" where
  "blocks xs = (if length xs < 64 then [] else take 64 xs # blocks (drop 64 xs))"

declare blocks.simps [simp del]

text \<open>The length in bits as eight bytes, big-endian.\<close>

definition length_be :: "nat \<Rightarrow> u8 list" where
  "length_be n = map (\<lambda>i. of_nat (n div 2 ^ (8 * i) mod 256)) (rev [0..<8])"

text \<open>
  A one bit, zeros up to a length congruent 56 modulo 64, and the length: the padding of a message
  of bytes.
\<close>

definition padding :: "nat \<Rightarrow> u8 list" where
  "padding len = 0x80 # replicate ((119 - len mod 64) mod 64) 0 @ length_be (8 * len)"

definition sha256_spec :: "u8 list \<Rightarrow> u8 list" where
  "sha256_spec msg =
     concat (map bytes_be (foldl spec_compress spec_H (blocks (msg @ padding (length msg)))))"

end
