(* ===== verification/Sha256_Digest.thy ===== *)
theory Sha256_Digest
  imports Sha256_Proofs
begin

unbundle bit_operations_syntax

text \<open>
  The process function on a message given in any pieces, as a client of a compression function
  (locale \<open>hash_core\<close>, interpreted on the compression function of the code), and the
  finalisation against the padding of the standard.
\<close>

section \<open>Messages in pieces\<close>

text \<open>The part of a message in whole blocks, and the rest.\<close>

definition whole :: "u8 list \<Rightarrow> u8 list" where
  "whole msg = take (64 * (length msg div 64)) msg"

definition rest :: "u8 list \<Rightarrow> u8 list" where
  "rest msg = drop (64 * (length msg div 64)) msg"

lemma whole_rest:
  assumes "64 dvd length p" and "length t < 64"
  shows "whole (p @ t) = p" and "rest (p @ t) = t"
  using assms by (auto simp: whole_def rest_def elim!: dvdE)

lemma whole_rest_append [simp]: "whole msg @ rest msg = msg" "whole msg @ rest msg @ xs = msg @ xs"
  by (simp_all add: whole_def rest_def append_assoc [symmetric] del: append_assoc)

lemma whole_rest_length: "64 dvd length (whole msg)" "length (rest msg) < 64"
proof -
  have "64 * (length msg div 64) \<le> length msg" by simp
  then show "64 dvd length (whole msg)" by (simp add: whole_def min_absorb2)
  show "length (rest msg) < 64" by (simp add: rest_def minus_mult_div_eq_mod)
qed

lemma blocks_append:
  assumes "64 dvd length p"
  shows "blocks (p @ q) = blocks p @ blocks q"
  using assms
proof (induction p rule: blocks.induct)
  case (1 p)
  show ?case
  proof (cases "length p < 64")
    case True
    then have "p = []" using 1 by (auto dest: dvd_imp_le)
    then show ?thesis by (simp add: blocks.simps [of "[]"])
  next
    case False
    then have "64 dvd length (drop 64 p)" using 1(2) by (simp add: dvd_diff_nat)
    with False show ?thesis
      using 1(1) by (simp add: blocks.simps [of p] blocks.simps [of "p @ q"])
  qed
qed

lemma blocks_short: "length t < 64 \<Longrightarrow> blocks t = []"
  by (simp add: blocks.simps)

lemma blocks_one: "length b = 64 \<Longrightarrow> blocks b = [b]"
  by (simp add: blocks.simps [of b] blocks_short)

lemma length_copy_in [simp]: "k + length xs \<le> length b \<Longrightarrow> length (copy_in b k xs) = length b"
  by (simp add: copy_in_def)

lemma take_copy_in:
  "k + length xs \<le> length b \<Longrightarrow> take (k + length xs) (copy_in b k xs) = take k b @ xs"
  by (simp add: copy_in_def)

text \<open>
  What the process function needs of the compression function is that it succeeds and changes
  the chaining value only, by a function of the chaining value and the block.
\<close>

locale hash_core =
  fixes compress :: "sha256_state \<Rightarrow> u8 list \<Rightarrow> crypt \<times> sha256_state"
    and g :: "u32 list \<Rightarrow> u8 list \<Rightarrow> u32 list"
    and start :: "u32 list"
  assumes compress: "compress md b = (CRYPT_OK, md\<lparr>md_state := g (md_state md) b\<rparr>)"
begin

definition absorbed :: "sha256_state \<Rightarrow> u8 list \<Rightarrow> bool" where
  "absorbed md msg \<longleftrightarrow>
     length (md_buf md) = 64 \<and> md_curlen md = of_nat (length (rest msg)) \<and>
     take (length (rest msg)) (md_buf md) = rest msg \<and>
     md_length md = of_nat (8 * length (whole msg)) \<and>
     md_state md = foldl g start (blocks (whole msg))"

lemma absorbedI:
  assumes "64 dvd length p" and "length t < 64" and "length (md_buf md) = 64"
    and "md_curlen md = of_nat (length t)" and "take (length t) (md_buf md) = t"
    and "md_length md = of_nat (8 * length p)" and "md_state md = foldl g start (blocks p)"
  shows "absorbed md (p @ t)"
  using assms by (simp add: absorbed_def whole_rest)

lemma absorbed_block:
  assumes "absorbed md msg" and "rest msg @ b = w" and "length w = 64" and "length buf = 64"
  shows "absorbed (md\<lparr>md_buf := buf, md_state := g (md_state md) w,
      md_length := md_length md + 512, md_curlen := 0\<rparr>) (msg @ b)"
proof -
  have "msg @ b = (whole msg @ w) @ []" using assms(2) by (auto simp: append_assoc)
  moreover have "absorbed (md\<lparr>md_buf := buf, md_state := g (md_state md) w,
      md_length := md_length md + 512, md_curlen := 0\<rparr>) ((whole msg @ w) @ [])"
    using assms whole_rest_length(1) [of msg]
    by (intro absorbedI) (simp_all add: absorbed_def blocks_append blocks_one algebra_simps)
  ultimately show ?thesis by simp
qed

lemma absorbed_tail:
  assumes "absorbed md msg" and "length (rest msg) + length xs < 64"
  shows "absorbed (md\<lparr>md_buf := copy_in (md_buf md) (length (rest msg)) xs,
      md_curlen := md_curlen md + of_nat (length xs)\<rparr>) (msg @ xs)"
proof -
  have "msg @ xs = whole msg @ (rest msg @ xs)" by simp
  moreover have "absorbed (md\<lparr>md_buf := copy_in (md_buf md) (length (rest msg)) xs,
      md_curlen := md_curlen md + of_nat (length xs)\<rparr>) (whole msg @ (rest msg @ xs))"
    using assms whole_rest_length(1) [of msg] take_copy_in [of "length (rest msg)" xs "md_buf md"]
    by (intro absorbedI) (simp_all add: absorbed_def)
  ultimately show ?thesis by (simp only:)
qed

lemma absorbed_curlen:
  assumes "absorbed md msg"
  shows "unat (md_curlen md) = length (rest msg)" and "length (rest msg) < 64"
    and "unat (64 - md_curlen md) = 64 - length (rest msg)"
proof -
  show l: "length (rest msg) < 64" by (rule whole_rest_length)
  show c: "unat (md_curlen md) = length (rest msg)"
    using assms l by (simp add: absorbed_def unat_of_nat)
  show "unat (64 - md_curlen md) = 64 - length (rest msg)"
    using c l by (simp add: unat_sub word_le_nat_alt)
qed

lemma process_loop_absorbs:
  "absorbed md msg \<Longrightarrow> \<exists>md'. process_loop compress md inp = (CRYPT_OK, md') \<and> absorbed md' (msg @ inp)"
proof (induction "length inp" arbitrary: md msg inp rule: less_induct)
  case less
  note cl = absorbed_curlen [OF less.prems]
  have b: "length (md_buf md) = 64" using less.prems by (simp add: absorbed_def)
  consider "inp = []" | (direct) "inp \<noteq> []" "rest msg = []" "64 \<le> length inp"
    | (fill) "inp \<noteq> []" "rest msg \<noteq> [] \<or> length inp < 64" "64 - length (rest msg) \<le> length inp"
    | (tail) "inp \<noteq> []" "rest msg \<noteq> [] \<or> length inp < 64" "length inp < 64 - length (rest msg)"
    by linarith
  then show ?case
  proof cases
    case 1
    then show ?thesis using less.prems by (simp add: process_loop.simps)
  next
    case direct
    let ?md = "md\<lparr>md_state := g (md_state md) (take 64 inp), md_length := md_length md + 512\<rparr>"
    have c: "md_curlen md = 0" using less.prems direct by (simp add: absorbed_def)
    have "absorbed ?md (msg @ take 64 inp)"
      using absorbed_block [OF less.prems _ _ b, of "take 64 inp" "take 64 inp"] direct c by (cases md) simp
    from less.hyps [OF _ this, of "drop 64 inp"] direct
    show ?thesis by (simp add: process_loop.simps [of compress md inp] compress c)
  next
    case fill
    define n where "n = 64 - length (rest msg)"
    let ?w = "rest msg @ take n inp"
    let ?buf = "copy_in (md_buf md) (length (rest msg)) (take n inp)"
    let ?md = "md\<lparr>md_buf := ?buf, md_state := g (md_state md) ?w, md_length := md_length md + 512, md_curlen := 0\<rparr>"
    have n: "0 < n" "n \<le> length inp" "length (rest msg) + n = 64"
      using cl(2) fill by (simp_all add: n_def)
    have ln: "length (take n inp) = n" using n by simp
    have lw: "length ?buf = 64" using b n ln by (simp only: length_copy_in)
    have "take (length (rest msg) + n) ?buf = take (length (rest msg)) (md_buf md) @ take n inp"
      by (rule take_copy_in [of _ "take n inp", unfolded ln]) (use b n in simp)
    then have w: "take 64 ?buf = ?w" using less.prems unfolding n(3) by (simp add: absorbed_def)
    have e: "?buf = ?w" using w lw by simp
    have c: "md_curlen md + of_nat n = 64"
    proof (rule word_unat_eq_iff [THEN iffD2])
      show "unat (md_curlen md + of_nat n) = unat (64 :: u32)"
        using n cl by (simp add: unat_word_ariths unat_of_nat)
    qed
    have z: "\<not> (md_curlen md = 0 \<and> 64 \<le> length inp)" using fill cl by auto
    have m: "min (length inp) (unat (64 - md_curlen md)) = n" using n cl by (simp add: n_def)
    have "absorbed ?md (msg @ take n inp)"
      by (rule absorbed_block [OF less.prems refl _ lw]) (use n in \<open>simp add: min_def\<close>)
    from less.hyps [OF _ this, of "drop n inp"] fill(1) n z m c cl e
    show ?thesis
      by (cases "md_curlen md = 0") (simp_all add: process_loop.simps [of compress md inp] compress Let_def)
  next
    case tail
    let ?md = "md\<lparr>md_buf := copy_in (md_buf md) (length (rest msg)) inp,
        md_curlen := md_curlen md + of_nat (length inp)\<rparr>"
    have m: "min (length inp) (unat (64 - md_curlen md)) = length inp" using tail cl by simp
    have z: "\<not> (md_curlen md = 0 \<and> 64 \<le> length inp)" using tail by linarith
    have a: "absorbed ?md (msg @ inp)"
      by (rule absorbed_tail [OF less.prems]) (use tail in simp)
    have "unat (md_curlen md + of_nat (length inp)) < 64"
      using tail cl by (simp add: unat_word_ariths unat_of_nat)
    then have c: "md_curlen md + of_nat (length inp) \<noteq> 64" by auto
    show ?thesis using a tail(1) z m c cl
      by (cases "md_curlen md = 0")
        (simp_all add: process_loop.simps [of compress md inp] process_loop.simps [of compress _ "[]"] Let_def)
  qed
qed

text \<open>The guard never fires while the message is shorter than \<open>2 ^ 61\<close> bytes.\<close>

lemma hash_process_absorbs:
  assumes "absorbed md msg" and "length msg + length inp < 2 ^ 61"
  shows "\<exists>md'. hash_process compress md inp = (CRYPT_OK, md') \<and> absorbed md' (msg @ inp)"
proof -
  have "length (whole msg) \<le> length msg" by (simp add: whole_def)
  then have l: "8 * length (whole msg) + length inp < 2 ^ 64" using assms(2) by simp
  have "unat (md_length md) = 8 * length (whole msg)"
    using assms(1) l by (simp add: absorbed_def unat_of_nat del: of_nat_mult of_nat_numeral)
  moreover from this have "unat (md_length md + of_nat (length inp)) = 8 * length (whole msg) + length inp"
    using l by (simp add: unat_word_ariths unat_of_nat)
  ultimately have "\<not> md_length md + of_nat (length inp) < md_length md"
    by (simp add: word_less_nat_alt)
  moreover have "\<not> 64 < md_curlen md"
    using absorbed_curlen(1,2) [OF assms(1)] by (simp add: word_less_nat_alt)
  ultimately show ?thesis
    using process_loop_absorbs [OF assms(1)] by (simp add: hash_process_def)
qed

end

interpretation sha256: hash_core sha256_compress compress_state H0
  by unfold_locales (simp add: sha256_compress_def)

lemma sha256_init_absorbed: "length (md_buf md) = 64 \<Longrightarrow> sha256.absorbed (sha256_init md) []"
  by (simp add: sha256.absorbed_def sha256_init_def whole_def rest_def blocks.simps [of "[]"])

text \<open>A client that feeds a message in pieces.\<close>

fun feed :: "sha256_state \<Rightarrow> u8 list list \<Rightarrow> crypt \<times> sha256_state" where
  "feed md [] = (CRYPT_OK, md)"
| "feed md (p # ps) =
     (case sha256_process md p of (err, md1) \<Rightarrow> if err = CRYPT_OK then feed md1 ps else (err, md1))"

lemma feed_absorbs:
  "sha256.absorbed md msg \<Longrightarrow> length msg + length (concat ps) < 2 ^ 61 \<Longrightarrow>
    \<exists>md'. feed md ps = (CRYPT_OK, md') \<and> sha256.absorbed md' (msg @ concat ps)"
proof (induction ps arbitrary: md msg)
  case (Cons p ps)
  obtain md1 where 1: "sha256_process md p = (CRYPT_OK, md1)" "sha256.absorbed md1 (msg @ p)"
    using sha256.hash_process_absorbs [OF Cons.prems(1), of p] Cons.prems(2)
    by (auto simp: sha256_process_def)
  then show ?case using Cons.IH [OF 1(2)] Cons.prems(2) by simp
qed simp

section \<open>Finalisation\<close>

lemma zero_fill_eq:
  assumes "c \<le> l" and "l \<le> 64" and "md_curlen md = of_nat c" and "length (md_buf md) = 64"
  shows "zero_fill (of_nat l) md =
    md\<lparr>md_buf := take c (md_buf md) @ replicate (l - c) 0 @ drop l (md_buf md), md_curlen := of_nat l\<rparr>"
  using assms
proof (induction "l - c" arbitrary: c md)
  case 0
  then have "c = l" by simp
  with 0 show ?case by (cases md) (simp add: zero_fill.simps)
next
  case (Suc k)
  let ?md = "md\<lparr>md_buf := (md_buf md)[c := 0], md_curlen := of_nat (Suc c)\<rparr>"
  have u: "unat (of_nat c :: u32) = c" "unat (of_nat l :: u32) = l" using Suc by (simp_all add: unat_of_nat)
  have "(of_nat c :: u32) < of_nat l" using Suc.hyps(2) u by (simp add: word_less_nat_alt)
  then have "zero_fill (of_nat l) md = zero_fill (of_nat l) ?md"
    using Suc.prems u by (subst zero_fill.simps) (simp add: add.commute)
  also have "\<dots> = md\<lparr>md_buf := take (Suc c) ((md_buf md)[c := 0]) @ replicate (l - Suc c) 0 @ drop l (md_buf md),
      md_curlen := of_nat l\<rparr>"
    using Suc.hyps(1) [of "Suc c" ?md] Suc.hyps(2) Suc.prems by simp
  also have "take (Suc c) ((md_buf md)[c := 0]) = take c (md_buf md) @ [0]"
    using Suc.hyps(2) Suc.prems by (simp add: take_Suc_conv_app_nth)
  also have "(take c (md_buf md) @ [0]) @ replicate (l - Suc c) 0 @ drop l (md_buf md) =
      take c (md_buf md) @ replicate (l - c) 0 @ drop l (md_buf md)"
    using Suc.hyps(2) by (cases "l - c") (simp_all add: diff_Suc split: nat.splits)
  finally show ?case by simp
qed

lemma unat_byte: "unat (ucast (x AND 255 :: u64) :: u8) = unat x mod 256"
proof -
  have "(255 :: u64) = mask 8" by (simp add: mask_numeral)
  then have "x AND 255 = take_bit 8 x" by (simp only: take_bit_eq_mask)
  then show ?thesis by (simp only: unsigned_take_bit_eq unsigned_ucast_eq) (simp add: take_bit_eq_mod)
qed

lemma byte_of_nat:
  assumes "n < 2 ^ 64"
  shows "(ucast (drop_bit k (of_nat n :: u64) AND 255) :: u8) = of_nat (n div 2 ^ k mod 256)"
proof (rule word_unat_eq_iff [THEN iffD2])
  have u: "unat (of_nat n :: u64) = n" using assms by (simp add: unat_of_nat)
  have "unat (drop_bit k (of_nat n :: u64)) = n div 2 ^ k"
    by (simp only: unat_drop_bit_eq u) (rule drop_bit_eq_div)
  then show "unat (ucast (drop_bit k (of_nat n :: u64) AND 255) :: u8) = unat (of_nat (n div 2 ^ k mod 256) :: u8)"
    by (simp add: unat_byte unat_of_nat)
qed

lemma STORE64H_spec:
  assumes "n < 2 ^ 64"
  shows "STORE64H (of_nat n) = length_be n"
proof -
  have 8: "rev [0..<8] = [7, 6, 5, 4, 3, 2, 1, 0 :: nat]" by (simp add: upt_rec)
  have 0: "(ucast ((of_nat n :: u64) AND 255) :: u8) = of_nat (n div 2 ^ 0 mod 256)"
    using byte_of_nat [OF assms, of 0] by simp
  show ?thesis
    unfolding STORE64H_def length_be_def 8 list.map byte_of_nat [OF assms] 0 by simp
qed

lemma blocks_64: "b \<in> set (blocks xs) \<Longrightarrow> length b = 64"
proof (induction xs rule: blocks.induct)
  case (1 xs)
  show ?case
  proof (cases "length xs < 64")
    case False
    then have "b = take 64 xs \<or> b \<in> set (blocks (drop 64 xs))"
      using 1(2) by (subst (asm) blocks.simps) simp
    with 1(1) False show ?thesis by auto
  qed (use 1(2) in \<open>simp add: blocks_short\<close>)
qed

lemma length_compress_state [simp]: "length (compress_state st b) = min (length st) (length (rounds_unrolled (fill_W b) st))"
  by (simp add: compress_state_def)

lemma length_spec_compress [simp]: "length (spec_compress st b) = min (length st) 8"
  by (simp add: spec_compress_def del: vars_of.simps)

lemma foldl_compress:
  "length st = 8 \<Longrightarrow> \<forall>b \<in> set bs. length b = 64 \<Longrightarrow>
    foldl compress_state st bs = foldl spec_compress st bs"
  by (induction bs arbitrary: st) (simp_all add: compress_state_spec del: length_compress_state)

lemma length_foldl_spec: "length st = 8 \<Longrightarrow> length (foldl spec_compress st bs) = 8"
  by (induction bs arbitrary: st) simp_all

lemma length_length_be [simp]: "length (length_be n) = 8"
  by (simp add: length_be_def)

text \<open>The blocks that the padding adds: one, or two when the rest leaves no room for the length.\<close>

definition last_blocks :: "u8 list \<Rightarrow> nat \<Rightarrow> u8 list list" where
  "last_blocks t n =
     (if length t < 56 then [t @ 0x80 # replicate (55 - length t) 0 @ length_be n]
      else [t @ 0x80 # replicate (63 - length t) 0, replicate 56 0 @ length_be n])"

lemma blocks_padding:
  "blocks (msg @ padding (length msg)) = blocks (whole msg) @ last_blocks (rest msg) (8 * length msg)"
proof -
  let ?t = "rest msg"
  have r: "length msg mod 64 = length ?t" by (simp add: rest_def minus_mult_div_eq_mod)
  have l: "length ?t < 64" by (rule whole_rest_length)
  have z: "(119 - length ?t) mod 64 = (if length ?t < 56 then 55 - length ?t else 119 - length ?t)"
    using l by (auto simp: mod_if)
  have "blocks (?t @ padding (length msg)) = last_blocks ?t (8 * length msg)"
  proof (cases "length ?t < 56")
    case True
    then show ?thesis by (simp add: padding_def r z last_blocks_def blocks_one)
  next
    case False
    have "replicate (119 - length ?t) (0 :: u8) = replicate (63 - length ?t) 0 @ replicate 56 0"
      using l False by (simp add: replicate_add [symmetric])
    then have "?t @ padding (length msg) =
        (?t @ 0x80 # replicate (63 - length ?t) 0) @ (replicate 56 0 @ length_be (8 * length msg))"
      using False by (simp add: padding_def r z)
    moreover have "64 dvd length (?t @ 0x80 # replicate (63 - length ?t) (0 :: u8))"
      using l False by simp
    ultimately show ?thesis
      using l False by (simp add: blocks_append blocks_one last_blocks_def del: append_assoc)
  qed
  then show ?thesis
    using blocks_append [OF whole_rest_length(1) [of msg], of "?t @ padding (length msg)"] by simp
qed

lemma foldl_H0: "foldl compress_state H0 (blocks xs) = foldl spec_compress spec_H (blocks xs)"
  using foldl_compress [of H0 "blocks xs"] blocks_64 by (simp add: H0_def [symmetric] H0_spec [symmetric]) (simp add: H0_def)

definition mark :: "sha256_state \<Rightarrow> sha256_state" where
  "mark md = md\<lparr>md_length := md_length md + ucast (md_curlen md * 8),
     md_buf := (md_buf md)[unat (md_curlen md) := 0x80], md_curlen := md_curlen md + 1\<rparr>"

lemma mark_absorbed:
  assumes "sha256.absorbed md msg" and "8 * length msg < 2 ^ 64"
  shows "length (md_buf (mark md)) = 64"
    and "md_curlen (mark md) = of_nat (Suc (length (rest msg)))"
    and "take (Suc (length (rest msg))) (md_buf (mark md)) = rest msg @ [0x80]"
    and "md_length (mark md) = of_nat (8 * length msg)"
    and "md_state (mark md) = foldl compress_state H0 (blocks (whole msg))"
proof -
  note a = assms(1) [unfolded sha256.absorbed_def]
  note c = sha256.absorbed_curlen [OF assms(1)]
  show "length (md_buf (mark md)) = 64" "md_state (mark md) = foldl compress_state H0 (blocks (whole msg))"
    "md_curlen (mark md) = of_nat (Suc (length (rest msg)))"
    using a by (simp_all add: mark_def)
  show "take (Suc (length (rest msg))) (md_buf (mark md)) = rest msg @ [0x80]"
    using a c by (simp add: mark_def take_Suc_conv_app_nth)
  have "unat (md_curlen md * 8) = length (rest msg) * 8"
    using c by (simp add: unat_word_ariths)
  then have "(ucast (md_curlen md * 8) :: u64) = of_nat (length (rest msg) * 8)"
    by (intro word_unat_eq_iff [THEN iffD2])
      (use c in \<open>simp add: unsigned_ucast_eq take_bit_eq_mod unat_of_nat del: of_nat_mult\<close>)
  moreover have "length msg = length (whole msg) + length (rest msg)"
    by (metis length_append whole_rest_append(1))
  ultimately show "md_length (mark md) = of_nat (8 * length msg)"
    using a by (simp add: mark_def algebra_simps)
qed

lemma sha256_done_mark:
  "md_curlen md < 64 \<Longrightarrow> sha256_done md =
    (let md3 = (if 56 < md_curlen (mark md)
                then (let z = zero_fill 64 (mark md) in (snd (sha256_compress z (md_buf z)))\<lparr>md_curlen := 0\<rparr>)
                else mark md);
         md4 = zero_fill 56 md3;
         md5 = md4\<lparr>md_buf := copy_in (md_buf md4) 56 (STORE64H (md_length md4))\<rparr>;
         md6 = snd (sha256_compress md5 (md_buf md5))
     in (CRYPT_OK, md6, concat (map STORE32H (md_state md6))))"
  by (simp add: sha256_done_def mark_def Let_def not_le [symmetric])

lemma zero_fill_64: "c \<le> 64 \<Longrightarrow> md_curlen md = of_nat c \<Longrightarrow> length (md_buf md) = 64 \<Longrightarrow>
    zero_fill 64 md = md\<lparr>md_buf := take c (md_buf md) @ replicate (64 - c) 0, md_curlen := 64\<rparr>"
  using zero_fill_eq [of c 64 md] by simp

lemma zero_fill_56: "c \<le> 56 \<Longrightarrow> md_curlen md = of_nat c \<Longrightarrow> length (md_buf md) = 64 \<Longrightarrow>
    zero_fill 56 md = md\<lparr>md_buf := take c (md_buf md) @ replicate (56 - c) 0 @ drop 56 (md_buf md), md_curlen := 56\<rparr>"
  using zero_fill_eq [of c 56 md] by simp

lemma copy_in_56: "length b = 64 \<Longrightarrow> length xs = 8 \<Longrightarrow> copy_in b 56 xs = take 56 b @ xs"
  by (simp add: copy_in_def)

lemma sha256_done_absorbed:
  assumes "sha256.absorbed md msg" and "8 * length msg < 2 ^ 64"
  shows "\<exists>md'. sha256_done md = (CRYPT_OK, md', sha256_spec msg)"
proof -
  let ?r = "length (rest msg)"
  note c = sha256.absorbed_curlen [OF assms(1)] and m = mark_absorbed [OF assms]
  have lt: "md_curlen md < 64" using c by (simp add: word_less_nat_alt)
  have r: "56 < md_curlen (mark md) \<longleftrightarrow> 56 \<le> ?r"
    using c(2) m(2) by (simp add: word_less_nat_alt unat_of_nat del: of_nat_Suc) arith
  have out: "sha256_spec msg = concat (map STORE32H
      (foldl compress_state (foldl compress_state H0 (blocks (whole msg))) (last_blocks (rest msg) (8 * length msg))))"
    unfolding sha256_spec_def foldl_H0 [symmetric]
    by (simp only: blocks_padding foldl_append STORE32H_spec [abs_def])
  have st: "STORE64H (8 * of_nat (length msg)) = length_be (8 * length msg)"
    using STORE64H_spec [OF assms(2)] by simp
  show ?thesis
  proof (cases "56 \<le> ?r")
    case True
    have "zero_fill 64 (mark md) = (mark md)\<lparr>md_buf := rest msg @ 0x80 # replicate (63 - ?r) 0, md_curlen := 64\<rparr>"
      using zero_fill_64 [of "Suc ?r" "mark md"] c(2) m by simp
    then show ?thesis using True r c(2) m assms(2) out
      by (simp add: sha256_done_mark [OF lt] Let_def sha256_compress_def zero_fill_56 [of 0] copy_in_56
          st last_blocks_def)
  next
    case False
    have "zero_fill 56 (mark md) = (mark md)\<lparr>md_buf := (rest msg @ 0x80 # replicate (55 - ?r) 0) @ drop 56 (md_buf (mark md)), md_curlen := 56\<rparr>"
      using zero_fill_56 [of "Suc ?r" "mark md"] False m by simp
    then show ?thesis using False r c(2) m assms(2) out
      by (simp add: sha256_done_mark [OF lt] Let_def sha256_compress_def copy_in_56
          st last_blocks_def take_Cons' Suc_diff_le)
  qed
qed

section \<open>Properties\<close>

text \<open>C38. The 64 unrolled rounds, whose working variables never move, compute what the rolled
form does with its table of constants and its shifting of the state, for every schedule.\<close>

theorem rounds_unrolled_small:
  assumes "length W = 64" and "length S = 8"
  shows "rounds_unrolled W S = rounds_small W S"
  using assms by (simp add: rounds_unrolled_spec rounds_small_spec)

theorem rounds_unrolled_small_witness:
  "rounds_unrolled (replicate 64 7) (replicate 8 1) = rounds_small (replicate 64 7) (replicate 8 1)"
  by (rule rounds_unrolled_small) simp_all

text \<open>The compression function is that of FIPS 180-4: it succeeds on every object, replaces
the chaining value by that of the standard and leaves the rest of the object alone.\<close>

lemma sha256_compress_refines:
  assumes "length (md_state md) = 8" and "length buf = 64"
  shows "sha256_compress md buf =
    (CRYPT_OK, md\<lparr>md_state := spec_compress (md_state md) buf\<rparr>)"
  using assms by (simp add: sha256_compress_def compress_state_spec)

definition raw_md :: sha256_state where
  "raw_md = \<lparr>md_length = 0, md_buf = replicate 64 0xA5, md_state = replicate 8 3, md_curlen = 9\<rparr>"

text \<open>C37. A message of less than \<open>2 ^ 61\<close> bytes, fed in any pieces into an object in any
state, hashes to the digest that FIPS 180-4 gives for the whole message: every call succeeds, and
neither the places where the pieces are cut nor what the object held before matters.\<close>

theorem sha256_digest:
  assumes "length (md_buf md) = 64" and "length (concat ps) < 2 ^ 61"
  shows "\<exists>md1 md2. feed (sha256_init md) ps = (CRYPT_OK, md1) \<and>
    sha256_done md1 = (CRYPT_OK, md2, sha256_spec (concat ps))"
proof -
  obtain md1 where 1: "feed (sha256_init md) ps = (CRYPT_OK, md1)" "sha256.absorbed md1 (concat ps)"
    using feed_absorbs [OF sha256_init_absorbed [OF assms(1)], of ps] assms(2) by auto
  moreover obtain md2 where "sha256_done md1 = (CRYPT_OK, md2, sha256_spec (concat ps))"
    using sha256_done_absorbed [OF 1(2)] assms(2) by auto
  ultimately show ?thesis by blast
qed

theorem sha256_digest_witness:
  "\<exists>md1 md2. feed (sha256_init raw_md) [[0x61], [], [0x62, 0x63]] = (CRYPT_OK, md1) \<and>
    sha256_done md1 = (CRYPT_OK, md2, sha256_spec [0x61, 0x62, 0x63])"
  using sha256_digest [of raw_md "[[0x61], [], [0x62, 0x63]]"] by (simp add: raw_md_def)

lemma process_one_block:
  assumes "md_curlen md = 0" and "length inp = 64"
  shows "process_loop sha256_compress md inp =
    (CRYPT_OK, md\<lparr>md_state := compress_state (md_state md) inp, md_length := md_length md + 512\<rparr>)"
  using assms
  by (auto simp: process_loop.simps [of _ _ inp] process_loop.simps [of _ _ "[]"] sha256_compress_def)

text \<open>C40. The overflow guard compares the length in bits with a length in bytes: with the counter
at its last multiple of a block, one more block passes the guard, the call reports success, and
the counter has wrapped to zero.\<close>

theorem overflow_guard_wraps:
  assumes "md_curlen md = 0" and "md_length md = 0xFFFFFFFFFFFFFE00" and "length inp = 64"
  shows "fst (sha256_process md inp) = CRYPT_OK \<and> md_length (snd (sha256_process md inp)) = 0"
  using assms
  by (simp add: sha256_process_def hash_process_def process_one_block word_less_nat_alt unat_word_ariths)

theorem overflow_guard_wraps_witness:
  "fst (sha256_process (raw_md\<lparr>md_curlen := 0, md_length := 0xFFFFFFFFFFFFFE00\<rparr>) (replicate 64 0)) = CRYPT_OK \<and>
   md_length (snd (sha256_process (raw_md\<lparr>md_curlen := 0, md_length := 0xFFFFFFFFFFFFFE00\<rparr>) (replicate 64 0))) = 0"
  by (rule overflow_guard_wraps) simp_all

lemma SHA256_call_absorbs:
  assumes "sha256.absorbed (sha_md a) msg" and "sha_buf a = replicate (unat (sha_length a)) 0"
    and "length msg + unat iterations * unat (sha_length a) < 2 ^ 61"
  shows "\<exists>a'. SHA256_call iterations a = Inr a' \<and> sha_buf a' = sha_buf a \<and> sha_length a' = sha_length a \<and>
    sha256.absorbed (sha_md a') (msg @ replicate (unat iterations * unat (sha_length a)) 0)"
  unfolding SHA256_call_def
proof (rule fold_res_upt_inv [where P = "\<lambda>n a'. sha_buf a' = sha_buf a \<and> sha_length a' = sha_length a \<and>
    sha256.absorbed (sha_md a') (msg @ replicate (n * unat (sha_length a)) 0)"], goal_cases)
  case 1
  then show ?case using assms by simp
next
  case (2 n s)
  let ?l = "unat (sha_length a)"
  have "n * ?l + ?l \<le> unat iterations * ?l" 
    using 2 mult_le_mono1 [of "Suc n" "unat iterations" ?l] by simp
  then have "length (msg @ replicate (n * ?l) (0 :: u8)) + length (replicate ?l (0 :: u8)) < 2 ^ 61"
    using assms(3) by simp
  from sha256.hash_process_absorbs [OF _ this, of "sha_md s"] show ?case
    using 2 assms(2) by (auto simp: sha256_process_def replicate_add [symmetric] add.commute)
qed

lemma SHA256_calls_absorb:
  assumes "sha256.absorbed (sha_md a) msg" and "sha_buf a = replicate (unat (sha_length a)) 0"
    and "length msg + n * (unat iterations * unat (sha_length a)) < 2 ^ 61"
  shows "\<exists>a'. fold_res (\<lambda>_. SHA256_call iterations) [0..<n] a = Inr a' \<and>
    sha_buf a' = sha_buf a \<and> sha_length a' = sha_length a \<and>
    sha256.absorbed (sha_md a') (msg @ replicate (n * (unat iterations * unat (sha_length a))) 0)"
proof (rule fold_res_upt_inv [where P = "\<lambda>n a'. sha_buf a' = sha_buf a \<and> sha_length a' = sha_length a \<and>
    sha256.absorbed (sha_md a') (msg @ replicate (n * (unat iterations * unat (sha_length a))) 0)"], goal_cases)
  case 1
  then show ?case using assms by simp
next
  case (2 i s)
  let ?l = "unat iterations * unat (sha_length a)"
  have "length (msg @ replicate (i * ?l) (0 :: u8)) + ?l < 2 ^ 61"
    using 2 assms(3) mult_le_mono1 [of "Suc i" n ?l] by simp
  with SHA256_call_absorbs [of s "msg @ replicate (i * ?l) 0" iterations] 2 assms(2)
  show ?case by (auto simp: replicate_add [symmetric] add.commute)
qed

text \<open>C39. The benchmark: after any number of calls its object holds the hash of that many times
\<open>iterations\<close> buffers of zeros; the assertion on the return code never fails while the
total stays below \<open>2 ^ 61\<close> bytes.\<close>

theorem sha256_benchmark:
  assumes "length (md_buf (sha_md raw)) = 64" and "n * (unat iterations * unat sz) < 2 ^ 61"
  shows "\<exists>a md2. and_then (SHA256_argument_init True True raw sz)
      (fold_res (\<lambda>_. SHA256_call iterations) [0..<n]) = Inr a \<and>
    sha256_done (sha_md a) =
      (CRYPT_OK, md2, sha256_spec (replicate (n * (unat iterations * unat sz)) 0))"
proof -
  let ?a = "raw\<lparr>sha_length := sz, sha_buf := replicate (unat sz) 0, sha_md := sha256_init (sha_md raw)\<rparr>"
  let ?msg = "replicate (n * (unat iterations * unat sz)) 0 :: u8 list"
  have "sha256.absorbed (sha_md ?a) []" using sha256_init_absorbed [OF assms(1)] by simp
  from SHA256_calls_absorb [OF this, of n iterations] assms(2) obtain a where
    a: "fold_res (\<lambda>_. SHA256_call iterations) [0..<n] ?a = Inr a" "sha256.absorbed (sha_md a) ?msg"
    by auto
  moreover obtain md2 where "sha256_done (sha_md a) = (CRYPT_OK, md2, sha256_spec ?msg)"
    using sha256_done_absorbed [OF a(2)] assms(2) by auto
  ultimately show ?thesis by (auto simp: SHA256_argument_init_def)
qed

theorem sha256_benchmark_witness:
  "\<exists>a md2. and_then (SHA256_argument_init True True \<lparr>sha_md = raw_md, sha_buf = [], sha_length = 0\<rparr> 1000)
      (fold_res (\<lambda>_. SHA256_call 10000) [0..<3]) = Inr a \<and>
    sha256_done (sha_md a) = (CRYPT_OK, md2, sha256_spec (replicate 30000000 0))"
  using sha256_benchmark [of "\<lparr>sha_md = raw_md, sha_buf = [], sha_length = 0\<rparr>" 3 10000 1000]
  by (simp add: raw_md_def)

end
