(* ===== verification/Spec2Isabelle.thy ===== *)
theory Spec2Isabelle
  imports Mailbox Barrier Program Sizing Shutdown Arch_X86_Config Arch_Aarch64 Arch_Others Sha256_Digest
begin

text \<open>
  hwvar measures how much the run time and the hardware counters of small benchmarks vary between
  the CPUs of a machine. \<open>main\<close> (\<open>src/main.cc\<close>) reads the options, selects benchmarks and
  counters, starts one worker thread for each CPU, runs each benchmark on the workers under one of
  three policies, and prints the results. A worker (\<open>src/worker.c\<close>) takes work items from a
  one-slot mailbox in its \<open>struct arg\<close>, waits with the others at a barrier, and writes times and
  counters (\<open>include/arch.h\<close>) into its part of the results. Worker 0, the dirigent, runs on the
  main thread. This library models that program and proves it correct, or states where it is not.

  Conventions. An integer of \<open>w\<close> bits is a \<open>w word\<close>; where a C expression is computed at another
  width, the model does the same. A function that can fail has the type \<open>'a outcome\<close>: a failed
  \<open>assert\<close>, an \<open>exit\<close>, or undefined behaviour, which the accesses of arrays check for (\<open>load\<close>,
  \<open>store\<close>). The hardware, the kernel, hwloc, libjevents, BGPM, \<open>getopt_long\<close> and the benchmarks'
  own code are parameters: records of functions on a world of type \<open>'e\<close>, of which every worker has its
  own. Output for the user on \<open>stderr\<close> is not modelled, but for the reports of \<open>bind_thread\<close>.

  The theories, from the bottom up:
  \<^item> \<open>Prelude\<close>: failures, the rules for loops, and three contracts (locales) for machines with
    steps: an invariant, progress to a final state, simulation of an abstract machine. Each of them is
    interpreted on the mailbox, the barrier, the policies or the main loop.
  \<^item> \<open>Arrays\<close>, \<open>CString\<close>, \<open>Floating\<close>: checked accesses, the functions of \<open>string.h\<close> that
    the program calls, and IEEE 754 binary64 on rationals.
  \<^item> \<open>Mailbox\<close> (\<open>queue_work\<close>, \<open>wait_until_done\<close>, \<open>wait_for_work\<close>,
    \<open>return_finished_work\<close>): the four critical sections, and the two threads at the granularity of the
    pthread calls, with spurious wake-ups. No assertion fails, items come back in order, nothing is
    lost, and the whole refines a one-place exchange.
  \<^item> \<open>Barrier\<close> (\<open>src/barrier.c\<close>): any number of threads in any number of rounds; nobody leaves a
    round early, exactly one thread is the serial one of each round, nobody is left behind; it refines an abstract
    barrier. The phase and the count are words: the theorems hold for fewer than \<open>2 ^ 32\<close> threads.
  \<^item> \<open>Worker\<close>: binding a thread (\<open>bind_thread\<close> and what it reads back), and one work item, on any
    counters that keep the contract \<open>pmu_contract\<close>: beginning and ending a measurement touch the slots of
    their own row only. \<open>alone\<close> runs the items of a worker one after the other, each in the world that
    the one before left: this is what the theorems about the whole program compare with.
  \<^item> \<open>Arch_Aarch64\<close>, \<open>Arch_X86\<close>, \<open>Arch_Others\<close>: the counters of \<open>include/arch.h\<close>, each an
    interpretation of that contract. \<open>Arch_X86\<close> has the configuration that the file selects;
    \<open>Arch_X86_Config\<close> has all that it has code for, and shows that the selected one is \<open>Arch_X86\<close>.
  \<^item> \<open>Policy\<close>, \<open>Policy_Proofs\<close>, \<open>Policy_X86\<close>: \<open>run_in_parallel\<close>, \<open>run_one_by_one\<close> and
    \<open>run_two_benchmarks\<close> as scripts of the main thread, interleaved with all the workers in single
    repetitions; whatever the interleaving, the results are those of each worker alone.
  \<^item> \<open>Main_Loop\<close>: the loop over the benchmarks, the iterations one after the other on the same
    workers, whose worlds go on from one to the next. Its invariant ties the results that have been printed, and
    the worlds, to \<open>alone\<close> from the start of the loop. For the policy for pairs it shows that every run
    fails in the second iteration, and where.
  \<^item> \<open>Options\<close>, \<open>Selection\<close>, \<open>Tuning\<close>, \<open>Startup\<close>: the first half of \<open>main\<close>: the command line,
    the benchmarks and counters that it selects, the number of rounds that fills a given time, and all
    of it in the order of \<open>main\<close> up to the start of the workers.
  \<^item> \<open>Sizing\<close> (\<open>src/benchmarks/benchmark.c\<close>): the size of a benchmark's data from the cache and the fill
    factor.
  \<^item> \<open>Threads\<close>: \<open>init_step\<close> and \<open>spawn_workers\<close>.
  \<^item> \<open>Shutdown\<close>: \<open>stop_workers\<close> as a script of the main thread, interleaved with the workers, which all come
    to the barrier of its one step (\<open>barrier_arrive\<close> of the theory \<open>Barrier\<close>).
  \<^item> \<open>Results\<close>: \<open>result_alloc\<close> and \<open>result_print\<close>; the text, read back, gives the numbers.
  \<^item> \<open>Program\<close>: the second half of \<open>main\<close>, from the start of the workers to the output; its
    theorem is in this theory.
  \<^item> \<open>Sha256\<close>, \<open>Sha256_Spec\<close>, \<open>Sha256_Proofs\<close>, \<open>Sha256_Digest\<close>: the benchmark whose result
    has a specification, SHA-256, against FIPS 180-4.

  Levels of detail. The mailbox and the barrier are proved at the level of the pthread calls, and
  their critical sections are single steps in the theories above, which the mutex that they hold
  justifies. A script of the main thread is run by \<open>sys_step\<close>; a step of a worker is one repetition, the
  preparation or the end of an item. Within the main loop, and when the workers are stopped,
  no fuel is used: progress is a measure that every step lowers. The only loop without a bound of its own, the one of \<open>tune_time\<close> that waits
  for a second to pass, is a partial function, and its theorem assumes that the clock gets there in
  fewer than \<open>2 ^ 32\<close> calls.

  Limits in the theorems. The numbers of workers, repetitions and counters multiply to less than
  \<open>2 ^ 32\<close> (\<open>sizes_ok\<close>): the offsets into the results are products of \<open>unsigned\<close>. A worker counts at
  most 31 events under McKernel and with the raw registers, since a mask is shifted in an \<open>int\<close>. The
  policy for two benchmarks fails with three benchmarks or more; that is a theorem, too. The theorems about
  \<open>stop_workers\<close> are for a step that could be allocated; otherwise it follows a null pointer.

  Not modelled. The numerical benchmarks (dgemm, HACCmk, STREAM, HPCCG, MiniFE, fixed work quantum,
  capacity) are called through \<open>benchmark_t\<close> only, of which a policy needs nothing but its functions;
  the same goes for their functions \<open>init\<close>, which parse options of their own. Freeing memory, destroying
  mutexes and condition variables (\<open>pthread_barrier_destroy\<close>, \<open>free_step\<close>, \<open>result_free\<close>) has no
  effect that the rest of the program sees. \<open>get_time\<close> in \<open>src/worker.c\<close>, \<open>mck_pmc_start\<close>,
  \<open>mck_pmc_stop\<close> and the declarations of \<open>include/platform.h\<close> are not used. The setting up of the
  topology at the start of \<open>main\<close>, its messages and those of the conversions are input and output.
\<close>

section \<open>The program as a whole\<close>

text \<open>C1. From the start of the workers to the output, for the policies parallel and one-by-one on x86: on
the threads that \<open>spawn_workers\<close> returns, after the empty benchmark that waits for them, the main
loop fails in no interleaving and can always be run to its end. When it is through, every benchmark
has its results printed, in order, and the number that stands in the line of counter \<open>c\<close> and thread
\<open>t\<close> for repetition \<open>r\<close> is the one that this worker writes for \<open>c\<close> and \<open>r\<close> when it runs the empty
benchmark and then all the benchmarks alone, one after the other, from the world \<open>env t\<close> that it
starts in, each in the world that the one before left; and it ends in the world in which it ends
alone. Then the mailboxes are as \<open>stop_workers\<close> needs them.\<close>

theorem program_output:
  assumes "topology_ok topo (spawn_type ht)" and "system_ok sys"
    and "spawn_workers topo sys cpuset ht b = Inr (Some (ths, cpus_set))" and "N = card cpus_set"
    and "cpus = thread_cpu benv ths"
    and "pol = PARALLEL \<or> pol = ONE_BY_ONE" and "sizes_ok N reps names (num + 1) alloc" and "0 < reps"
    and "\<forall>nm \<in> set names. newline \<notin> set nm"
    and "main_jobs pol set1 N cpus bs reps names (num + 1) alloc 0 = Inr js"
    and "length d0 = N" and "jobs = synchronize_worker_init null N d0 # js"
    and "reach (\<lambda>st. st = (jobs, enter_job jobs (started ths env), [])) (main_step (x86_arch lib) cpus) (todo, s, out)"
  shows "\<not> y_failed s \<and> (\<exists>s1 out1. (main_step (x86_arch lib) cpus)\<^sup>*\<^sup>* (todo, s, out) ([], s1, out1)) \<and>
    (todo = [] \<longrightarrow> at_rest N s \<and> (\<exists>outputs. map (print_results next_cpu N reps names num) (tl out) = map Inr outputs \<and>
       length outputs = length bs \<and>
       (\<forall>t < N. \<exists>d ds. alone (x86_arch lib) (cpus t) (worker_items null d0 bs reps names (num + 1) alloc t) (env t) =
            Inr (d # ds, y_env s t) \<and> prints N (unat reps) (Suc (unat num)) t outputs ds)))"
proof -
  have N: "0 < N" using assms(7) by (simp add: sizes_ok_def)
  note rest = spawned_rest [OF assms(1-4)]
  have fit: "\<forall>j \<in> set jobs. job_fits lib N cpus j \<and> collects_all N j"
    unfolding assms(12)
    by (auto simp: synchronize_fits [OF N rest(2) assms(11)] dest: main_jobs_fit(2) [OF assms(6,7,10), THEN bspec])
  have inv: "main_inv lib N cpus env jobs (todo, s, out)"
    using main_reach_inv [OF fit rest(1) assms(13)] by (simp add: started_def)
  have ends: "\<exists>s1 out1. (main_step (x86_arch lib) cpus)\<^sup>*\<^sup>* (todo, s, out) ([], s1, out1)"
    using main_run.reaches_final [OF inv] by (metis fst_conv surj_pair)
  have "at_rest N s \<and> (\<exists>outputs. map (print_results next_cpu N reps names num) (tl out) = map Inr outputs \<and>
       length outputs = length bs \<and>
       (\<forall>t < N. \<exists>d ds. alone (x86_arch lib) (cpus t) (worker_items null d0 bs reps names (num + 1) alloc t) (env t) =
            Inr (d # ds, y_env s t) \<and> prints N (unat reps) (Suc (unat num)) t outputs ds))" if "todo = []"
  proof
    have d: "at_rest N s" "jobs_done lib N cpus jobs env out (y_env s)"
      using main_inv_done [OF inv] that by auto
    show "at_rest N s" by (rule d(1))
    show "\<exists>outputs. map (print_results next_cpu N reps names num) (tl out) = map Inr outputs \<and>
       length outputs = length bs \<and>
       (\<forall>t < N. \<exists>d ds. alone (x86_arch lib) (cpus t) (worker_items null d0 bs reps names (num + 1) alloc t) (env t) =
            Inr (d # ds, y_env s t) \<and> prints N (unat reps) (Suc (unat num)) t outputs ds)"
      by (rule jobs_print [OF d(2) [unfolded assms(12)] assms(6,7,10,8,9)])
  qed
  with main_inv_ok [OF inv] ends show ?thesis by blast
qed

text \<open>Two workers and two benchmarks with one counter.\<close>

abbreviation "demo_program \<equiv> synchronize_worker_init () 2 [0, 0] # demo_jobs"

abbreviation demo_workers :: "(unit, nat \<times> nat \<times> nat) work_t arg list" where
  "demo_workers \<equiv> demo_threads"

theorem program_output_witness:
  "\<exists>s out outputs. (main_step (x86_arch demo_lib) (thread_cpu (\<lambda>_. demo_binding) demo_workers))\<^sup>*\<^sup>*
      (demo_program, enter_job demo_program (started demo_workers demo_env), []) ([], s, out) \<and>
    map (print_results (\<lambda>i. i + 1) 2 2 [''b''] 1) (tl out) = map Inr outputs \<and> length outputs = 2 \<and>
    (\<exists>d ds. alone (x86_arch demo_lib) (thread_cpu (\<lambda>_. demo_binding) demo_workers 1)
        (worker_items () [0, 0] [demo_bench, demo_bench] 2 [''b''] 2 (\<lambda>_. replicate 8 0) 1) (5, 1, 0) = Inr (d # ds, y_env s 1) \<and>
      read_table (outputs ! 1) ! 3 ! 1 = unat (ds ! 1 ! 7))"
proof -
  let ?cpus = "thread_cpu (\<lambda>_. demo_binding) demo_workers"
  let ?st = "(demo_program, enter_job demo_program (started demo_workers demo_env), [])"
  let ?reach = "reach (\<lambda>st. st = ?st) (main_step (x86_arch demo_lib) ?cpus)"
  have j: "main_jobs PARALLEL {} 2 ?cpus [demo_bench, demo_bench] 2 [''b''] (1 + 1) (\<lambda>_. replicate 8 0) 0 = Inr demo_jobs"
    by (simp add: main_jobs_parallel upt_rec)
  have sz: "sizes_ok 2 2 [''b''] (1 + 1) (\<lambda>_. replicate 8 0)" using demo_sizes by simp
  note out = program_output [OF demo_topology_ok demo_spawn _ refl _ sz _ _ j _ refl,
      where lib = demo_lib and env = demo_env and next_cpu = "\<lambda>i. i + 1"]
  have "?reach ?st" by (rule reach_init) simp
  from out [OF _ _ _ _ _ this] obtain s out where s: "(main_step (x86_arch demo_lib) ?cpus)\<^sup>*\<^sup>* ?st ([], s, out)"
    by (auto simp: newline_def)
  moreover from reach_steps [OF this \<open>?reach ?st\<close>] have "?reach ([], s, out)" .
  from out [OF _ _ _ _ _ this] obtain outputs
    where o: "map (print_results (\<lambda>i. i + 1) 2 2 [''b''] 1) (tl out) = map Inr outputs" "length outputs = 2"
      "\<forall>t < 2. \<exists>d ds. alone (x86_arch demo_lib) (?cpus t)
        (worker_items () [0, 0] [demo_bench, demo_bench] 2 [''b''] (1 + 1) (\<lambda>_. replicate 8 0) t) (demo_env t) =
          Inr (d # ds, y_env s t) \<and> prints 2 (unat (2 :: u32)) (Suc (unat (1 :: u32))) t outputs ds"
    by (auto simp: newline_def)
  have u: "unat (2 :: u32) = 2" "Suc (unat (1 :: u32)) = 2" "(1 :: nat) < 2" by simp_all
  from o(3) [rule_format, OF u(3), unfolded u(1,2) one_add_one] obtain d ds where
    "alone (x86_arch demo_lib) (?cpus 1) (worker_items () [0, 0] [demo_bench, demo_bench] 2 [''b''] 2
      (\<lambda>_. replicate 8 0) 1) (demo_env 1) = Inr (d # ds, y_env s 1)" "prints 2 2 2 1 outputs ds"
    by blast
  moreover from this(2) o(2) have "read_table (outputs ! 1) ! 3 ! 1 = unat (ds ! 1 ! 7)"
    unfolding prints_def by (auto simp: eval_nat_numeral dest!: spec [of _ "1 :: nat"])
  moreover note o(1,2)
  ultimately show ?thesis by blast
qed

end
